(* ===== verification/Prelude.thy ===== *)
theory Prelude
  imports Main "HOL-Library.Word"
begin

text \<open>
  Shared vocabulary of the development: machine words, the outcome of a kernel routine, the
  state monad in which the routines are written, a weakest-precondition reading of it, and the
  generic facts on words and lists that several components use.

  A kernel routine is a function from a state to an outcome. It either returns a value with the
  next state (\<open>Inr\<close>) or it stops (\<open>Inl\<close>) and leaves the state in which it stopped: it calls
  \<open>panic\<close>, it switches to the scheduler (\<open>swtch\<close> in \<open>sched\<close>), it spins on a lock that another CPU holds, it
  runs into undefined behaviour of C, or a loop over a broken pointer structure does not end.
\<close>

unbundle bit_operations_syntax

type_synonym u8 = "8 word"
type_synonym u16 = "16 word"
type_synonym u32 = "32 word"

named_theorems wp \<open>weakest-precondition rules of the kernel monad\<close>
named_theorems run \<open>rules that execute the kernel monad on a given state\<close>
named_theorems flag_simps \<open>rules for the flag words of buffers and inodes\<close>

section \<open>Outcomes and the kernel monad\<close>

text \<open>
  Sleep channels. The C code sleeps on the address of an object; distinct objects have distinct
  addresses, so a channel is the identity of the object (\<open>ChNull\<close>: the null pointer).
\<close>

datatype chan =
    ChBuf nat | ChInode nat | ChLog | ChProc nat | ChPipeRead u32 | ChPipeWrite u32
  | ChTicks | ChInput | ChNull

datatype stop =
    Panic string
  | Swtch
  | Spins
  | Diverges
  | Undefined string

type_synonym ('s, 'a) km = "'s \<Rightarrow> (stop \<times> 's) + ('a \<times> 's)"

definition ret :: "'a \<Rightarrow> ('s, 'a) km" where
  "ret x s = Inr (x, s)"

definition bnd :: "('s, 'a) km \<Rightarrow> ('a \<Rightarrow> ('s, 'b) km) \<Rightarrow> ('s, 'b) km" where
  "bnd m f s = (case m s of Inl e \<Rightarrow> Inl e | Inr (x, t) \<Rightarrow> f x t)"

definition stop :: "stop \<Rightarrow> ('s, 'a) km" where
  "stop e s = Inl (e, s)"

definition gets :: "('s \<Rightarrow> 'a) \<Rightarrow> ('s, 'a) km" where
  "gets f s = Inr (f s, s)"

definition upd :: "('s \<Rightarrow> 's) \<Rightarrow> ('s, unit) km" where
  "upd f s = Inr ((), f s)"

abbreviation panic :: "string \<Rightarrow> ('s, 'a) km" where
  "panic msg \<equiv> stop (Panic msg)"

fun foreach :: "'x list \<Rightarrow> ('x \<Rightarrow> ('s, unit) km) \<Rightarrow> ('s, unit) km" where
  "foreach [] f = ret ()"
| "foreach (x # xs) f = bnd (f x) (\<lambda>_. foreach xs f)"

subsection \<open>Reading the monad as predicates\<close>

text \<open>
  \<open>ok m s Q\<close>: from \<open>s\<close> the routine returns, and value and next state satisfy \<open>Q\<close> (total).
  \<open>safe m s Q\<close>: if it returns, value and next state satisfy \<open>Q\<close> (partial: it may stop).
\<close>

definition ok :: "('s, 'a) km \<Rightarrow> 's \<Rightarrow> ('a \<Rightarrow> 's \<Rightarrow> bool) \<Rightarrow> bool" where
  "ok m s Q \<longleftrightarrow> (case m s of Inl e \<Rightarrow> False | Inr (x, t) \<Rightarrow> Q x t)"

definition safe :: "('s, 'a) km \<Rightarrow> 's \<Rightarrow> ('a \<Rightarrow> 's \<Rightarrow> bool) \<Rightarrow> bool" where
  "safe m s Q \<longleftrightarrow> (case m s of Inl e \<Rightarrow> True | Inr (x, t) \<Rightarrow> Q x t)"

lemma ok_iff: "ok m s Q \<longleftrightarrow> (\<exists>x t. m s = Inr (x, t) \<and> Q x t)"
  by (auto simp: ok_def split: sum.splits)

lemma okE: "ok m s Q \<Longrightarrow> (\<And>x t. m s = Inr (x, t) \<Longrightarrow> Q x t \<Longrightarrow> thesis) \<Longrightarrow> thesis"
  by (auto simp: ok_iff)

lemma okI: "m s = Inr (x, t) \<Longrightarrow> Q x t \<Longrightarrow> ok m s Q"
  by (simp add: ok_def)

lemma safe_iff: "safe m s Q \<longleftrightarrow> (\<forall>x t. m s = Inr (x, t) \<longrightarrow> Q x t)"
  by (auto simp: safe_def split: sum.splits)

lemma ok_mono: "ok m s P \<Longrightarrow> (\<And>x t. P x t \<Longrightarrow> Q x t) \<Longrightarrow> ok m s Q"
  by (auto simp: ok_iff)

lemma safe_mono: "safe m s P \<Longrightarrow> (\<And>x t. P x t \<Longrightarrow> Q x t) \<Longrightarrow> safe m s Q"
  by (auto simp: safe_iff)

lemma ok_conj: "ok m s P \<Longrightarrow> safe m s Q \<Longrightarrow> ok m s (\<lambda>x t. P x t \<and> Q x t)"
  by (auto simp: ok_iff safe_iff)

lemma ok_ret [wp, simp]: "ok (ret x) s Q = Q x s"
  by (simp add: ok_def ret_def)

lemma ok_bnd [wp]: "ok (bnd m f) s Q = ok m s (\<lambda>x t. ok (f x) t Q)"
  by (auto simp: ok_def bnd_def split: sum.splits)

lemma ok_bndI: "ok m s P \<Longrightarrow> (\<And>x t. P x t \<Longrightarrow> ok (f x) t Q) \<Longrightarrow> ok (bnd m f) s Q"
  unfolding ok_bnd by (rule ok_mono)

lemma ok_gets [wp, simp]: "ok (gets f) s Q = Q (f s) s"
  by (simp add: ok_def gets_def)

lemma ok_upd [wp, simp]: "ok (upd f) s Q = Q () (f s)"
  by (simp add: ok_def upd_def)

lemma ok_stop [wp, simp]: "ok (stop e) s Q = False"
  by (simp add: ok_def stop_def)

lemma ok_if [wp]: "ok (if b then m else n) s Q = (if b then ok m s Q else ok n s Q)"
  by simp

lemma safe_ret [wp, simp]: "safe (ret x) s Q = Q x s"
  by (simp add: safe_def ret_def)

lemma safe_bnd [wp]: "safe (bnd m f) s Q = safe m s (\<lambda>x t. safe (f x) t Q)"
  by (auto simp: safe_def bnd_def split: sum.splits)

lemma safe_gets [wp, simp]: "safe (gets f) s Q = Q (f s) s"
  by (simp add: safe_def gets_def)

lemma safe_upd [wp, simp]: "safe (upd f) s Q = Q () (f s)"
  by (simp add: safe_def upd_def)

lemma safe_stop [wp, simp]: "safe (stop e) s Q = True"
  by (simp add: safe_def stop_def)

lemma safe_if [wp]: "safe (if b then m else n) s Q = (if b then safe m s Q else safe n s Q)"
  by simp

lemma bnd_Inr: "m s = Inr (x, t) \<Longrightarrow> bnd m f s = f x t"
  by (simp add: bnd_def)

lemma bnd_Inl: "m s = Inl e \<Longrightarrow> bnd m f s = Inl e"
  by (simp add: bnd_def)

lemma bnd_eq_Inr: "bnd m f s = Inr r \<longleftrightarrow> (\<exists>x t. m s = Inr (x, t) \<and> f x t = Inr r)"
  by (auto simp: bnd_def split: sum.splits)

lemma ret_apply [run]: "ret x s = Inr (x, s)"
  by (simp add: ret_def)

lemma gets_apply [run]: "gets f s = Inr (f s, s)"
  by (simp add: gets_def)

lemma upd_apply [run]: "upd f s = Inr ((), f s)"
  by (simp add: upd_def)

lemma stop_apply [run]: "stop e s = Inl (e, s)"
  by (simp add: stop_def)

lemma bnd_run [run]:
  "bnd (ret x) f s = f x s"
  "bnd (gets g) f s = f (g s) s"
  "bnd (upd h) k s = k () (h s)"
  "bnd (stop e) f s = Inl (e, s)"
  by (simp_all add: bnd_def run)

lemma bnd_assoc [run]: "bnd (bnd m f) g s = bnd m (\<lambda>x. bnd (f x) g) s"
  by (auto simp: bnd_def split: sum.splits)

text \<open>A loop over a list keeps an invariant indexed by the elements already processed.\<close>

lemma ok_foreach:
  assumes "I [] s"
    and "\<And>ys x zs t. xs = ys @ x # zs \<Longrightarrow> I ys t \<Longrightarrow> ok (f x) t (\<lambda>_ u. I (ys @ [x]) u)"
  shows "ok (foreach xs f) s (\<lambda>_ t. I xs t)"
proof -
  have "ok (foreach zs f) t (\<lambda>_ u. I xs u)" if "xs = ys @ zs" and "I ys t" for ys zs t
    using that
  proof (induction zs arbitrary: ys t)
    case Nil
    then show ?case by simp
  next
    case (Cons z zs)
    have "ok (f z) t (\<lambda>_ u. I (ys @ [z]) u)"
      using assms(2) [of ys z zs t] Cons.prems by simp
    then show ?case
      by (simp add: ok_bnd) (erule ok_mono, use Cons.IH [of "ys @ [z]"] Cons.prems in simp)
  qed
  from this [of "[]" xs s] assms(1) show ?thesis by simp
qed

lemma ok_for:
  assumes "I 0 s" and "\<And>k t. k < n \<Longrightarrow> I k t \<Longrightarrow> ok (f k) t (\<lambda>_ u. I (Suc k) u)"
  shows "ok (foreach [0..<n] f) s (\<lambda>_ t. I n t)"
proof -
  have "ok (foreach [0..<n] f) s (\<lambda>_ t. I (length [0..<n]) t)"
  proof (rule ok_foreach [where I = "\<lambda>ks t. I (length ks) t"])
    show "I (length []) s" using assms(1) by simp
    fix ys k zs t
    assume split: "[0..<n] = ys @ k # zs" and I: "I (length ys) t"
    have lt: "length ys < n" using arg_cong [OF split, of length] by simp
    have "[0..<n] ! length ys = k" unfolding split by simp
    with lt have "k = length ys" and "k < n" by simp_all
    with assms(2) [of k t] I show "ok (f k) t (\<lambda>_ u. I (length (ys @ [k])) u)" by simp
  qed
  then show ?thesis by simp
qed

lemma foreach_append: "foreach (xs @ ys) f = bnd (foreach xs f) (\<lambda>_. foreach ys f)"
  by (induction xs) (auto simp: fun_eq_iff bnd_def ret_def split: sum.splits)

section \<open>First index that satisfies a test\<close>

text \<open>
  The kernel's tables are arrays that are scanned from the front for the first entry that
  satisfies a test; \<open>find_idx\<close> is that scan.
\<close>

primrec find_idx :: "('a \<Rightarrow> bool) \<Rightarrow> 'a list \<Rightarrow> nat option" where
  "find_idx P [] = None"
| "find_idx P (x # xs) = (if P x then Some 0 else map_option Suc (find_idx P xs))"

lemma find_idx_None: "find_idx P xs = None \<longleftrightarrow> (\<forall>x \<in> set xs. \<not> P x)"
  by (induction xs) auto

lemma find_idx_SomeD:
  "find_idx P xs = Some i \<Longrightarrow> i < length xs \<and> P (xs ! i) \<and> (\<forall>j < i. \<not> P (xs ! j))"
proof (induction xs arbitrary: i)
  case Nil
  then show ?case by simp
next
  case (Cons x xs)
  show ?case
  proof (cases "P x")
    case True
    with Cons.prems show ?thesis by simp
  next
    case False
    with Cons.prems obtain k where k: "find_idx P xs = Some k" "i = Suc k" by auto
    with Cons.IH [OF k(1)] False show ?thesis
      by (auto simp: nth_Cons split: nat.splits)
  qed
qed

lemma find_idx_eqI:
  "i < length xs \<Longrightarrow> P (xs ! i) \<Longrightarrow> (\<And>j. j < i \<Longrightarrow> \<not> P (xs ! j)) \<Longrightarrow> find_idx P xs = Some i"
proof (cases "find_idx P xs")
  case None
  assume "i < length xs" "P (xs ! i)"
  with None show ?thesis by (auto simp: find_idx_None)
next
  case (Some k)
  assume *: "i < length xs" "P (xs ! i)" "\<And>j. j < i \<Longrightarrow> \<not> P (xs ! j)"
  from find_idx_SomeD [OF Some] * have "k = i"
    by (meson linorder_neqE_nat)
  with Some show ?thesis by simp
qed

section \<open>Lists and words\<close>

lemma nth_update_if: "xs[i := x] ! j = (if i = j \<and> i < length xs then x else xs ! j)"
  by (cases "i < length xs") (auto simp: nth_list_update list_update_beyond)

lemma unat_of_nat32: "n < 2 ^ 32 \<Longrightarrow> unat (of_nat n :: u32) = n"
  by (simp add: unat_of_nat)

lemma of_nat_u32_inj:
  assumes "(of_nat j :: u32) = of_nat k" and "j < 2 ^ 32" and "k < 2 ^ 32"
  shows "j = k"
  using arg_cong [OF assms(1), of unat] unfolding unat_of_nat32 [OF assms(2)] unat_of_nat32 [OF assms(3)] .

lemma bytes_word16: "(ucast (ucast v :: u8) :: u16) OR push_bit 8 (ucast (ucast (drop_bit 8 v) :: u8)) = v"
proof (rule bit_word_eqI)
  fix n assume "n < LENGTH(16)"
  then consider "n < 8" | "8 \<le> n" "n < 16" by fastforce
  then show "bit ((ucast (ucast v :: u8) :: u16) OR push_bit 8 (ucast (ucast (drop_bit 8 v) :: u8))) n = bit v n"
    by cases (simp_all add: bit_simps less_diff_conv2)
qed

lemma bytes_word32:
  "(ucast (ucast v :: u8) :: u32) OR push_bit 8 (ucast (ucast (drop_bit 8 v) :: u8))
     OR push_bit 16 (ucast (ucast (drop_bit 16 v) :: u8))
     OR push_bit 24 (ucast (ucast (drop_bit 24 v) :: u8)) = v" (is "?l = v")
proof (rule bit_word_eqI)
  fix n assume "n < LENGTH(32)"
  then consider "n < 8" | "8 \<le> n" "n < 16" | "16 \<le> n" "n < 24" | "24 \<le> n" "n < 32" by fastforce
  then show "bit ?l n = bit v n"
    by cases (simp_all add: bit_simps less_diff_conv2)
qed

end
