(* ===== verification/Spinlock.thy ===== *)
theory Spinlock
  imports Prelude
begin

text \<open>
  Spin locks and interrupt masking (\<open>spinlock.c\<close>, \<open>spinlock.h\<close>, the \<open>ncli\<close>/\<open>intena\<close> part of
  \<open>struct cpu\<close> in \<open>proc.h\<close>). The first half is the code of one CPU; the second half interleaves
  the atomic steps of all CPUs and shows mutual exclusion. The call stacks that the lock records
  for debugging (\<open>pcs\<close>) are left out.
\<close>

section \<open>The code of one CPU\<close>

text \<open>
  \<open>iflag\<close> is the interrupt flag of the CPU's \<open>eflags\<close>; \<open>cid\<close> identifies the CPU (the pointer
  \<open>cpu\<close>); \<open>ncli\<close> and \<open>intena\<close> are the fields of \<open>struct cpu\<close>. \<open>ncli\<close> is an \<open>int\<close> of C; its arithmetic is that of
  the integers, which is the same as long as fewer than \<open>2^31\<close> calls of \<open>pushcli\<close> are open.
\<close>

record cpu =
  cid :: nat
  iflag :: bool
  ncli :: int
  intena :: bool

record spinlock =
  locked :: u32
  lkname :: string
  lkcpu :: "nat option"

text \<open>The locks of the kernel, by the object they protect.\<close>

datatype lockid =
    Lk_ptable | Lk_bcache | Lk_log | Lk_icache | Lk_ftable | Lk_kmem | Lk_ide | Lk_cons
  | Lk_ticks | Lk_pipe u32

record mstate =
  mcpu :: cpu
  mlocks :: "lockid \<Rightarrow> spinlock"

definition initlock :: "lockid \<Rightarrow> string \<Rightarrow> ('a mstate_scheme, unit) km" where
  "initlock lk name = upd (\<lambda>s. s\<lparr>mlocks := (mlocks s)(lk :=
     (mlocks s lk)\<lparr>lkname := name, locked := 0, lkcpu := None\<rparr>)\<rparr>)"

definition pushcli :: "('a mstate_scheme, unit) km" where
  "pushcli =
     bnd (gets (\<lambda>s. iflag (mcpu s))) (\<lambda>eflags.
     bnd (upd (\<lambda>s. s\<lparr>mcpu := (mcpu s)\<lparr>iflag := False\<rparr>\<rparr>)) (\<lambda>_.
     bnd (gets (\<lambda>s. ncli (mcpu s))) (\<lambda>n.
     bnd (upd (\<lambda>s. s\<lparr>mcpu := (mcpu s)\<lparr>ncli := n + 1\<rparr>\<rparr>)) (\<lambda>_.
     if n = 0 then upd (\<lambda>s. s\<lparr>mcpu := (mcpu s)\<lparr>intena := eflags\<rparr>\<rparr>) else ret ()))))"

definition popcli :: "('a mstate_scheme, unit) km" where
  "popcli =
     bnd (gets (\<lambda>s. iflag (mcpu s))) (\<lambda>eflags.
     if eflags then panic ''popcli - interruptible''
     else
       bnd (upd (\<lambda>s. s\<lparr>mcpu := (mcpu s)\<lparr>ncli := ncli (mcpu s) - 1\<rparr>\<rparr>)) (\<lambda>_.
       bnd (gets (\<lambda>s. mcpu s)) (\<lambda>c.
       if ncli c < 0 then panic ''popcli''
       else if ncli c = 0 \<and> intena c then upd (\<lambda>s. s\<lparr>mcpu := (mcpu s)\<lparr>iflag := True\<rparr>\<rparr>)
       else ret ())))"

definition holding :: "lockid \<Rightarrow> ('a mstate_scheme, bool) km" where
  "holding lk = gets (\<lambda>s. locked (mlocks s lk) \<noteq> 0 \<and> lkcpu (mlocks s lk) = Some (cid (mcpu s)))"

text \<open>The atomic exchange instruction on the lock word; it returns the old value.\<close>

definition xchg :: "lockid \<Rightarrow> u32 \<Rightarrow> ('a mstate_scheme, u32) km" where
  "xchg lk v =
     bnd (gets (\<lambda>s. locked (mlocks s lk))) (\<lambda>old.
     bnd (upd (\<lambda>s. s\<lparr>mlocks := (mlocks s)(lk := (mlocks s lk)\<lparr>locked := v\<rparr>)\<rparr>)) (\<lambda>_.
     ret old))"

text \<open>
  \<open>acquire\<close> in its three atomic parts: mask interrupts and check for a self-deadlock, try the
  exchange, record the owner. With the other CPUs standing still, a lock that is taken stays
  taken, so the loop on \<open>xchg\<close> either ends at its first test or spins.
\<close>

definition acquire_enter :: "lockid \<Rightarrow> ('a mstate_scheme, unit) km" where
  "acquire_enter lk =
     bnd pushcli (\<lambda>_.
     bnd (holding lk) (\<lambda>h. if h then panic ''acquire'' else ret ()))"

definition acquire_record :: "lockid \<Rightarrow> ('a mstate_scheme, unit) km" where
  "acquire_record lk = upd (\<lambda>s. s\<lparr>mlocks := (mlocks s)(lk :=
     (mlocks s lk)\<lparr>lkcpu := Some (cid (mcpu s))\<rparr>)\<rparr>)"

definition acquire :: "lockid \<Rightarrow> ('a mstate_scheme, unit) km" where
  "acquire lk =
     bnd (acquire_enter lk) (\<lambda>_.
     bnd (xchg lk 1) (\<lambda>old.
     if old \<noteq> 0 then stop Spins else acquire_record lk))"

text \<open>\<open>release\<close> in its parts: check and forget the owner, exchange, unmask.\<close>

definition release_enter :: "lockid \<Rightarrow> ('a mstate_scheme, unit) km" where
  "release_enter lk =
     bnd (holding lk) (\<lambda>h.
     if \<not> h then panic ''release''
     else upd (\<lambda>s. s\<lparr>mlocks := (mlocks s)(lk := (mlocks s lk)\<lparr>lkcpu := None\<rparr>)\<rparr>))"

definition release :: "lockid \<Rightarrow> ('a mstate_scheme, unit) km" where
  "release lk =
     bnd (release_enter lk) (\<lambda>_.
     bnd (xchg lk 0) (\<lambda>_.
     popcli))"

subsection \<open>Interrupt nesting\<close>

text \<open>
  What the counter and the flag always satisfy: the counter is not negative, and a positive counter means that
  interrupts are off.
\<close>

definition cli_inv :: "cpu \<Rightarrow> bool" where
  "cli_inv c \<longleftrightarrow> 0 \<le> ncli c \<and> (0 < ncli c \<longrightarrow> \<not> iflag c)"

text \<open>
  The states that a critical section leaves exactly as it found them. At depth zero \<open>intena\<close> must then have the value
  of the flag, as it does after any earlier critical section with the same flag; after a trap or the scheduler's
  \<open>sti\<close> it is stale until the next \<open>pushcli\<close> overwrites it, and the property on nesting below covers that case too.
\<close>

definition cli_ok :: "cpu \<Rightarrow> bool" where
  "cli_ok c \<longleftrightarrow> 0 \<le> ncli c \<and> (0 < ncli c \<longrightarrow> \<not> iflag c) \<and> (ncli c = 0 \<longrightarrow> intena c = iflag c)"

definition cli_push :: "cpu \<Rightarrow> cpu" where
  "cli_push c = c\<lparr>iflag := False, ncli := ncli c + 1, intena := if ncli c = 0 then iflag c else intena c\<rparr>"

lemma pushcli_run [run]: "pushcli s = Inr ((), s\<lparr>mcpu := cli_push (mcpu s)\<rparr>)"
  by (simp add: pushcli_def cli_push_def run)

lemma cli_ok_inv: "cli_ok c \<longleftrightarrow> cli_inv c \<and> (ncli c = 0 \<longrightarrow> intena c = iflag c)"
  by (auto simp: cli_ok_def cli_inv_def)

lemma popcli_push:
  assumes "cli_ok c"
  shows "popcli (s\<lparr>mcpu := cli_push c\<rparr>) = Inr ((), s\<lparr>mcpu := c\<rparr>)"
  using assms by (simp add: popcli_def cli_push_def cli_ok_def run)

fun iter_km :: "nat \<Rightarrow> ('s, unit) km \<Rightarrow> ('s, unit) km" where
  "iter_km 0 m = ret ()"
| "iter_km (Suc n) m = bnd m (\<lambda>_. iter_km n m)"

lemma cli_ok_push [simp]: "cli_ok c \<Longrightarrow> cli_ok (cli_push c)"
  by (auto simp: cli_ok_def cli_push_def)

lemma cid_push [simp]: "cid (cli_push c) = cid c"
  by (simp add: cli_push_def)

lemma iter_pushcli: "iter_km n pushcli s = Inr ((), s\<lparr>mcpu := (cli_push ^^ n) (mcpu s)\<rparr>)"
  by (induction n arbitrary: s) (simp_all add: run bnd_def funpow_swap1)

lemma cli_ok_iter_push: "cli_ok c \<Longrightarrow> cli_ok ((cli_push ^^ n) c)"
  by (induction n) auto

lemma iter_popcli:
  assumes "cli_ok c"
  shows "iter_km n popcli (s\<lparr>mcpu := (cli_push ^^ n) c\<rparr>) = Inr ((), s\<lparr>mcpu := c\<rparr>)"
proof (induction n)
  case 0
  show ?case by (simp add: run)
next
  case (Suc n)
  have "popcli (s\<lparr>mcpu := cli_push ((cli_push ^^ n) c)\<rparr>) = Inr ((), s\<lparr>mcpu := (cli_push ^^ n) c\<rparr>)"
    by (rule popcli_push) (rule cli_ok_iter_push [OF assms])
  with Suc show ?case by (simp add: bnd_def)
qed

text \<open>The first \<open>pushcli\<close> at depth zero saves the flag in \<open>intena\<close>, whatever was there before.\<close>

definition cli_saved :: "cpu \<Rightarrow> cpu" where
  "cli_saved c = (if ncli c = 0 then c\<lparr>intena := iflag c\<rparr> else c)"

lemma cli_push_saved: "cli_push (cli_saved c) = cli_push c"
  by (simp add: cli_push_def cli_saved_def)

lemma cli_ok_saved: "cli_inv c \<Longrightarrow> cli_ok (cli_saved c)"
  by (auto simp: cli_saved_def cli_ok_inv cli_inv_def)

lemma iter_push_saved: "0 < n \<Longrightarrow> (cli_push ^^ n) (cli_saved c) = (cli_push ^^ n) c"
  by (cases n) (simp_all add: funpow_swap1 cli_push_saved)

text \<open>A free lock, as the code of this CPU sees it.\<close>

definition lk_free :: "lockid \<Rightarrow> 'a mstate_scheme \<Rightarrow> bool" where
  "lk_free lk s \<longleftrightarrow> locked (mlocks s lk) = 0 \<and> lkcpu (mlocks s lk) = None"

definition lk_take :: "lockid \<Rightarrow> 'a mstate_scheme \<Rightarrow> 'a mstate_scheme" where
  "lk_take lk s = s\<lparr>mcpu := cli_push (mcpu s),
     mlocks := (mlocks s)(lk := (mlocks s lk)\<lparr>locked := 1, lkcpu := Some (cid (mcpu s))\<rparr>)\<rparr>"

lemma acquire_run:
  "lk_free lk s \<Longrightarrow> acquire lk s = Inr ((), lk_take lk s)"
  by (simp add: acquire_def acquire_enter_def acquire_record_def holding_def xchg_def lk_free_def
      lk_take_def run bnd_def)


text \<open>
  A critical section gives the CPU and the lock back as they were: a body that commutes with
  \<open>lk_take\<close>, as every body that touches neither CPU nor lock does, may be read without its lock.
\<close>

lemma release_take:
  assumes "lk_free lk t" and "cli_ok (mcpu t)"
  shows "release lk (lk_take lk t) = Inr ((), t)"
proof -
  have locks: "(mlocks t)(lk := (mlocks t lk)\<lparr>lkcpu := None, locked := 0\<rparr>) = mlocks t"
    using assms(1) by (auto simp: lk_free_def fun_eq_iff)
  have "release lk (lk_take lk t) = popcli (t\<lparr>mcpu := cli_push (mcpu t),
      mlocks := (mlocks t)(lk := (mlocks t lk)\<lparr>lkcpu := None, locked := 0\<rparr>)\<rparr>)"
    by (simp add: release_def release_enter_def holding_def xchg_def lk_take_def run bnd_def)
  also have "\<dots> = popcli (t\<lparr>mcpu := cli_push (mcpu t)\<rparr>)"
    by (simp add: locks)
  also have "\<dots> = Inr ((), t)"
    using popcli_push [OF assms(2), of t] by simp
  finally show ?thesis .
qed

lemma ok_acquire: "lk_free lk s \<Longrightarrow> ok (acquire lk) s Q = Q () (lk_take lk s)"
  by (simp add: ok_def acquire_run)

lemma ok_release:
  "lk_free lk t \<Longrightarrow> cli_ok (mcpu t) \<Longrightarrow> ok (release lk) (lk_take lk t) Q = Q () t"
  by (simp add: ok_def release_take)

text \<open>Between kernel routines no lock is held and interrupts are accounted for.\<close>

definition no_locks :: "'a mstate_scheme \<Rightarrow> bool" where
  "no_locks s \<longleftrightarrow> cli_ok (mcpu s) \<and> (\<forall>lk. lk_free lk s)"

lemma no_locks_free [simp]: "no_locks s \<Longrightarrow> lk_free lk s"
  by (simp add: no_locks_def)

lemma no_locks_cli [simp]: "no_locks s \<Longrightarrow> cli_ok (mcpu s)"
  by (simp add: no_locks_def)

lemma no_locks_cong: "mcpu t = mcpu s \<Longrightarrow> mlocks t = mlocks s \<Longrightarrow> no_locks t = no_locks s"
  by (simp add: no_locks_def lk_free_def)

lemma lk_free_cong: "mlocks t lk = mlocks s lk \<Longrightarrow> lk_free lk t = lk_free lk s"
  by (simp add: lk_free_def)

lemma lk_take_sel [simp]:
  "mcpu (lk_take lk s) = cli_push (mcpu s)"
  "lk' \<noteq> lk \<Longrightarrow> mlocks (lk_take lk s) lk' = mlocks s lk'"
  by (simp_all add: lk_take_def)

lemma lk_free_take [simp]: "lk' \<noteq> lk \<Longrightarrow> lk_free lk' (lk_take lk s) = lk_free lk' s"
  by (simp add: lk_free_def)

section \<open>All CPUs: mutual exclusion\<close>

text \<open>
  Every CPU is at a point of the locking code or outside of it. \<open>sheld i\<close> is the set of locks
  for which CPU \<open>i\<close> has returned from \<open>acquire\<close> and not yet called \<open>release\<close>.
\<close>

datatype pc = Run | Spin lockid | Got lockid | Rel lockid | Pop

record smp =
  scpu :: "nat \<Rightarrow> cpu"
  slock :: "lockid \<Rightarrow> spinlock"
  spc :: "nat \<Rightarrow> pc"
  sheld :: "nat \<Rightarrow> lockid set"

definition sview :: "smp \<Rightarrow> nat \<Rightarrow> mstate" where
  "sview S i = \<lparr>mcpu = scpu S i, mlocks = slock S\<rparr>"

definition sput :: "smp \<Rightarrow> nat \<Rightarrow> mstate \<Rightarrow> pc \<Rightarrow> smp" where
  "sput S i t p = S\<lparr>scpu := (scpu S)(i := mcpu t), slock := mlocks t, spc := (spc S)(i := p)\<rparr>"

inductive smp_step :: "smp \<Rightarrow> smp \<Rightarrow> bool" where
  start: "spc S i = Run \<Longrightarrow> acquire_enter lk (sview S i) = Inr ((), t) \<Longrightarrow>
    smp_step S (sput S i t (Spin lk))"
| spin: "spc S i = Spin lk \<Longrightarrow> xchg lk 1 (sview S i) = Inr (old, t) \<Longrightarrow> old \<noteq> 0 \<Longrightarrow>
    smp_step S (sput S i t (Spin lk))"
| take: "spc S i = Spin lk \<Longrightarrow> xchg lk 1 (sview S i) = Inr (old, t) \<Longrightarrow> old = 0 \<Longrightarrow>
    smp_step S (sput S i t (Got lk))"
| record_owner: "spc S i = Got lk \<Longrightarrow> acquire_record lk (sview S i) = Inr ((), t) \<Longrightarrow>
    smp_step S ((sput S i t Run)\<lparr>sheld := (sheld S)(i := insert lk (sheld S i))\<rparr>)"
| forget_owner: "spc S i = Run \<Longrightarrow> release_enter lk (sview S i) = Inr ((), t) \<Longrightarrow>
    smp_step S ((sput S i t (Rel lk))\<lparr>sheld := (sheld S)(i := sheld S i - {lk})\<rparr>)"
| unlock: "spc S i = Rel lk \<Longrightarrow> xchg lk 0 (sview S i) = Inr (old, t) \<Longrightarrow>
    smp_step S (sput S i t Pop)"
| unmask: "spc S i = Pop \<Longrightarrow> popcli (sview S i) = Inr ((), t) \<Longrightarrow>
    smp_step S (sput S i t Run)"

definition smp_init :: "smp \<Rightarrow> bool" where
  "smp_init S \<longleftrightarrow> (\<forall>i. cid (scpu S i) = i \<and> spc S i = Run \<and> sheld S i = {})
     \<and> (\<forall>lk. locked (slock S lk) = 0 \<and> lkcpu (slock S lk) = None)"

inductive smp_reach :: "smp \<Rightarrow> bool" where
  smp_start: "smp_init S \<Longrightarrow> smp_reach S"
| smp_next: "smp_reach S \<Longrightarrow> smp_step S T \<Longrightarrow> smp_reach T"

text \<open>
  CPU \<open>i\<close> owns a lock from the exchange that took it to the exchange that gives it back.
\<close>

definition owner :: "smp \<Rightarrow> nat \<Rightarrow> lockid \<Rightarrow> bool" where
  "owner S i lk \<longleftrightarrow> lk \<in> sheld S i \<or> spc S i = Got lk \<or> spc S i = Rel lk"

definition lock_inv :: "smp \<Rightarrow> lockid \<Rightarrow> bool" where
  "lock_inv S lk \<longleftrightarrow>
     (\<forall>i j. owner S i lk \<longrightarrow> owner S j lk \<longrightarrow> i = j) \<and>
     (\<forall>i. owner S i lk \<longrightarrow> locked (slock S lk) \<noteq> 0) \<and>
     (\<forall>i. lk \<in> sheld S i \<longleftrightarrow> lkcpu (slock S lk) = Some i) \<and>
     (\<forall>i. spc S i = Got lk \<or> spc S i = Rel lk \<longrightarrow> lk \<notin> sheld S i)"

definition smp_inv :: "smp \<Rightarrow> bool" where
  "smp_inv S \<longleftrightarrow> (\<forall>i. cid (scpu S i) = i) \<and> (\<forall>lk. lock_inv S lk)"

lemma smp_init_inv: "smp_init S \<Longrightarrow> smp_inv S"
  by (auto simp: smp_init_def smp_inv_def lock_inv_def owner_def)

lemmas lock_code =
  acquire_enter_def acquire_record_def release_enter_def holding_def xchg_def popcli_def
  sview_def sput_def run bnd_def

text \<open>A step that leaves a lock alone keeps its invariant.\<close>

lemma lock_inv_frame:
  assumes "lock_inv S k" and "slock T k = slock S k"
    and "\<And>i. k \<in> sheld T i \<longleftrightarrow> k \<in> sheld S i"
    and "\<And>i. spc T i = Got k \<longleftrightarrow> spc S i = Got k" and "\<And>i. spc T i = Rel k \<longleftrightarrow> spc S i = Rel k"
  shows "lock_inv T k"
  using assms(1) unfolding lock_inv_def owner_def assms(2-5) .

lemma lock_invI:
  assumes "\<And>i j. owner T i lk \<Longrightarrow> owner T j lk \<Longrightarrow> i = j" and "\<And>i. owner T i lk \<Longrightarrow> locked (slock T lk) \<noteq> 0"
    and "\<And>i. lk \<in> sheld T i \<longleftrightarrow> lkcpu (slock T lk) = Some i"
    and "\<And>i. spc T i = Got lk \<or> spc T i = Rel lk \<Longrightarrow> lk \<notin> sheld T i"
  shows "lock_inv T lk"
  using assms unfolding lock_inv_def by blast

lemma lock_invD:
  assumes "lock_inv S lk"
  shows "owner S i lk \<Longrightarrow> owner S j lk \<Longrightarrow> i = j" and "owner S i lk \<Longrightarrow> locked (slock S lk) \<noteq> 0"
    and "lk \<in> sheld S i \<longleftrightarrow> lkcpu (slock S lk) = Some i"
    and "spc S i = Got lk \<or> spc S i = Rel lk \<Longrightarrow> lk \<notin> sheld S i"
  using assms unfolding lock_inv_def by blast+

lemma owner_iff: "owner S i lk \<longleftrightarrow> lk \<in> sheld S i \<or> spc S i = Got lk \<or> spc S i = Rel lk"
  by (rule owner_def)

lemma smp_invI:
  assumes "smp_inv S" and "\<And>j. cid (scpu T j) = cid (scpu S j)" and "lock_inv T lk"
    and "\<And>k. k \<noteq> lk \<Longrightarrow> slock T k = slock S k \<and> (\<forall>i. (k \<in> sheld T i \<longleftrightarrow> k \<in> sheld S i) \<and>
      (spc T i = Got k \<longleftrightarrow> spc S i = Got k) \<and> (spc T i = Rel k \<longleftrightarrow> spc S i = Rel k))"
  shows "smp_inv T"
proof -
  have "lock_inv T k" for k
  proof (cases "k = lk")
    case False
    with assms(1) assms(4) [OF False] show ?thesis
      by (intro lock_inv_frame [of S k T]) (simp_all add: smp_inv_def)
  qed (simp add: assms(3))
  with assms(1,2) show ?thesis by (simp add: smp_inv_def)
qed

lemma smp_invD: "smp_inv S \<Longrightarrow> lock_inv S lk" "smp_inv S \<Longrightarrow> cid (scpu S i) = i"
  by (simp_all add: smp_inv_def)

text \<open>What each atomic part changes, seen from all CPUs.\<close>

lemma sview_sel [simp]: "mcpu (sview S i) = scpu S i" "mlocks (sview S i) = slock S"
  by (simp_all add: sview_def)

lemma sput_sel [simp]:
  "scpu (sput S i t p) = (scpu S)(i := mcpu t)" "slock (sput S i t p) = mlocks t"
  "spc (sput S i t p) = (spc S)(i := p)" "sheld (sput S i t p) = sheld S"
  by (simp_all add: sput_def)

lemma acquire_enter_effect:
  "acquire_enter lk (sview S i) = Inr ((), t) \<Longrightarrow>
     mcpu t = cli_push (scpu S i) \<and> mlocks t = slock S"
  by (auto simp: acquire_enter_def holding_def run bnd_def split: if_splits)

lemma xchg_effect:
  "xchg lk v (sview S i) = Inr (old, t) \<Longrightarrow> mcpu t = scpu S i \<and> old = locked (slock S lk) \<and>
     mlocks t = (slock S)(lk := (slock S lk)\<lparr>locked := v\<rparr>)"
  by (auto simp: xchg_def run)

lemma acquire_record_effect:
  "acquire_record lk (sview S i) = Inr ((), t) \<Longrightarrow> mcpu t = scpu S i \<and>
     mlocks t = (slock S)(lk := (slock S lk)\<lparr>lkcpu := Some (cid (scpu S i))\<rparr>)"
  by (auto simp: acquire_record_def run)

lemma release_enter_effect:
  "release_enter lk (sview S i) = Inr ((), t) \<Longrightarrow> mcpu t = scpu S i \<and>
     locked (slock S lk) \<noteq> 0 \<and> lkcpu (slock S lk) = Some (cid (scpu S i)) \<and>
     mlocks t = (slock S)(lk := (slock S lk)\<lparr>lkcpu := None\<rparr>)"
  by (auto simp: release_enter_def holding_def run bnd_def split: if_splits)

lemma popcli_effect:
  "popcli (sview S i) = Inr ((), t) \<Longrightarrow> cid (mcpu t) = cid (scpu S i) \<and> mlocks t = slock S"
  by (auto simp: popcli_def run bnd_def split: if_splits)

lemma smp_inv_start:
  assumes "spc S i = Run" and "acquire_enter lk (sview S i) = Inr ((), t)" and inv: "smp_inv S"
  shows "smp_inv (sput S i t (Spin lk))" (is "smp_inv ?T")
proof (rule smp_invI [OF inv, where lk = lk])
  note e = acquire_enter_effect [OF assms(2)] and c = smp_invD(2) [OF inv, of i]
  show "cid (scpu ?T j) = cid (scpu S j)" for j using e by simp
  show "lock_inv ?T lk"
    using smp_invD(1) [OF inv, of lk] by (rule lock_inv_frame) (use assms(1) e in auto)
qed (use acquire_enter_effect [OF assms(2)] assms(1) in auto)

lemma smp_inv_spin:
  assumes "spc S i = Spin lk" and "xchg lk 1 (sview S i) = Inr (old, t)" and "old \<noteq> 0" and inv: "smp_inv S"
  shows "smp_inv (sput S i t (Spin lk))" (is "smp_inv ?T")
proof (rule smp_invI [OF inv, where lk = lk])
  note e = xchg_effect [OF assms(2)] and c = smp_invD(2) [OF inv, of i]
  show "cid (scpu ?T j) = cid (scpu S j)" for j using e by simp
  have o: "owner ?T j lk = owner S j lk" for j using assms(1) by (simp add: owner_iff)
  note d = lock_invD [OF smp_invD(1) [OF inv, of lk]]
  show "lock_inv ?T lk"
  proof (rule lock_invI)
    show "owner ?T j lk \<Longrightarrow> owner ?T k lk \<Longrightarrow> j = k" for j k unfolding o by (rule d(1))
    show "lk \<in> sheld ?T j \<longleftrightarrow> lkcpu (slock ?T lk) = Some j" for j using d(3) e by simp
  qed (use e d(4) assms(1) in \<open>auto split: if_splits\<close>)
qed (use xchg_effect [OF assms(2)] assms(1) in auto)

lemma smp_inv_take:
  assumes "spc S i = Spin lk" and "xchg lk 1 (sview S i) = Inr (old, t)" and "old = 0" and inv: "smp_inv S"
  shows "smp_inv (sput S i t (Got lk))" (is "smp_inv ?T")
proof (rule smp_invI [OF inv, where lk = lk])
  note e = xchg_effect [OF assms(2)] and c = smp_invD(2) [OF inv, of i]
  show "cid (scpu ?T j) = cid (scpu S j)" for j using e by simp
  note d = lock_invD [OF smp_invD(1) [OF inv, of lk]]
  have n: "\<not> owner S j lk" for j using d(2) e assms(3) by metis
  then have o: "owner ?T j lk \<longleftrightarrow> j = i" for j by (simp add: owner_iff)
  show "lock_inv ?T lk"
  proof (rule lock_invI)
    show "lk \<in> sheld ?T j \<longleftrightarrow> lkcpu (slock ?T lk) = Some j" for j using d(3) e by simp
    show "lk \<notin> sheld ?T j" for j using n [of j] by (simp add: owner_iff)
  qed (use e in \<open>simp_all add: o\<close>)
qed (use xchg_effect [OF assms(2)] assms(1) in auto)

lemma smp_inv_record_owner:
  assumes "spc S i = Got lk" and "acquire_record lk (sview S i) = Inr ((), t)" and inv: "smp_inv S"
  shows "smp_inv ((sput S i t Run)\<lparr>sheld := (sheld S)(i := insert lk (sheld S i))\<rparr>)" (is "smp_inv ?T")
proof (rule smp_invI [OF inv, where lk = lk])
  note e = acquire_record_effect [OF assms(2)] and c = smp_invD(2) [OF inv, of i]
  show "cid (scpu ?T j) = cid (scpu S j)" for j using e by simp
  note d = lock_invD [OF smp_invD(1) [OF inv, of lk]]
  have i: "owner S i lk" using assms(1) by (simp add: owner_iff)
  have n: "lk \<notin> sheld S j" "j \<noteq> i \<Longrightarrow> spc S j \<noteq> Got lk \<and> spc S j \<noteq> Rel lk" for j
    using d(1) [OF i, of j] d(4) [of j] assms(1) by (auto simp: owner_iff)
  have o: "owner ?T j lk \<longleftrightarrow> j = i" for j using n by (simp add: owner_iff)
  show "lock_inv ?T lk"
  proof (rule lock_invI)
    show "lk \<in> sheld ?T j \<longleftrightarrow> lkcpu (slock ?T lk) = Some j" for j using n e c by simp
    show "locked (slock ?T lk) \<noteq> 0" using d(2) [OF i] e by simp
  qed (use n in \<open>auto simp: o\<close>)
qed (use acquire_record_effect [OF assms(2)] assms(1) in auto)

lemma smp_inv_forget_owner:
  assumes "spc S i = Run" and "release_enter lk (sview S i) = Inr ((), t)" and inv: "smp_inv S"
  shows "smp_inv ((sput S i t (Rel lk))\<lparr>sheld := (sheld S)(i := sheld S i - {lk})\<rparr>)" (is "smp_inv ?T")
proof (rule smp_invI [OF inv, where lk = lk])
  note e = release_enter_effect [OF assms(2)] and c = smp_invD(2) [OF inv, of i]
  show "cid (scpu ?T j) = cid (scpu S j)" for j using e by simp
  note d = lock_invD [OF smp_invD(1) [OF inv, of lk]]
  have i: "lk \<in> sheld S i" using d(3) e c by simp
  then have oi: "owner S i lk" by (simp add: owner_iff)
  have n: "lk \<notin> sheld S j \<and> spc S j \<noteq> Got lk \<and> spc S j \<noteq> Rel lk" if "j \<noteq> i" for j
    using d(1) [OF oi, of j] that by (auto simp: owner_iff)
  have o: "owner ?T j lk \<longleftrightarrow> j = i" for j using n by (simp add: owner_iff)
  show "lock_inv ?T lk"
  proof (rule lock_invI)
    show "lk \<in> sheld ?T j \<longleftrightarrow> lkcpu (slock ?T lk) = Some j" for j using n e by simp
    show "locked (slock ?T lk) \<noteq> 0" using d(2) [OF oi] e by simp
  qed (use n in \<open>auto simp: o split: if_splits\<close>)
qed (use release_enter_effect [OF assms(2)] assms(1) in auto)

lemma smp_inv_unlock:
  assumes "spc S i = Rel lk" and "xchg lk 0 (sview S i) = Inr (old, t)" and inv: "smp_inv S"
  shows "smp_inv (sput S i t Pop)" (is "smp_inv ?T")
proof (rule smp_invI [OF inv, where lk = lk])
  note e = xchg_effect [OF assms(2)] and c = smp_invD(2) [OF inv, of i]
  show "cid (scpu ?T j) = cid (scpu S j)" for j using e by simp
  note d = lock_invD [OF smp_invD(1) [OF inv, of lk]]
  have i: "owner S i lk" using assms(1) by (simp add: owner_iff)
  have n: "lk \<notin> sheld S j" "j \<noteq> i \<Longrightarrow> spc S j \<noteq> Got lk \<and> spc S j \<noteq> Rel lk" for j
    using d(1) [OF i, of j] d(4) [of j] assms(1) by (auto simp: owner_iff)
  have o: "\<not> owner ?T j lk" for j using n by (simp add: owner_iff)
  show "lock_inv ?T lk"
  proof (rule lock_invI)
    show "lk \<in> sheld ?T j \<longleftrightarrow> lkcpu (slock ?T lk) = Some j" for j using d(3) e by simp
  qed (use n o in auto)
qed (use xchg_effect [OF assms(2)] assms(1) in auto)

lemma smp_inv_unmask:
  assumes "spc S i = Pop" and "popcli (sview S i) = Inr ((), t)" and inv: "smp_inv S"
  shows "smp_inv (sput S i t Run)" (is "smp_inv ?T")
proof (rule smp_invI [OF inv, where lk = lk])
  note e = popcli_effect [OF assms(2)] and c = smp_invD(2) [OF inv, of i]
  show "cid (scpu ?T j) = cid (scpu S j)" for j using e by simp
  show "lock_inv ?T lk"
    using smp_invD(1) [OF inv, of lk] by (rule lock_inv_frame) (use assms(1) e in auto)
qed (use popcli_effect [OF assms(2)] assms(1) in auto)

lemmas smp_inv_steps =
  smp_inv_start smp_inv_spin smp_inv_take smp_inv_record_owner smp_inv_forget_owner smp_inv_unlock
  smp_inv_unmask

lemma smp_step_inv: "smp_step S T \<Longrightarrow> smp_inv S \<Longrightarrow> smp_inv T"
  by (induction rule: smp_step.induct) (blast intro: smp_inv_steps)+

lemma smp_reach_inv: "smp_reach S \<Longrightarrow> smp_inv S"
  by (induction rule: smp_reach.induct) (auto intro: smp_init_inv smp_step_inv)

section \<open>Properties\<close>

text \<open>
  C2. Mutual exclusion. In every interleaving of the locking code of all CPUs, no lock is held
  by two CPUs at once.
\<close>

theorem smp_mutual_exclusion:
  assumes "smp_reach S" and "i \<noteq> j"
  shows "sheld S i \<inter> sheld S j = {}"
  using smp_reach_inv [OF assms(1)] assms(2) by (auto simp: smp_inv_def lock_inv_def owner_def)

text \<open>
  C31. \<open>holding\<close> is exact. In every reachable state of all CPUs, \<open>holding lk\<close> run on CPU \<open>i\<close>
  answers whether CPU \<open>i\<close> is between its \<open>acquire\<close> and its \<open>release\<close> of that lock, whatever the
  other CPUs are doing to it.
\<close>

theorem smp_holding:
  assumes "smp_reach S"
  shows "holding lk (sview S i) = Inr (lk \<in> sheld S i, sview S i)"
  using smp_reach_inv [OF assms]
  by (auto simp: smp_inv_def lock_inv_def owner_def holding_def sview_def run)

text \<open>
  C32. Interrupt masking nests. From every state with a counter that is not negative, and with interrupts off when it
  is positive, \<open>n\<close> calls of \<open>pushcli\<close> leave interrupts off, and \<open>n\<close> calls of \<open>popcli\<close> after them do not panic and give
  back the counter and the interrupt flag as they were before the first. \<open>intena\<close> may hold anything at depth zero; it
  then has the saved flag at the end. The counter stays below \<open>2^31\<close>, so it does not overflow.
\<close>

theorem pushcli_popcli_nest:
  assumes "cli_inv (mcpu s)" and "0 < n" and "ncli (mcpu s) + int n < 2 ^ 31"
  shows "ok (iter_km n pushcli) s (\<lambda>_ t. \<not> iflag (mcpu t) \<and> ncli (mcpu t) = ncli (mcpu s) + int n \<and> ncli (mcpu t) < 2 ^ 31
    \<and> iter_km n popcli t =
        Inr ((), s\<lparr>mcpu := (mcpu s)\<lparr>intena := if ncli (mcpu s) = 0 then iflag (mcpu s) else intena (mcpu s)\<rparr>\<rparr>))"
proof -
  let ?c = "mcpu s"
  have "iter_km n popcli (s\<lparr>mcpu := (cli_push ^^ n) ?c\<rparr>) = Inr ((), s\<lparr>mcpu := cli_saved ?c\<rparr>)"
    using iter_popcli [OF cli_ok_saved [OF assms(1)], of n s] iter_push_saved [OF assms(2), of ?c] by simp
  moreover have "ncli ((cli_push ^^ k) ?c) = ncli ?c + int k" for k
    by (induction k) (simp_all add: cli_push_def)
  moreover have "\<not> iflag ((cli_push ^^ n) ?c)" using assms(2) by (cases n) (simp_all add: cli_push_def)
  moreover have "cli_saved ?c = ?c\<lparr>intena := if ncli ?c = 0 then iflag ?c else intena ?c\<rparr>" by (simp add: cli_saved_def)
  ultimately show ?thesis using assms(3) by (simp add: ok_def iter_pushcli)
qed

subsection \<open>The properties on concrete states\<close>

text \<open>Two CPUs idle; then CPU 0 has taken the allocator's lock.\<close>

definition smp0 :: smp where
  "smp0 = \<lparr>scpu = (\<lambda>i. \<lparr>cid = i, iflag = True, ncli = 0, intena = True\<rparr>),
     slock = (\<lambda>_. \<lparr>locked = 0, lkname = ''x'', lkcpu = None\<rparr>), spc = (\<lambda>_. Run), sheld = (\<lambda>_. {})\<rparr>"

definition smp3 :: smp where
  "smp3 = \<lparr>scpu = (scpu smp0)(0 := \<lparr>cid = 0, iflag = False, ncli = 1, intena = True\<rparr>),
     slock = (slock smp0)(Lk_kmem := \<lparr>locked = 1, lkname = ''x'', lkcpu = Some 0\<rparr>),
     spc = (\<lambda>_. Run), sheld = (\<lambda>_. {})(0 := {Lk_kmem})\<rparr>"

lemma smp3_reach: "smp_reach smp3"
proof -
  let ?v = "sview smp0 0"
  define S1 where "S1 = sput smp0 0 (?v\<lparr>mcpu := cli_push (mcpu ?v)\<rparr>) (Spin Lk_kmem)"
  have "smp_step smp0 S1"
    unfolding S1_def by (rule smp_step.start) (simp_all add: lock_code smp0_def)
  moreover define S2 where "S2 = sput S1 0 ((sview S1 0)\<lparr>mlocks := (slock S1)(Lk_kmem := (slock S1 Lk_kmem)\<lparr>locked := 1\<rparr>)\<rparr>) (Got Lk_kmem)"
  have "smp_step S1 S2"
    unfolding S2_def by (rule smp_step.take [where old = 0]) (simp_all add: lock_code smp0_def S1_def)
  moreover have "smp_step S2 smp3"
  proof -
    have e: "smp3 = (sput S2 0 ((sview S2 0)\<lparr>mlocks := (slock S2)(Lk_kmem := (slock S2 Lk_kmem)\<lparr>lkcpu := Some 0\<rparr>)\<rparr>) Run)
      \<lparr>sheld := (sheld S2)(0 := insert Lk_kmem (sheld S2 0))\<rparr>"
      by (auto simp: smp3_def S2_def S1_def smp0_def sput_def sview_def cli_push_def fun_eq_iff)
    show ?thesis unfolding e
      by (rule smp_step.record_owner) (simp_all add: lock_code smp0_def S1_def S2_def)
  qed
  moreover have "smp_reach smp0" by (rule smp_start) (simp add: smp_init_def smp0_def)
  ultimately show ?thesis by (blast intro: smp_next)
qed
theorem smp_mutual_exclusion_witness:
  "smp_reach smp3 \<and> (0::nat) \<noteq> 1 \<and> Lk_kmem \<in> sheld smp3 0 \<and> sheld smp3 0 \<inter> sheld smp3 1 = {}"
  using smp_mutual_exclusion [OF smp3_reach, of 0 1] smp3_reach by (simp add: smp3_def)

theorem smp_holding_witness:
  "smp_reach smp3 \<and> holding Lk_kmem (sview smp3 0) = Inr (True, sview smp3 0)
     \<and> holding Lk_kmem (sview smp3 1) = Inr (False, sview smp3 1)"
  using smp_holding [OF smp3_reach, of Lk_kmem 0] smp_holding [OF smp3_reach, of Lk_kmem 1] smp3_reach
  by (simp add: smp3_def)

text \<open>A CPU with interrupts on and a stale \<open>intena\<close>.\<close>

definition cpu1 :: mstate where
  "cpu1 = \<lparr>mcpu = \<lparr>cid = 0, iflag = True, ncli = 0, intena = False\<rparr>, mlocks = slock smp0\<rparr>"

theorem pushcli_popcli_nest_witness:
  "ok (iter_km 3 pushcli) cpu1 (\<lambda>_ t. \<not> iflag (mcpu t) \<and> ncli (mcpu t) = 3
    \<and> iter_km 3 popcli t = Inr ((), cpu1\<lparr>mcpu := \<lparr>cid = 0, iflag = True, ncli = 0, intena = True\<rparr>\<rparr>))"
  by (rule ok_mono [OF pushcli_popcli_nest [of cpu1 3]]) (simp_all add: cpu1_def cli_inv_def)

end
