(* ===== verification/Strings.thy ===== *)
theory Strings
  imports Prelude
begin

text \<open>
  Byte memory and the string routines over it: the kernel's \<open>string.c\<close> of xv6, its user library
  \<open>ulib.c\<close>, and the library \<open>lib/string.c\<close> of the JOS tree. Memory is a function from 32-bit
  addresses to bytes, so overlapping regions and address wrap-around are visible. Loops that run
  to a NUL byte may not end and are partial functions; loops bounded by a count recurse on it.
\<close>

type_synonym mem = "u32 \<Rightarrow> u8"

section \<open>Address arithmetic\<close>

text \<open>\<open>a - d < n\<close> says that \<open>a\<close> is one of the \<open>n\<close> addresses from \<open>d\<close> on, also across the wrap.\<close>

lemma unat_minus_1_nz: "(x::'a::len word) \<noteq> 0 \<Longrightarrow> unat (x - 1) = unat x - 1"
  by (simp add: unat_minus_one)

lemma unat_neg_1_ge: "k < 2 ^ LENGTH('a) \<Longrightarrow> k \<le> unat (- 1 :: 'a::len word)"
  by (simp add: unsigned_minus_1_eq_mask mask_eq_exp_minus_1)

lemma unat32_less [simp]: "unat (x :: u32) < 2 ^ 32"
  using unsigned_less [of x, where ?'a = nat] by simp

lemma range_step:
  fixes a d :: u32
  assumes "Suc k \<le> 2 ^ 32"
  shows "unat (a - d) < Suc k \<longleftrightarrow> a = d \<or> unat (a - (d + 1)) < k"
proof (cases "a = d")
  case True
  then show ?thesis by simp
next
  case False
  then have nz: "a - d \<noteq> 0" by simp
  have "a - (d + 1) = (a - d) - 1" by simp
  with unat_minus_1_nz [OF nz] have "unat (a - (d + 1)) = unat (a - d) - 1" by metis
  moreover have "unat (a - d) \<noteq> 0" using nz unat_eq_zero by blast
  ultimately show ?thesis using False by linarith
qed

lemma range_first:
  fixes d :: u32
  assumes "k < 2 ^ 32"
  shows "\<not> unat (d - (d + 1)) < k"
  using unat_neg_1_ge [where 'a = 32, of k] assms by simp

lemma sub_range_ne:
  fixes a :: u32
  assumes "unat (a - d) < k" and "k \<le> unat (e - d)"
  shows "a \<noteq> e"
  using assms by auto

section \<open>Filling memory\<close>

text \<open>\<open>rep stosb\<close> and \<open>rep stosl\<close> (\<open>x86.h\<close>), one iteration per count.\<close>

definition st32 :: "mem \<Rightarrow> u32 \<Rightarrow> u32 \<Rightarrow> mem" where
  "st32 m a v = m(a := ucast v, a + 1 := ucast (drop_bit 8 v), a + 2 := ucast (drop_bit 16 v),
     a + 3 := ucast (drop_bit 24 v))"

definition ld32 :: "mem \<Rightarrow> u32 \<Rightarrow> u32" where
  "ld32 m a = ucast (m a) OR push_bit 8 (ucast (m (a + 1))) OR push_bit 16 (ucast (m (a + 2)))
     OR push_bit 24 (ucast (m (a + 3)))"

fun stosb :: "mem \<Rightarrow> u32 \<Rightarrow> u8 \<Rightarrow> nat \<Rightarrow> mem" where
  "stosb m a v 0 = m"
| "stosb m a v (Suc k) = stosb (m(a := v)) (a + 1) v k"

fun stosl :: "mem \<Rightarrow> u32 \<Rightarrow> u32 \<Rightarrow> nat \<Rightarrow> mem" where
  "stosl m a v 0 = m"
| "stosl m a v (Suc k) = stosl (st32 m a v) (a + 4) v k"

definition memset :: "mem \<Rightarrow> u32 \<Rightarrow> u32 \<Rightarrow> u32 \<Rightarrow> mem" where
  "memset m dst c n =
     (if unat dst mod 4 = 0 \<and> unat n mod 4 = 0 then
        let c = c AND 255
        in stosl m dst (push_bit 24 c OR push_bit 16 c OR push_bit 8 c OR c) (unat n div 4)
      else stosb m dst (ucast c) (unat n))"

lemma ld32_st32 [simp]: "ld32 (st32 m a v) a = v"
proof -
  have ne: "a + 1 \<noteq> a" "a + 2 \<noteq> a" "a + 3 \<noteq> a" "a + 2 \<noteq> a + 1" "a + 3 \<noteq> a + 1" "a + 3 \<noteq> a + 2"
    by simp_all
  then show ?thesis using bytes_word32 [of v] by (simp add: ld32_def st32_def)
qed

lemma stosb_apply:
  "k \<le> 2 ^ 32 \<Longrightarrow> stosb m a v k x = (if unat (x - a) < k then v else m x)"
proof (induction k arbitrary: m a)
  case 0
  then show ?case by simp
next
  case (Suc k)
  then have "stosb m a v (Suc k) x = (if unat (x - (a + 1)) < k then v else (m(a := v)) x)"
    by simp
  with range_step [OF Suc.prems, of x a] show ?case by auto
qed

lemma stosb_add: "stosb m a v (j + k) = stosb (stosb m a v j) (a + of_nat j) v k"
  by (induction j arbitrary: m a) (simp_all add: algebra_simps)

lemma stosl_stosb:
  assumes "\<And>i. i < 4 \<Longrightarrow> ucast (drop_bit (8 * i) v) = (b :: u8)"
  shows "stosl m a v k = stosb m a b (4 * k)"
proof (induction k arbitrary: m a)
  case 0
  show ?case by simp
next
  case (Suc k)
  have "st32 m a v = stosb m a b 4"
    using assms [of 0] assms [of 1] assms [of 2] assms [of 3]
    by (simp add: st32_def numeral_eq_Suc add.assoc)
  with Suc show ?case
    using stosb_add [of m a b 4 "4 * k"] by simp
qed

lemma replicate_byte:
  fixes c :: u32
  assumes "i < 4"
  shows "ucast (drop_bit (8 * i) (push_bit 24 (c AND 255) OR push_bit 16 (c AND 255) OR
      push_bit 8 (c AND 255) OR (c AND 255))) = (ucast c :: u8)"
proof -
  have low: "c AND 255 = take_bit 8 c"
    by (simp add: take_bit_eq_mask mask_eq_exp_minus_1)
  from assms have i: "i = 0 \<or> i = 1 \<or> i = 2 \<or> i = 3" by auto
  show ?thesis
    unfolding low
  proof (rule bit_word_eqI)
    fix n
    assume "n < LENGTH(8)"
    then have "n < 8" by simp
    with i show "bit (ucast (drop_bit (8 * i) (push_bit 24 (take_bit 8 c) OR
        push_bit 16 (take_bit 8 c) OR push_bit 8 (take_bit 8 c) OR take_bit 8 c)) :: u8) n =
      bit (ucast c :: u8) n"
      by (elim disjE) (simp_all add: bit_simps)
  qed
qed

lemma memset_eq_stosb: "memset m dst c n = stosb m dst (ucast c) (unat n)"
proof (cases "unat dst mod 4 = 0 \<and> unat n mod 4 = 0")
  case True
  then have "4 * (unat n div 4) = unat n" by auto
  with True show ?thesis
    using stosl_stosb [OF replicate_byte [where c = c], of m dst "unat n div 4"]
    by (simp add: memset_def Let_def)
next
  case False
  then show ?thesis by (auto simp: memset_def)
qed


section \<open>Comparing and moving memory\<close>

fun memcmp :: "mem \<Rightarrow> u32 \<Rightarrow> u32 \<Rightarrow> nat \<Rightarrow> int" where
  "memcmp m s1 s2 0 = 0"
| "memcmp m s1 s2 (Suc n) =
     (if m s1 \<noteq> m s2 then int (unat (m s1)) - int (unat (m s2))
      else memcmp m (s1 + 1) (s2 + 1) n)"

text \<open>The two loops of \<open>memmove\<close>: upwards, and downwards from the ends of the regions.\<close>

fun copy_up :: "mem \<Rightarrow> u32 \<Rightarrow> u32 \<Rightarrow> nat \<Rightarrow> mem" where
  "copy_up m d s 0 = m"
| "copy_up m d s (Suc n) = copy_up (m(d := m s)) (d + 1) (s + 1) n"

fun copy_down :: "mem \<Rightarrow> u32 \<Rightarrow> u32 \<Rightarrow> nat \<Rightarrow> mem" where
  "copy_down m d s 0 = m"
| "copy_down m d s (Suc n) = copy_down (m(d - 1 := m (s - 1))) (d - 1) (s - 1) n"

definition memmove :: "mem \<Rightarrow> u32 \<Rightarrow> u32 \<Rightarrow> u32 \<Rightarrow> mem" where
  "memmove m dst src n =
     (if src < dst \<and> dst < src + n then copy_down m (dst + n) (src + n) (unat n)
      else copy_up m dst src (unat n))"

definition memcpy :: "mem \<Rightarrow> u32 \<Rightarrow> u32 \<Rightarrow> u32 \<Rightarrow> mem" where
  "memcpy m dst src n = memmove m dst src n"

text \<open>What a move must do: copy the old bytes of the source, all at once.\<close>

definition moved :: "mem \<Rightarrow> u32 \<Rightarrow> u32 \<Rightarrow> u32 \<Rightarrow> mem" where
  "moved m dst src n = (\<lambda>a. if a - dst < n then m (src + (a - dst)) else m a)"

lemma copy_up_apply:
  assumes "k \<le> 2 ^ 32" and "d = s \<or> k \<le> unat (d - s)"
  shows "copy_up m d s k a = (if unat (a - d) < k then m (s + (a - d)) else m a)"
  using assms
proof (induction k arbitrary: m d s)
  case 0
  then show ?case by simp
next
  case (Suc k)
  let ?m = "m(d := m s)"
  have "copy_up ?m (d + 1) (s + 1) k a =
      (if unat (a - (d + 1)) < k then ?m (s + 1 + (a - (d + 1))) else ?m a)"
    by (rule Suc.IH) (use Suc.prems in auto)
  then have IH: "copy_up m d s (Suc k) a =
      (if unat (a - (d + 1)) < k then ?m (s + 1 + (a - (d + 1))) else ?m a)"
    by (simp only: copy_up.simps)
  have src: "?m (s + 1 + (a - (d + 1))) = m (s + (a - d))" if "unat (a - (d + 1)) < k"
  proof (cases "s + (a - d) = d")
    case True
    have "a \<noteq> d" using range_first [of k d] Suc.prems(1) that by auto
    moreover have "unat (a - d) < Suc k" using range_step [of k a d] Suc.prems(1) that by simp
    moreover have "a - d = d - s" using True by (simp add: algebra_simps)
    ultimately show ?thesis using Suc.prems(2) True by auto
  next
    case False
    then show ?thesis by (simp add: algebra_simps)
  qed
  show ?case
    using IH src range_step [of k a d] range_first [of k d] Suc.prems(1) by auto
qed

lemma copy_down_apply:
  assumes "k \<le> 2 ^ 32" and "d = s \<or> k \<le> unat (s - d)"
  shows "copy_down m (d + of_nat k) (s + of_nat k) k a =
    (if unat (a - d) < k then m (s + (a - d)) else m a)"
  using assms
proof (induction k arbitrary: m)
  case 0
  then show ?case by simp
next
  case (Suc k)
  let ?e = "d + of_nat k"
  let ?m = "m(?e := m (s + of_nat k))"
  have k: "unat (of_nat k :: u32) = k"
    using Suc.prems(1) by (simp add: unat_of_nat)
  have step: "d + of_nat (Suc k) - 1 = ?e" "s + of_nat (Suc k) - 1 = s + of_nat k"
    by simp_all
  have "copy_down ?m ?e (s + of_nat k) k a = (if unat (a - d) < k then ?m (s + (a - d)) else ?m a)"
    by (rule Suc.IH) (use Suc.prems in auto)
  then have IH: "copy_down m (d + of_nat (Suc k)) (s + of_nat (Suc k)) (Suc k) a =
      (if unat (a - d) < k then ?m (s + (a - d)) else ?m a)"
    by (simp only: copy_down.simps step)
  have src: "?m (s + (a - d)) = m (s + (a - d))" if lt: "unat (a - d) < k"
  proof (cases "s + (a - d) = ?e")
    case True
    show ?thesis
    proof (cases "d = s")
      case True
      with \<open>s + (a - d) = ?e\<close> show ?thesis by simp
    next
      case False
      with Suc.prems(2) have ge: "Suc k \<le> unat (s - d)" by simp
      have "s - d = of_nat k - (a - d)" using True by (simp add: algebra_simps)
      moreover have "unat (of_nat k - (a - d)) = k - unat (a - d)"
        using lt k unat_sub [of "a - d" "of_nat k"] word_le_nat_alt [of "a - d" "of_nat k"] by simp
      ultimately have "unat (s - d) \<le> k" by (metis diff_le_self)
      with ge show ?thesis by simp
    qed
  next
    case False
    then show ?thesis by simp
  qed
  have "unat (a - d) = k \<longleftrightarrow> a = ?e"
    using k by (metis add_diff_cancel_left' diff_add_cancel add.commute word_unat_eq_iff)
  then show ?case
    using IH src by (auto simp: less_Suc_eq)
qed

lemma memmove_moved:
  assumes "unat src + unat n < 2 ^ 32" and "unat dst + unat n \<le> 2 ^ 32"
  shows "memmove m dst src n = moved m dst src n"
proof (cases "src < dst \<and> dst < src + n")
  case True
  have "unat (src + n) = unat src + unat n"
    using assms(1) by (simp add: unat_word_ariths)
  with True have "unat src < unat dst" "unat dst < unat src + unat n"
    by (simp_all add: word_less_nat_alt)
  moreover from this have "unat (src - dst) = 2 ^ 32 + unat src - unat dst"
    by (simp add: unat_sub_if_size word_size word_le_nat_alt)
  ultimately have "unat n \<le> unat (src - dst)" using assms(2) by simp
  then have "copy_down m (dst + n) (src + n) (unat n) a = moved m dst src n a" for a
    using copy_down_apply [of "unat n" dst src m a] unat32_less [of n]
    by (simp add: moved_def word_less_nat_alt)
  with True show ?thesis by (auto simp: memmove_def)
next
  case False
  have e: "unat (src + n) = unat src + unat n"
    using assms(1) by (simp add: unat_word_ariths)
  have "dst = src \<or> unat n \<le> unat (dst - src)"
  proof (cases "unat dst < unat src")
    case True
    then have "unat (dst - src) = 2 ^ 32 + unat dst - unat src"
      by (simp add: unat_sub_if_size word_size word_le_nat_alt)
    with True assms(1) have "unat n \<le> unat (dst - src)" by linarith
    then show ?thesis by simp
  next
    case le: False
    then have "unat (dst - src) = unat dst - unat src"
      by (simp add: unat_sub word_le_nat_alt)
    with False e le show ?thesis
      by (auto simp: word_less_nat_alt word_unat_eq_iff)
  qed
  then have "copy_up m dst src (unat n) a = moved m dst src n a" for a
    using copy_up_apply [of "unat n" dst src m a] unat32_less [of n]
    by (simp add: moved_def word_less_nat_alt)
  with False show ?thesis by (auto simp: memmove_def)
qed


subsection \<open>The contract of a block move\<close>

text \<open>
  Clients of \<open>memmove\<close> rely on one law: for regions that do not run past the end of the address
  space, the destination gets the old contents of the source and nothing else changes.
\<close>

locale block_move =
  fixes move :: "mem \<Rightarrow> u32 \<Rightarrow> u32 \<Rightarrow> u32 \<Rightarrow> mem"
  assumes move_moved: "unat src + unat n < 2 ^ 32 \<Longrightarrow> unat dst + unat n \<le> 2 ^ 32 \<Longrightarrow>
    move m dst src n = moved m dst src n"
begin

lemma move_frame:
  "unat src + unat n < 2 ^ 32 \<Longrightarrow> unat dst + unat n \<le> 2 ^ 32 \<Longrightarrow> n \<le> a - dst \<Longrightarrow>
     move m dst src n a = m a"
  by (auto simp: move_moved moved_def)

lemma move_self:
  "unat src + unat n < 2 ^ 32 \<Longrightarrow> move m src src n = m"
  by (simp add: move_moved moved_def fun_eq_iff)

text \<open>Moving a block away and back restores it when the two regions are disjoint.\<close>

lemma move_back:
  assumes "unat a + unat n < 2 ^ 32" and "unat b + unat n < 2 ^ 32"
    and disj: "\<And>x. x - a < n \<Longrightarrow> \<not> x - b < n"
    and "x - a < n"
  shows "move (move m b a n) a b n x = m x"
proof -
  let ?m = "move m b a n"
  have "move ?m a b n x = ?m (b + (x - a))"
    using assms(1,2,4) by (simp add: move_moved [of b n a] moved_def)
  also have "\<dots> = m x"
    using assms(1,2,4) by (simp add: move_moved [of a n b] moved_def)
  finally show ?thesis .
qed

end

interpretation kernel_move: block_move memmove
  by unfold_locales (rule memmove_moved)

section \<open>NUL-terminated strings\<close>

text \<open>\<open>cstr m s xs\<close>: at address \<open>s\<close> stand the non-zero bytes \<open>xs\<close> and then a NUL byte.\<close>

fun cstr :: "mem \<Rightarrow> u32 \<Rightarrow> u8 list \<Rightarrow> bool" where
  "cstr m s [] \<longleftrightarrow> m s = 0"
| "cstr m s (x # xs) \<longleftrightarrow> m s = x \<and> x \<noteq> 0 \<and> cstr m (s + 1) xs"

partial_function (option) strlen_loop :: "mem \<Rightarrow> u32 \<Rightarrow> u32 \<Rightarrow> u32 option" where
  "strlen_loop m s n = (if m (s + n) = 0 then Some n else strlen_loop m s (n + 1))"

definition strlen :: "mem \<Rightarrow> u32 \<Rightarrow> u32 option" where
  "strlen m s = strlen_loop m s 0"

fun strncmp :: "mem \<Rightarrow> u32 \<Rightarrow> u32 \<Rightarrow> nat \<Rightarrow> int" where
  "strncmp m p q 0 = 0"
| "strncmp m p q (Suc n) =
     (if m p \<noteq> 0 \<and> m p = m q then strncmp m (p + 1) (q + 1) n
      else int (unat (m p)) - int (unat (m q)))"

text \<open>
  The copying loop of \<open>strncpy\<close>; it also returns the next free position and the count that is
  left, for the loop that pads.
\<close>

fun strncpy_copy :: "mem \<Rightarrow> u32 \<Rightarrow> u32 \<Rightarrow> nat \<Rightarrow> mem \<times> u32 \<times> nat" where
  "strncpy_copy m s t 0 = (m, s, 0)"
| "strncpy_copy m s t (Suc n) =
     (let m' = m(s := m t)
      in if m t \<noteq> 0 then strncpy_copy m' (s + 1) (t + 1) n else (m', s + 1, n))"

definition strncpy :: "mem \<Rightarrow> u32 \<Rightarrow> u32 \<Rightarrow> int \<Rightarrow> mem" where
  "strncpy m s t n = (case strncpy_copy m s t (nat n) of (m', s', k) \<Rightarrow> stosb m' s' 0 k)"

text \<open>\<open>safestrcpy\<close>: the loop stops after the NUL byte or when one byte of room is left.\<close>

fun safestrcpy_copy :: "mem \<Rightarrow> u32 \<Rightarrow> u32 \<Rightarrow> nat \<Rightarrow> mem \<times> u32" where
  "safestrcpy_copy m s t 0 = (m, s)"
| "safestrcpy_copy m s t (Suc n) =
     (let m' = m(s := m t)
      in if m t \<noteq> 0 then safestrcpy_copy m' (s + 1) (t + 1) n else (m', s + 1))"

definition safestrcpy :: "mem \<Rightarrow> u32 \<Rightarrow> u32 \<Rightarrow> int \<Rightarrow> mem" where
  "safestrcpy m s t n =
     (if n \<le> 0 then m
      else case safestrcpy_copy m s t (nat (n - 1)) of (m', s') \<Rightarrow> m'(s' := 0))"

lemma strlen_loop_cstr: "cstr m (s + n) xs \<Longrightarrow> strlen_loop m s n = Some (n + of_nat (length xs))"
proof (induction xs arbitrary: n)
  case Nil
  then show ?case by (subst strlen_loop.simps) simp
next
  case (Cons x xs)
  from Cons.prems have "cstr m (s + (n + 1)) xs" by (simp add: add.assoc)
  from Cons.IH [OF this] Cons.prems show ?case
    by (subst strlen_loop.simps) (simp add: algebra_simps)
qed

lemma byte_diff_0: "int (unat (x :: u8)) - int (unat y) = 0 \<longleftrightarrow> x = y"
  unfolding word_unat_eq_iff by linarith

lemma strncmp_eq_0_iff:
  "cstr m p xs \<Longrightarrow> cstr m q ys \<Longrightarrow> strncmp m p q n = 0 \<longleftrightarrow> take n xs = take n ys"
proof (induction n arbitrary: p q xs ys)
  case 0
  then show ?case by simp
next
  case (Suc n)
  show ?case
  proof (cases xs; cases ys)
    fix x xs' y ys'
    assume xs: "xs = x # xs'" and ys: "ys = y # ys'"
    with Suc.prems have "cstr m (p + 1) xs'" "cstr m (q + 1) ys'" by simp_all
    from Suc.IH [OF this] show ?thesis
      using Suc.prems byte_diff_0 [of x y] xs ys by (cases "x = y") simp_all
  qed (use Suc.prems in \<open>auto simp: uint_0_iff\<close>)
qed

text \<open>Reading a list of bytes back from memory.\<close>

fun bytes_at :: "mem \<Rightarrow> u32 \<Rightarrow> nat \<Rightarrow> u8 list" where
  "bytes_at m a 0 = []"
| "bytes_at m a (Suc n) = m a # bytes_at m (a + 1) n"

lemma length_bytes_at [simp]: "length (bytes_at m a n) = n"
  by (induction n arbitrary: a) auto

lemma nth_bytes_at: "i < n \<Longrightarrow> bytes_at m a n ! i = m (a + of_nat i)"
  by (induction n arbitrary: a i) (auto simp: nth_Cons algebra_simps split: nat.splits)

lemma bytes_at_cong:
  "(\<And>i. i < n \<Longrightarrow> m (a + of_nat i) = m' (a' + of_nat i)) \<Longrightarrow> bytes_at m a n = bytes_at m' a' n"
  by (auto simp: nth_bytes_at intro!: nth_equalityI)

lemma bytes_at_append: "bytes_at m a (j + k) = bytes_at m a j @ bytes_at m (a + of_nat j) k"
  by (induction j arbitrary: a) (auto simp: algebra_simps)

lemma bytes_at_stosb: "k \<le> 2 ^ 32 \<Longrightarrow> bytes_at (stosb m a v k) a k = replicate k v"
proof (rule nth_equalityI)
  fix i
  assume k: "k \<le> 2 ^ 32" and "i < length (bytes_at (stosb m a v k) a k)"
  then have i: "i < k" by simp
  with k have "unat (of_nat i :: u32) = i" by (simp add: unat_of_nat)
  with i k show "bytes_at (stosb m a v k) a k ! i = replicate k v ! i"
    by (simp add: nth_bytes_at stosb_apply)
qed simp

text \<open>The source and the destination of a bounded copy do not overlap.\<close>

definition apart :: "u32 \<Rightarrow> u32 \<Rightarrow> nat \<Rightarrow> bool" where
  "apart s t n \<longleftrightarrow> (\<forall>i < n. \<forall>j < n. s + of_nat i \<noteq> t + of_nat j)"

lemma apart_Suc: "apart s t (Suc n) \<Longrightarrow> apart (s + 1) (t + 1) n"
  unfolding apart_def
proof (intro allI impI)
  fix i j
  assume *: "\<forall>i < Suc n. \<forall>j < Suc n. s + of_nat i \<noteq> t + of_nat j" and "i < n" "j < n"
  from *[rule_format, of "Suc i" "Suc j"] this(2,3)
  show "s + 1 + of_nat i \<noteq> t + 1 + of_nat j" by (simp add: algebra_simps)
qed

lemma cstr_upd:
  assumes "cstr m t xs" and "\<And>j. j \<le> length xs \<Longrightarrow> a \<noteq> t + of_nat j"
  shows "cstr (m(a := v)) t xs"
  using assms
proof (induction xs arbitrary: t)
  case Nil
  then show ?case using Nil.prems(2) [of 0] by simp
next
  case (Cons x xs)
  have "a \<noteq> t" using Cons.prems(2) [of 0] by simp
  moreover have "cstr (m(a := v)) (t + 1) xs"
  proof (rule Cons.IH)
    fix j
    assume "j \<le> length xs"
    then show "a \<noteq> t + 1 + of_nat j"
      using Cons.prems(2) [of "Suc j"] by (simp add: algebra_simps)
  qed (use Cons.prems(1) in simp)
  ultimately show ?case using Cons.prems(1) by (simp del: fun_upd_apply add: fun_upd_other)
qed

lemma strncpy_copy_frame:
  "n \<le> 2 ^ 32 \<Longrightarrow> strncpy_copy m s t n = (m', s', k) \<Longrightarrow>
     k \<le> n \<and> s' = s + of_nat (n - k) \<and> (\<forall>a. n - k \<le> unat (a - s) \<longrightarrow> m' a = m a)"
proof (induction n arbitrary: m s t m' s' k)
  case 0
  then show ?case by simp
next
  case (Suc n)
  show ?case
  proof (cases "m t = 0")
    case True
    with Suc.prems have r: "m' = m(s := 0)" "s' = s + 1" "k = n" by (auto simp: Let_def)
    have "a \<noteq> s" if "1 \<le> unat (a - s)" for a using that by auto
    with r show ?thesis by auto
  next
    case False
    with Suc.prems have r: "strncpy_copy (m(s := m t)) (s + 1) (t + 1) n = (m', s', k)"
      by (auto simp: Let_def)
    have IH: "k \<le> n" "s' = s + 1 + of_nat (n - k)"
        "\<And>a. n - k \<le> unat (a - (s + 1)) \<Longrightarrow> m' a = (m(s := m t)) a"
      using Suc.IH [OF _ r] Suc.prems(1) by auto
    have "m' a = m a" if "Suc n - k \<le> unat (a - s)" for a
    proof -
      have ne: "a \<noteq> s" using that IH(1) by auto
      then have "n - k \<le> unat (a - (s + 1))"
        using that IH(1) Suc.prems(1) range_step [of "n - k" a s] by (simp add: Suc_diff_le not_less)
      with IH(3) ne show ?thesis by simp
    qed
    with IH(1,2) show ?thesis by (simp add: Suc_diff_le algebra_simps)
  qed
qed

lemma strncpy_nat_Suc:
  "strncpy m s t (int (Suc n)) =
     (if m t \<noteq> 0 then strncpy (m(s := m t)) (s + 1) (t + 1) (int n) else stosb m s 0 (Suc n))"
  by (auto simp: strncpy_def Let_def nat_add_distrib)

lemma strncpy_frame:
  assumes "n \<le> 2 ^ 32" and "n \<le> unat (a - s)"
  shows "strncpy m s t (int n) a = m a"
proof -
  obtain m' s' k where r: "strncpy_copy m s t n = (m', s', k)" by (cases "strncpy_copy m s t n")
  note f = strncpy_copy_frame [OF assms(1) r]
  have "\<not> unat (a - s') < k"
  proof
    assume lt: "unat (a - s') < k"
    have e: "a - s = (a - s') + of_nat (n - k)" using f by simp
    have "unat (a - s') + (n - k) < 2 ^ 32" using lt f assms(1) by linarith
    then have "unat (a - s) = unat (a - s') + (n - k)"
      unfolding e by (simp add: unat_word_ariths unat_of_nat)
    with lt f assms(2) show False by linarith
  qed
  with r f assms show ?thesis by (simp add: strncpy_def stosb_apply)
qed


text \<open>\<open>pad n zs\<close>: the bytes before the first NUL, filled up with NUL bytes to length \<open>n\<close>.\<close>

definition upto_nul :: "u8 list \<Rightarrow> u8 list" where
  "upto_nul zs = takeWhile (\<lambda>b. b \<noteq> 0) zs"

definition pad :: "nat \<Rightarrow> u8 list \<Rightarrow> u8 list" where
  "pad n zs = upto_nul zs @ replicate (n - length (upto_nul zs)) 0"

lemma pad_Suc: "pad (Suc n) (z # zs) = (if z = 0 then replicate (Suc n) 0 else z # pad n zs)"
  by (simp add: pad_def upto_nul_def)

lemma bytes_at_upd:
  assumes "\<And>i. i < n \<Longrightarrow> a \<noteq> t + of_nat i"
  shows "bytes_at (m(a := v)) t n = bytes_at m t n"
  using assms by (intro bytes_at_cong) (metis fun_upd_other)

lemma apart_upd_source:
  assumes "apart s t (Suc n)"
  shows "bytes_at (m(s := v)) (t + 1) n = bytes_at m (t + 1) n"
proof (rule bytes_at_upd)
  fix i
  assume "i < n"
  with assms[unfolded apart_def, rule_format, of 0 "Suc i"]
  show "s \<noteq> t + 1 + of_nat i" by (simp add: algebra_simps)
qed

lemma strncpy_bytes:
  "n \<le> 2 ^ 32 \<Longrightarrow> apart s t n \<Longrightarrow>
     bytes_at (strncpy m s t (int n)) s n = pad n (bytes_at m t n)"
proof (induction n arbitrary: m s t)
  case 0
  then show ?case by (simp add: pad_def upto_nul_def)
next
  case (Suc n)
  show ?case
  proof (cases "m t = 0")
    case True
    then have "strncpy m s t (int (Suc n)) = stosb m s 0 (Suc n)"
      by (simp only: strncpy_nat_Suc) simp
    with True show ?thesis
      using bytes_at_stosb [OF Suc.prems(1), of m s 0]
      by (simp add: pad_Suc del: stosb.simps)
  next
    case False
    let ?m = "m(s := m t)"
    have r: "strncpy m s t (int (Suc n)) = strncpy ?m (s + 1) (t + 1) (int n)"
      using False by (simp only: strncpy_nat_Suc) simp
    have first: "strncpy ?m (s + 1) (t + 1) (int n) s = m t"
      using strncpy_frame [of n s "s + 1" ?m "t + 1"] range_first [of n s] Suc.prems(1) by simp
    have rest: "bytes_at (strncpy ?m (s + 1) (t + 1) (int n)) (s + 1) n = pad n (bytes_at ?m (t + 1) n)"
      by (rule Suc.IH) (use Suc.prems apart_Suc in auto)
    show ?thesis
      unfolding r using False
      by (simp add: first rest pad_Suc apart_upd_source [OF Suc.prems(2)] del: fun_upd_apply)
  qed
qed

definition safe_nat :: "mem \<Rightarrow> u32 \<Rightarrow> u32 \<Rightarrow> nat \<Rightarrow> mem" where
  "safe_nat m s t k = (case safestrcpy_copy m s t k of (m', s') \<Rightarrow> m'(s' := 0))"

lemma safe_nat_simps [simp]:
  "safe_nat m s t 0 = m(s := 0)"
  "safe_nat m s t (Suc k) =
     (if m t \<noteq> 0 then safe_nat (m(s := m t)) (s + 1) (t + 1) k else m(s := 0, s + 1 := 0))"
  by (auto simp: safe_nat_def Let_def)

lemma safe_nat_frame:
  "k < 2 ^ 32 \<Longrightarrow> Suc k \<le> unat (a - s) \<Longrightarrow> safe_nat m s t k a = m a"
proof (induction k arbitrary: m s t)
  case 0
  then show ?case by auto
next
  case (Suc k)
  have ne: "a \<noteq> s" using Suc.prems(2) by auto
  have ge: "Suc k \<le> unat (a - (s + 1))"
    using Suc.prems ne range_step [of "Suc k" a s] by (simp add: not_less)
  then have "a \<noteq> s + 1" by auto
  with ne ge Suc show ?case by simp
qed

lemma safe_nat_cstr:
  "k < 2 ^ 32 \<Longrightarrow> apart s t (Suc k) \<Longrightarrow>
     cstr (safe_nat m s t k) s (upto_nul (bytes_at m t k))"
proof (induction k arbitrary: m s t)
  case 0
  then show ?case by (simp add: upto_nul_def)
next
  case (Suc k)
  show ?case
  proof (cases "m t = 0")
    case True
    then show ?thesis by (simp add: upto_nul_def)
  next
    case False
    let ?m = "m(s := m t)"
    have "Suc k \<le> unat (s - (s + 1))"
      using range_first [of "Suc k" s] Suc.prems(1) by simp
    then have first: "safe_nat ?m (s + 1) (t + 1) k s = m t"
      using safe_nat_frame [of k s "s + 1" ?m "t + 1"] Suc.prems(1) by simp
    have "cstr (safe_nat ?m (s + 1) (t + 1) k) (s + 1) (upto_nul (bytes_at ?m (t + 1) k))"
      by (rule Suc.IH) (use Suc.prems apart_Suc in auto)
    moreover have "bytes_at ?m (t + 1) k = bytes_at m (t + 1) k"
      using apart_upd_source [of s t k m "m t"] Suc.prems(2) by (simp add: apart_def)
    ultimately show ?thesis
      using False first by (simp add: upto_nul_def del: fun_upd_apply)
  qed
qed

lemma safestrcpy_safe_nat: "0 < n \<Longrightarrow> safestrcpy m s t n = safe_nat m s t (nat n - 1)"
  by (simp add: safestrcpy_def safe_nat_def nat_diff_distrib)

section \<open>Properties\<close>

text \<open>
  C29. \<open>memmove\<close> copies correctly even when source and destination overlap: as long as neither region
  runs past the end of the address space, every byte of the destination is the byte the source had
  before the call, and no byte outside the destination changes.
\<close>

theorem memmove_overlap:
  assumes "unat src + unat n < 2 ^ 32" and "unat dst + unat n \<le> 2 ^ 32"
  shows "memmove m dst src n a = (if a - dst < n then m (src + (a - dst)) else m a)"
  using kernel_move.move_moved [OF assms] by (simp add: moved_def)

theorem memmove_overlap_witness:
  "memmove (\<lambda>a. ucast a) 12 10 4 13 = 11 \<and> memmove (\<lambda>a. ucast a) 10 12 4 13 = 15"
  using memmove_overlap [of 10 4 12 "\<lambda>a. ucast a" 13] memmove_overlap [of 12 4 10 "\<lambda>a. ucast a" 13] by simp

text \<open>
  C30. \<open>safestrcpy\<close> always leaves a terminated string that is the source cut to \<open>n - 1\<close> bytes, and
  writes only to the \<open>n\<close> bytes of the destination.
\<close>

theorem safestrcpy_bounded:
  assumes "0 < n" and "n < 2 ^ 31" and "apart s t (nat n)"
  shows "cstr (safestrcpy m s t n) s (upto_nul (bytes_at m t (nat n - 1)))
    \<and> (\<forall>a. nat n \<le> unat (a - s) \<longrightarrow> safestrcpy m s t n a = m a)"
proof -
  have k: "nat n - 1 < 2 ^ 32" "Suc (nat n - 1) = nat n" using assms(1,2) by auto
  then show ?thesis
    using safe_nat_cstr [OF k(1), of s t m] safe_nat_frame [OF k(1)] assms(1,3)
    by (simp add: safestrcpy_safe_nat)
qed

theorem safestrcpy_bounded_witness:
  "cstr (safestrcpy (\<lambda>a. if a = 100 then 7 else if a = 101 then 8 else 9) 200 100 3) 200 [7, 8]"
proof -
  have "apart 200 100 3" by (auto simp: apart_def less_Suc_eq numeral_3_eq_3)
  moreover have "bytes_at m a 2 = [m a, m (a + 1)]" for m a by (simp add: numeral_2_eq_2)
  ultimately show ?thesis
    using safestrcpy_bounded [of 3 200 100 "\<lambda>a. if a = 100 then 7 else if a = 101 then 8 else 9"]
    by (simp add: upto_nul_def del: cstr.simps)
qed

end
