(* ===== verification/Kalloc.thy ===== *)
theory Kalloc
  imports Spinlock Strings
begin

text \<open>
  The physical page allocator (\<open>kalloc.c\<close>). Free pages are chained through their first word;
  the list head is \<open>kmem.freelist\<close>. The address \<open>end\<close> of the first byte after the kernel is set
  by the linker and is the field \<open>kend\<close>. The chain refines a list of distinct, aligned pages.
\<close>

section \<open>Pages\<close>

definition PGSIZE :: u32 where "PGSIZE = 4096"
definition KERNBASE :: u32 where "KERNBASE = 0x80000000"
definition PHYSTOP :: u32 where "PHYSTOP = 0xE000000"

definition v2p :: "u32 \<Rightarrow> u32" where "v2p a = a - KERNBASE"
definition p2v :: "u32 \<Rightarrow> u32" where "p2v a = a + KERNBASE"

definition PGROUNDUP :: "u32 \<Rightarrow> u32" where "PGROUNDUP sz = (sz + PGSIZE - 1) AND NOT (PGSIZE - 1)"
definition PGROUNDDOWN :: "u32 \<Rightarrow> u32" where "PGROUNDDOWN a = a AND NOT (PGSIZE - 1)"

lemma p2v_v2p [simp]: "p2v (v2p a) = a" "v2p (p2v a) = a"
  by (simp_all add: p2v_def v2p_def)

abbreviation pg_aligned :: "u32 \<Rightarrow> bool" where
  "pg_aligned a \<equiv> unat a mod 4096 = 0"

lemma unat_and_not_mask: "unat (x AND NOT (mask n) :: 'a::len word) = unat x div 2 ^ n * 2 ^ n"
proof -
  have "x AND NOT (mask n) = push_bit n (drop_bit n x)"
    by (rule bit_word_eqI) (auto simp: bit_simps)
  also have "\<dots> = x - take_bit n x"
    by (metis bits_ident add_diff_cancel_right')
  finally have e: "x AND NOT (mask n) = x - take_bit n x" .
  have u: "unat (take_bit n x) = unat x mod 2 ^ n"
    by (metis unsigned_take_bit_eq take_bit_eq_mod)
  then have "take_bit n x \<le> x"
    by (simp add: word_le_nat_alt)
  then have "unat (x - take_bit n x) = unat x - unat x mod 2 ^ n"
    using u by (simp add: unat_sub)
  with e show ?thesis by (simp add: minus_mod_eq_div_mult [symmetric])
qed

lemma page_mask: "PGSIZE - 1 = mask 12"
  by (simp add: PGSIZE_def mask_eq_exp_minus_1)

lemma unat_PGROUNDDOWN: "unat (PGROUNDDOWN a) = unat a div 4096 * 4096"
  unfolding PGROUNDDOWN_def page_mask by (simp add: unat_and_not_mask)

lemma unat_PGROUNDUP:
  assumes "unat sz + 4095 < 2 ^ 32"
  shows "unat (PGROUNDUP sz) = (unat sz + 4095) div 4096 * 4096"
proof -
  have "PGROUNDUP sz = (sz + 4095) AND NOT (mask 12)"
    by (simp add: PGROUNDUP_def page_mask [symmetric] PGSIZE_def add.commute)
  moreover have "unat (sz + 4095) = unat sz + 4095"
    using assms by (simp add: unat_word_ariths)
  ultimately show ?thesis
    using unat_and_not_mask [of "sz + 4095" 12] by simp
qed

lemma pg_aligned_PGROUND [simp]: "pg_aligned (PGROUNDDOWN a)"
  by (simp add: unat_PGROUNDDOWN)

text \<open>The bytes of one aligned page lie outside every other one.\<close>

lemma page_apart:
  assumes "pg_aligned p" and "pg_aligned q" and "p \<noteq> q" and "i < 4096"
  shows "4096 \<le> unat (q + of_nat i - p)"
proof -
  have dv: "4096 dvd unat (q - p)"
  proof (cases "p \<le> q")
    case True
    then have "unat (q - p) = unat q - unat p" by (simp add: unat_sub)
    with assms(1,2) show ?thesis by (simp add: mod_eq_0_iff_dvd)
  next
    case False
    then have "unat (q - p) = 2 ^ 32 + unat q - unat p"
      by (simp add: unat_sub_if_size word_size word_le_nat_alt)
    moreover have "4096 dvd 2 ^ 32 + unat q - unat p"
      using assms(1,2) by (intro dvd_diff_nat dvd_add) (simp_all add: mod_eq_0_iff_dvd)
    ultimately show ?thesis by simp
  qed
  have "q - p \<noteq> 0" using assms(3) by simp
  then have nz: "unat (q - p) \<noteq> 0" using unat_eq_zero by blast
  with dv have ge: "4096 \<le> unat (q - p)" by (simp add: dvd_imp_le)
  have "unat (q - p) < 4096 * 1048576" using unat32_less [of "q - p"] by simp
  with dv have "unat (q - p) + 4096 \<le> 2 ^ 32" by (auto elim!: dvdE)
  then have "unat (q - p) + i < 2 ^ 32" using assms(4) by simp
  then have "unat (q - p + of_nat i) = unat (q - p) + i"
    by (simp add: unat_word_ariths unat_of_nat)
  moreover have "q + of_nat i - p = q - p + of_nat i" by simp
  ultimately show ?thesis using ge by (metis trans_le_add1)
qed

section \<open>State and operations\<close>

record kmstate = mstate +
  kmem_bytes :: mem
  kend :: u32
  use_lock :: bool
  freelist :: u32

text \<open>\<open>kfree\<close> and \<open>kalloc\<close> take the lock only once \<open>use_lock\<close> is set.\<close>

definition kmem_lock :: "('a kmstate_scheme, unit) km" where
  "kmem_lock = bnd (gets use_lock) (\<lambda>u. if u then acquire Lk_kmem else ret ())"

definition kmem_unlock :: "('a kmstate_scheme, unit) km" where
  "kmem_unlock = bnd (gets use_lock) (\<lambda>u. if u then release Lk_kmem else ret ())"

definition kfree :: "u32 \<Rightarrow> ('a kmstate_scheme, unit) km" where
  "kfree v =
     bnd (gets kend) (\<lambda>e.
     if unat v mod unat PGSIZE \<noteq> 0 \<or> v < e \<or> PHYSTOP \<le> v2p v then panic ''kfree''
     else
       bnd (upd (\<lambda>s. s\<lparr>kmem_bytes := memset (kmem_bytes s) v 1 PGSIZE\<rparr>)) (\<lambda>_.
       bnd kmem_lock (\<lambda>_.
       bnd (upd (\<lambda>s. s\<lparr>kmem_bytes := st32 (kmem_bytes s) v (freelist s)\<rparr>)) (\<lambda>_.
       bnd (upd (\<lambda>s. s\<lparr>freelist := v\<rparr>)) (\<lambda>_.
       kmem_unlock)))))"

definition kalloc :: "('a kmstate_scheme, u32) km" where
  "kalloc =
     bnd kmem_lock (\<lambda>_.
     bnd (gets freelist) (\<lambda>r.
     bnd (if r \<noteq> 0 then upd (\<lambda>s. s\<lparr>freelist := ld32 (kmem_bytes s) r\<rparr>) else ret ()) (\<lambda>_.
     bnd kmem_unlock (\<lambda>_.
     ret r))))"

text \<open>
  The loop of \<open>freerange\<close>. It frees page after page; 2^20 rounds cover the address space, and
  \<open>kfree\<close> panics on the first page above \<open>PHYSTOP\<close>, so the fuel never runs out.
\<close>

fun freerange_loop :: "nat \<Rightarrow> u32 \<Rightarrow> u32 \<Rightarrow> ('a kmstate_scheme, unit) km" where
  "freerange_loop 0 p vend = stop Diverges"
| "freerange_loop (Suc k) p vend =
     (if p + PGSIZE \<le> vend then bnd (kfree p) (\<lambda>_. freerange_loop k (p + PGSIZE) vend)
      else ret ())"

definition freerange :: "u32 \<Rightarrow> u32 \<Rightarrow> ('a kmstate_scheme, unit) km" where
  "freerange vstart vend = freerange_loop (2 ^ 20 + 1) (PGROUNDUP vstart) vend"

definition kinit1 :: "u32 \<Rightarrow> u32 \<Rightarrow> ('a kmstate_scheme, unit) km" where
  "kinit1 vstart vend =
     bnd (initlock Lk_kmem ''kmem'') (\<lambda>_.
     bnd (upd (\<lambda>s. s\<lparr>use_lock := False\<rparr>)) (\<lambda>_.
     freerange vstart vend))"

definition kinit2 :: "u32 \<Rightarrow> u32 \<Rightarrow> ('a kmstate_scheme, unit) km" where
  "kinit2 vstart vend =
     bnd (freerange vstart vend) (\<lambda>_.
     upd (\<lambda>s. s\<lparr>use_lock := True\<rparr>))"


section \<open>The free list\<close>

text \<open>The chain of first words from the list head, as the list of pages it visits.\<close>

fun chain :: "mem \<Rightarrow> u32 \<Rightarrow> u32 list \<Rightarrow> bool" where
  "chain m p [] \<longleftrightarrow> p = 0"
| "chain m p (x # xs) \<longleftrightarrow> p = x \<and> x \<noteq> 0 \<and> chain m (ld32 m x) xs"

text \<open>The pages that \<open>kfree\<close> accepts.\<close>

definition page_ok :: "u32 \<Rightarrow> u32 \<Rightarrow> bool" where
  "page_ok e p \<longleftrightarrow> pg_aligned p \<and> p \<noteq> 0 \<and> e \<le> p \<and> v2p p < PHYSTOP"

definition free_pages :: "'a kmstate_scheme \<Rightarrow> u32 list \<Rightarrow> bool" where
  "free_pages s ps \<longleftrightarrow> no_locks s \<and> chain (kmem_bytes s) (freelist s) ps \<and> distinct ps
     \<and> (\<forall>p \<in> set ps. page_ok (kend s) p)"

lemma ld32_cong: "(\<And>i. i < 4 \<Longrightarrow> m (a + of_nat i) = m' (a + of_nat i)) \<Longrightarrow> ld32 m a = ld32 m' a"
proof -
  assume *: "\<And>i. i < 4 \<Longrightarrow> m (a + of_nat i) = m' (a + of_nat i)"
  from *[of 0] *[of 1] *[of 2] *[of 3] show ?thesis by (simp add: ld32_def)
qed

lemma chain_cong:
  "(\<And>q. q \<in> set ps \<Longrightarrow> ld32 m q = ld32 m' q) \<Longrightarrow> chain m p ps = chain m' p ps"
  by (induction ps arbitrary: p) auto

lemma st32_frame: "4 \<le> unat (a - p) \<Longrightarrow> st32 m p v a = m a"
  unfolding st32_def by (auto simp: unat_of_nat)

lemma memset_frame: "unat n \<le> unat (a - p) \<Longrightarrow> memset m p c n a = m a"
  using unat32_less [of n] by (simp add: memset_eq_stosb stosb_apply)

text \<open>Freeing a page rewrites only bytes of that page.\<close>

lemma kfree_mem_other:
  assumes "pg_aligned p" and "pg_aligned q" and "p \<noteq> q"
  shows "ld32 (st32 (memset m p 1 PGSIZE) p v) q = ld32 m q"
proof (rule ld32_cong)
  fix i :: nat
  assume "i < 4"
  then have "4096 \<le> unat (q + of_nat i - p)"
    using page_apart [OF assms, of i] by simp
  then show "st32 (memset m p 1 PGSIZE) p v (q + of_nat i) = m (q + of_nat i)"
    by (simp add: st32_frame memset_frame PGSIZE_def)
qed

lemma lk_take_kmem [simp]:
  "kmem_bytes (lk_take lk s) = kmem_bytes s" "kend (lk_take lk s) = kend s"
  "use_lock (lk_take lk s) = use_lock s" "freelist (lk_take lk s) = freelist s"
  "(lk_take lk s)\<lparr>kmem_bytes := m\<rparr> = lk_take lk (s\<lparr>kmem_bytes := m\<rparr>)"
  "(lk_take lk s)\<lparr>freelist := q\<rparr> = lk_take lk (s\<lparr>freelist := q\<rparr>)"
  by (simp_all add: lk_take_def)

lemma no_locks_kmem [simp]:
  "no_locks (s\<lparr>kmem_bytes := m\<rparr>) = no_locks s" "no_locks (s\<lparr>freelist := q\<rparr>) = no_locks s"
  "no_locks (s\<lparr>use_lock := b\<rparr>) = no_locks s"
  by (simp_all add: no_locks_def lk_free_def)

lemma kfree_run:
  assumes "no_locks s" and "page_ok (kend s) v"
  shows "kfree v s = Inr ((), s\<lparr>kmem_bytes := st32 (memset (kmem_bytes s) v 1 PGSIZE) v (freelist s),
    freelist := v\<rparr>)"
  using assms
  by (simp add: kfree_def kmem_lock_def kmem_unlock_def page_ok_def PGSIZE_def run bnd_def
      acquire_run release_take not_less not_le)

lemma kalloc_run:
  assumes "no_locks s"
  shows "kalloc s = Inr (freelist s,
    if freelist s = 0 then s else s\<lparr>freelist := ld32 (kmem_bytes s) (freelist s)\<rparr>)"
  using assms
  by (simp add: kalloc_def kmem_lock_def kmem_unlock_def run bnd_def acquire_run release_take)

lemma kfree_free_pages:
  assumes "free_pages s ps" and "page_ok (kend s) p" and "p \<notin> set ps"
  shows "ok (kfree p) s (\<lambda>_ t. free_pages t (p # ps) \<and> kend t = kend s)"
proof -
  let ?m = "st32 (memset (kmem_bytes s) p 1 PGSIZE) p (freelist s)"
  have "ld32 ?m q = ld32 (kmem_bytes s) q" if "q \<in> set ps" for q
    using assms that by (intro kfree_mem_other) (auto simp: free_pages_def page_ok_def)
  then have "chain ?m (freelist s) ps = chain (kmem_bytes s) (freelist s) ps"
    by (rule chain_cong)
  with assms show ?thesis
    by (simp add: ok_def free_pages_def kfree_run page_ok_def)
qed

lemma kalloc_free_pages:
  "free_pages s (p # ps) \<Longrightarrow> ok kalloc s (\<lambda>q t. q = p \<and> free_pages t ps \<and> kend t = kend s)"
  by (simp add: ok_def free_pages_def kalloc_run)

lemma kalloc_empty: "free_pages s [] \<Longrightarrow> ok kalloc s (\<lambda>q t. q = 0 \<and> t = s)"
  by (simp add: ok_def free_pages_def kalloc_run)

section \<open>The contract of the allocator\<close>

text \<open>
  What the clients of the allocator rely on. \<open>pages s ps\<close>: the free pages of \<open>s\<close> are \<open>ps\<close>, in the
  order in which they will be handed out; \<open>valid s p\<close>: \<open>p\<close> may be given back.
\<close>

locale page_allocator =
  fixes pages :: "'s \<Rightarrow> u32 list \<Rightarrow> bool"
    and valid :: "'s \<Rightarrow> u32 \<Rightarrow> bool"
    and alloc :: "('s, u32) km"
    and free :: "u32 \<Rightarrow> ('s, unit) km"
  assumes alloc_none: "pages s [] \<Longrightarrow> ok alloc s (\<lambda>q t. q = 0 \<and> t = s)"
    and alloc_some: "pages s (p # ps) \<Longrightarrow>
      ok alloc s (\<lambda>q t. q = p \<and> pages t ps \<and> (\<forall>x. valid t x \<longleftrightarrow> valid s x))"
    and free_page: "pages s ps \<Longrightarrow> valid s p \<Longrightarrow> p \<notin> set ps \<Longrightarrow>
      ok (free p) s (\<lambda>_ t. pages t (p # ps) \<and> (\<forall>x. valid t x \<longleftrightarrow> valid s x))"
    and pages_valid: "pages s ps \<Longrightarrow> distinct ps \<and> (\<forall>p \<in> set ps. p \<noteq> 0 \<and> valid s p)"
begin

text \<open>Pages come back in last-in-first-out order.\<close>

lemma free_alloc:
  assumes "pages s ps" and "valid s p" and "p \<notin> set ps"
  shows "ok (bnd (free p) (\<lambda>_. alloc)) s (\<lambda>q t. q = p \<and> pages t ps)"
  unfolding ok_bnd
  by (rule ok_mono [OF free_page [OF assms]]) (auto elim!: ok_mono [OF alloc_some])

lemma alloc_free:
  assumes "pages s (p # ps)"
  shows "ok (bnd alloc free) s (\<lambda>_ t. pages t (p # ps))"
proof -
  have "p \<notin> set ps" "valid s p" using pages_valid [OF assms] by auto
  then show ?thesis
    unfolding ok_bnd
    by (intro ok_mono [OF alloc_some [OF assms]]) (auto elim!: ok_mono [OF free_page])
qed

fun alloc_many :: "nat \<Rightarrow> ('s, u32 list) km" where
  "alloc_many 0 = ret []"
| "alloc_many (Suc n) = bnd alloc (\<lambda>p. bnd (alloc_many n) (\<lambda>ps. ret (p # ps)))"

text \<open>Allocating several pages gives pairwise distinct ones, none of which is still free.\<close>

lemma alloc_many_pages:
  "pages s ps \<Longrightarrow> n \<le> length ps \<Longrightarrow>
     ok (alloc_many n) s (\<lambda>qs t. qs = take n ps \<and> pages t (drop n ps))"
proof (induction n arbitrary: s ps)
  case 0
  then show ?case by simp
next
  case (Suc n)
  then obtain p ps' where ps: "ps = p # ps'" by (cases ps) auto
  with Suc.prems have a: "ok alloc s (\<lambda>q t. q = p \<and> pages t ps' \<and> (\<forall>x. valid t x \<longleftrightarrow> valid s x))"
    by (simp add: alloc_some)
  show ?case
    unfolding alloc_many.simps ok_bnd
  proof (rule ok_mono [OF a], elim conjE)
    fix q t
    assume "q = p" "pages t ps'"
    then show "ok (alloc_many n) t (\<lambda>x t. ok (ret (q # x)) t (\<lambda>qs t. qs = take (Suc n) ps \<and> pages t (drop (Suc n) ps)))"
      using Suc.IH [of t ps'] Suc.prems ps by (auto elim!: ok_mono)
  qed
qed

lemma alloc_many_fresh:
  assumes "pages s ps" and "n \<le> length ps"
  shows "ok (alloc_many n) s (\<lambda>qs t. distinct qs \<and> length qs = n \<and>
    (\<exists>rs. pages t rs \<and> set qs \<inter> set rs = {}))"
  using pages_valid [OF assms(1)] assms(2)
  by (intro ok_mono [OF alloc_many_pages [OF assms]])
    (auto dest: set_take_disj_set_drop_if_distinct [where i = n and j = n])

end

interpretation kpages: page_allocator free_pages "\<lambda>s. page_ok (kend s)" kalloc kfree
proof unfold_locales
  show "free_pages s [] \<Longrightarrow> ok kalloc s (\<lambda>q t. q = 0 \<and> t = s)" for s :: "'a kmstate_scheme"
    by (rule kalloc_empty)
  show "free_pages s (p # ps) \<Longrightarrow> ok kalloc s
      (\<lambda>q t. q = p \<and> free_pages t ps \<and> (\<forall>x. page_ok (kend t) x = page_ok (kend s) x))"
    for s :: "'a kmstate_scheme" and p ps
    by (rule ok_mono [OF kalloc_free_pages]) auto
  show "free_pages s ps \<Longrightarrow> page_ok (kend s) p \<Longrightarrow> p \<notin> set ps \<Longrightarrow> ok (kfree p) s
      (\<lambda>_ t. free_pages t (p # ps) \<and> (\<forall>x. page_ok (kend t) x = page_ok (kend s) x))"
    for s :: "'a kmstate_scheme" and p ps
    by (rule ok_mono [OF kfree_free_pages]) auto
  show "free_pages s ps \<Longrightarrow> distinct ps \<and> (\<forall>p \<in> set ps. p \<noteq> 0 \<and> page_ok (kend s) p)"
    for s :: "'a kmstate_scheme" and ps
    by (auto simp: free_pages_def page_ok_def)
qed

section \<open>Properties\<close>

text \<open>
  C25. The free list in page memory is a stack of pages: a page given back to \<open>kfree\<close> is the next one
  \<open>kalloc\<close> returns, the other free pages are untouched, and an empty list makes \<open>kalloc\<close> return 0.
\<close>

theorem kfree_kalloc_stack:
  assumes "free_pages s ps" and "page_ok (kend s) p" and "p \<notin> set ps"
  shows "ok (bnd (kfree p) (\<lambda>_. kalloc)) s (\<lambda>q t. q = p \<and> free_pages t ps)
    \<and> (ps = [] \<longrightarrow> ok kalloc s (\<lambda>q _. q = 0))"
  using kpages.free_alloc [OF assms] ok_mono [OF kpages.alloc_none [of s], where Q = "\<lambda>q _. q = 0"] assms(1) by auto

definition km0 :: kmstate where
  "km0 = \<lparr>mcpu = \<lparr>cid = 0, iflag = True, ncli = 0, intena = True\<rparr>,
     mlocks = \<lambda>_. \<lparr>locked = 0, lkname = [], lkcpu = None\<rparr>,
     kmem_bytes = \<lambda>_. 0, kend = 0x80100000, use_lock = True, freelist = 0\<rparr>"

theorem kfree_kalloc_stack_witness:
  "ok (bnd (kfree 0x80200000) (\<lambda>_. kalloc)) km0 (\<lambda>q t. q = 0x80200000 \<and> free_pages t [])"
  using kfree_kalloc_stack [where s = km0 and ps = "[]" and p = "0x80200000"]
  by (simp add: km0_def free_pages_def no_locks_def cli_ok_def lk_free_def page_ok_def v2p_def KERNBASE_def PHYSTOP_def PGSIZE_def
      del: no_locks_free no_locks_cli)

end
