(* ===== verification/Sched.thy ===== *)
theory Sched
  imports Kalloc
begin

text \<open>
  The process table and the operations that block and unblock processes (\<open>proc.c\<close>: \<open>sched\<close>,
  \<open>yield\<close>, \<open>sleep\<close>, \<open>wakeup1\<close>, \<open>wakeup\<close>, \<open>kill\<close>). A process is an index of \<open>ptable.proc\<close>, the null
  pointer is \<open>None\<close>. A thread that enters the scheduler stops with \<open>Swtch\<close> in the state it leaves
  behind; what it does once the scheduler comes back to it is a definition of its own
  (\<open>sleep_resume\<close>, \<open>yield_resume\<close>).
\<close>

section \<open>State\<close>

datatype procstate = UNUSED | EMBRYO | SLEEPING | RUNNABLE | RUNNING | ZOMBIE

text \<open>Trap frame and context are addresses in the process's kernel stack page.\<close>

record proc =
  p_sz :: u32
  p_pgdir :: u32
  p_kstack :: u32
  p_state :: procstate
  p_pid :: int
  p_parent :: "nat option"
  p_tf :: u32
  p_context :: u32
  p_chan :: chan
  p_killed :: bool
  p_ofile :: "nat option list"
  p_cwd :: "nat option"
  p_name :: "u8 list"

record pstate = kmstate +
  procs :: "proc list"
  curproc :: "nat option"
  initproc :: "nat option"
  nextpid :: int

definition NPROC :: nat where "NPROC = 64"

definition NOFILE :: nat where "NOFILE = 16"

text \<open>Assignment through a process pointer.\<close>

definition set_proc :: "nat \<Rightarrow> (proc \<Rightarrow> proc) \<Rightarrow> ('a pstate_scheme, unit) km" where
  "set_proc i f = upd (\<lambda>s. s\<lparr>procs := (procs s)[i := f (procs s ! i)]\<rparr>)"

text \<open>The current process; dereferencing it when there is none is undefined.\<close>

definition myproc :: "('a pstate_scheme, nat) km" where
  "myproc = bnd (gets curproc) (\<lambda>p. case p of None \<Rightarrow> stop (Undefined ''proc == 0'') | Some i \<Rightarrow> ret i)"

section \<open>Operations\<close>

definition wake :: "chan \<Rightarrow> proc \<Rightarrow> proc" where
  "wake ch p = (if p_state p = SLEEPING \<and> p_chan p = ch then p\<lparr>p_state := RUNNABLE\<rparr> else p)"

definition wakeup1 :: "chan \<Rightarrow> ('a pstate_scheme, unit) km" where
  "wakeup1 ch = upd (\<lambda>s. s\<lparr>procs := map (wake ch) (procs s)\<rparr>)"

text \<open>
  \<open>wakeup\<close> and \<open>sleep\<close> are lists of statements that run one after the other; between two of them other CPUs may run.
\<close>

fun stmts :: "('s, unit) km list \<Rightarrow> ('s, unit) km" where
  "stmts [] = ret ()"
| "stmts (c # cs) = bnd c (\<lambda>_. stmts cs)"

definition wakeup_code :: "chan \<Rightarrow> ('a pstate_scheme, unit) km list" where
  "wakeup_code ch = [acquire Lk_ptable, wakeup1 ch, release Lk_ptable]"

definition wakeup :: "chan \<Rightarrow> ('a pstate_scheme, unit) km" where
  "wakeup ch = stmts (wakeup_code ch)"

text \<open>\<open>sched\<close> up to its \<open>swtch\<close>, and the assignment after it.\<close>

definition sched :: "('a pstate_scheme, unit) km" where
  "sched =
     bnd (holding Lk_ptable) (\<lambda>h.
     if \<not> h then panic ''sched ptable.lock''
     else bnd (gets mcpu) (\<lambda>c.
     if ncli c \<noteq> 1 then panic ''sched locks''
     else bnd myproc (\<lambda>i.
     bnd (gets (\<lambda>s. p_state (procs s ! i))) (\<lambda>st.
     if st = RUNNING then panic ''sched running''
     else if iflag c then panic ''sched interruptible''
     else stop Swtch))))"

definition sched_resume :: "bool \<Rightarrow> ('a pstate_scheme, unit) km" where
  "sched_resume ie = upd (\<lambda>s. s\<lparr>mcpu := (mcpu s)\<lparr>intena := ie\<rparr>\<rparr>)"

text \<open>
  \<open>sleep\<close> up to the switch to the scheduler. Every caller passes the address of a lock, so the test for a null \<open>lk\<close> has
  no counterpart.
\<close>

definition sleep_code :: "chan \<Rightarrow> lockid \<Rightarrow> nat \<Rightarrow> ('a pstate_scheme, unit) km list" where
  "sleep_code ch lk i =
     (if lk \<noteq> Lk_ptable then [acquire Lk_ptable, release lk] else []) @
     [set_proc i (\<lambda>p. p\<lparr>p_chan := ch\<rparr>),
      set_proc i (\<lambda>p. p\<lparr>p_state := SLEEPING\<rparr>),
      sched]"

definition sleep :: "chan \<Rightarrow> lockid \<Rightarrow> ('a pstate_scheme, 'b) km" where
  "sleep ch lk =
     bnd (gets curproc) (\<lambda>p.
     case p of None \<Rightarrow> panic ''sleep''
     | Some i \<Rightarrow> bnd (stmts (sleep_code ch lk i)) (\<lambda>_. stop Swtch))"

definition sleep_resume :: "lockid \<Rightarrow> bool \<Rightarrow> ('a pstate_scheme, unit) km" where
  "sleep_resume lk ie =
     bnd (sched_resume ie) (\<lambda>_.
     bnd myproc (\<lambda>i.
     bnd (set_proc i (\<lambda>p. p\<lparr>p_chan := ChNull\<rparr>)) (\<lambda>_.
     if lk \<noteq> Lk_ptable then bnd (release Lk_ptable) (\<lambda>_. acquire lk) else ret ())))"

definition yield :: "('a pstate_scheme, unit) km" where
  "yield =
     bnd (acquire Lk_ptable) (\<lambda>_.
     bnd myproc (\<lambda>i.
     bnd (set_proc i (\<lambda>p. p\<lparr>p_state := RUNNABLE\<rparr>)) (\<lambda>_.
     sched)))"

definition yield_resume :: "bool \<Rightarrow> ('a pstate_scheme, unit) km" where
  "yield_resume ie =
     bnd (sched_resume ie) (\<lambda>_.
     release Lk_ptable)"

definition kill :: "int \<Rightarrow> ('a pstate_scheme, int) km" where
  "kill pid =
     bnd (acquire Lk_ptable) (\<lambda>_.
     bnd (gets (\<lambda>s. find_idx (\<lambda>p. p_pid p = pid) (procs s))) (\<lambda>r.
     case r of
       None \<Rightarrow> bnd (release Lk_ptable) (\<lambda>_. ret (- 1))
     | Some i \<Rightarrow>
         bnd (set_proc i (\<lambda>p. p\<lparr>p_killed := True\<rparr>)) (\<lambda>_.
         bnd (gets (\<lambda>s. p_state (procs s ! i))) (\<lambda>st.
         bnd (if st = SLEEPING then set_proc i (\<lambda>p. p\<lparr>p_state := RUNNABLE\<rparr>) else ret ()) (\<lambda>_.
         bnd (release Lk_ptable) (\<lambda>_.
         ret 0))))))"

section \<open>Lemmas\<close>

lemma lk_take_pstate [simp]:
  "procs (lk_take lk s) = procs s" "curproc (lk_take lk s) = curproc s"
  "initproc (lk_take lk s) = initproc s" "nextpid (lk_take lk s) = nextpid s"
  "(lk_take lk s)\<lparr>procs := ps\<rparr> = lk_take lk (s\<lparr>procs := ps\<rparr>)"
  "(lk_take lk s)\<lparr>nextpid := n\<rparr> = lk_take lk (s\<lparr>nextpid := n\<rparr>)"
  by (simp_all add: lk_take_def)

lemma lk_free_pstate [simp]:
  "lk_free lk (s\<lparr>procs := ps\<rparr>) = lk_free lk s" "lk_free lk (s\<lparr>nextpid := n\<rparr>) = lk_free lk s"
  "lk_free lk (s\<lparr>curproc := c\<rparr>) = lk_free lk s"
  by (simp_all add: lk_free_def)

lemma no_locks_pstate [simp]:
  "no_locks (s\<lparr>procs := ps\<rparr>) = no_locks s" "no_locks (s\<lparr>nextpid := n\<rparr>) = no_locks s"
  "no_locks (s\<lparr>curproc := c\<rparr>) = no_locks s"
  by (simp_all add: no_locks_def del: no_locks_free no_locks_cli)

text \<open>
  \<open>wakeup\<close> runs wherever \<open>ptable.lock\<close> is free, whatever other locks the caller holds.
\<close>

lemma wakeup_run:
  assumes "lk_free Lk_ptable s" and "cli_ok (mcpu s)"
  shows "wakeup ch s = Inr ((), s\<lparr>procs := map (wake ch) (procs s)\<rparr>)"
  using assms by (simp add: wakeup_def wakeup_code_def wakeup1_def bnd_def run acquire_run release_take)

text \<open>What a sequence of wake-ups may do to the process table.\<close>

definition woken :: "proc list \<Rightarrow> proc list \<Rightarrow> bool" where
  "woken ps qs \<longleftrightarrow> list_all2 (\<lambda>p q. q = p \<or> p_state p = SLEEPING \<and> q = p\<lparr>p_state := RUNNABLE\<rparr>) ps qs"

lemma woken_refl [simp]: "woken ps ps"
  by (simp add: woken_def list.rel_refl)

lemma woken_trans: "woken ps qs \<Longrightarrow> woken qs rs \<Longrightarrow> woken ps rs"
  unfolding woken_def by (rule list_all2_trans) auto

lemma woken_wake [simp]: "woken ps (map (wake ch) ps)"
  by (auto simp: woken_def list_all2_conv_all_nth wake_def)

lemma woken_length: "woken ps qs \<Longrightarrow> length qs = length ps"
  by (auto simp: woken_def dest: list_all2_lengthD)

subsection \<open>Going to sleep\<close>

lemma lk_take_commute: "lk \<noteq> lk' \<Longrightarrow> lk_take lk (lk_take lk' s) = lk_take lk' (lk_take lk s)"
  by (simp add: lk_take_def fun_upd_twist)

lemma sched_run:
  assumes "no_locks s" and "ncli (mcpu s) = 0" and "curproc s = Some i"
    and "p_state (procs s ! i) \<noteq> RUNNING"
  shows "sched (lk_take Lk_ptable s) = Inl (Swtch, lk_take Lk_ptable s)"
proof -
  have "holding Lk_ptable (lk_take Lk_ptable s) = Inr (True, lk_take Lk_ptable s)"
    by (simp add: holding_def run lk_take_def)
  moreover have "ncli (cli_push (mcpu s)) = 1" "\<not> iflag (cli_push (mcpu s))"
    using assms(2) by (simp_all add: cli_push_def)
  ultimately show ?thesis
    using assms by (simp add: sched_def bnd_def run myproc_def)
qed

text \<open>
  A caller that holds exactly \<open>lk\<close> falls asleep: \<open>lk\<close> is given back, the process is marked, and
  \<open>ptable.lock\<close> is handed to the scheduler.
\<close>

lemma sleep_run:
  assumes "no_locks s" and "ncli (mcpu s) = 0" and "curproc s = Some i" and "i < length (procs s)"
  shows "sleep ch lk (lk_take lk s) = Inl (Swtch, lk_take Lk_ptable
    (s\<lparr>procs := (procs s)[i := (procs s ! i)\<lparr>p_chan := ch, p_state := SLEEPING\<rparr>]\<rparr>))"
proof -
  let ?t = "s\<lparr>procs := (procs s)[i := (procs s ! i)\<lparr>p_chan := ch, p_state := SLEEPING\<rparr>]\<rparr>"
  have sc: "sched (lk_take Lk_ptable ?t) = Inl (Swtch, lk_take Lk_ptable ?t)"
    by (rule sched_run [where i = i]) (use assms in simp_all)
  show ?thesis
  proof (cases "lk = Lk_ptable")
    case True
    with assms sc show ?thesis by (simp add: sleep_def sleep_code_def bnd_def run set_proc_def)
  next
    case False
    have "release lk (lk_take Lk_ptable (lk_take lk s)) = Inr ((), lk_take Lk_ptable s)"
      unfolding lk_take_commute [OF False [symmetric]] using False assms by (simp add: release_take)
    with False assms sc show ?thesis
      by (simp add: sleep_def sleep_code_def bnd_def run set_proc_def acquire_run)
  qed
qed

section \<open>A concrete state\<close>

definition proc0 :: proc where
  "proc0 = \<lparr>p_sz = 0, p_pgdir = 0, p_kstack = 0, p_state = RUNNING, p_pid = 1, p_parent = None, p_tf = 0, p_context = 0,
     p_chan = ChNull, p_killed = False, p_ofile = replicate NOFILE None, p_cwd = None, p_name = []\<rparr>"

definition ps0 :: pstate where
  "ps0 = kmstate.extend km0 \<lparr>procs = [proc0], curproc = Some 0, initproc = Some 0, nextpid = 2\<rparr>"

end
