(* ===== verification/Bytes.thy ===== *)
theory Bytes
  imports Prelude
begin

text \<open>
  The data area of a disk block as a list of bytes, with the little-endian 16- and 32-bit fields
  that the C code reads and writes through pointers to structures (\<open>struct logheader\<close>,
  \<open>struct superblock\<close>, \<open>struct dinode\<close>, \<open>struct dirent\<close>, arrays of \<open>uint\<close>), and the byte ranges
  that it copies with \<open>memmove\<close>.
\<close>

definition get16 :: "u8 list \<Rightarrow> nat \<Rightarrow> u16" where
  "get16 d i = ucast (d ! i) OR push_bit 8 (ucast (d ! (i + 1)))"

definition put16 :: "u8 list \<Rightarrow> nat \<Rightarrow> u16 \<Rightarrow> u8 list" where
  "put16 d i v = d[i := ucast v, i + 1 := ucast (drop_bit 8 v)]"

definition get32 :: "u8 list \<Rightarrow> nat \<Rightarrow> u32" where
  "get32 d i = ucast (d ! i) OR push_bit 8 (ucast (d ! (i + 1)))
     OR push_bit 16 (ucast (d ! (i + 2))) OR push_bit 24 (ucast (d ! (i + 3)))"

definition put32 :: "u8 list \<Rightarrow> nat \<Rightarrow> u32 \<Rightarrow> u8 list" where
  "put32 d i v = d[i := ucast v, i + 1 := ucast (drop_bit 8 v),
     i + 2 := ucast (drop_bit 16 v), i + 3 := ucast (drop_bit 24 v)]"

text \<open>\<open>n\<close> bytes from offset \<open>i\<close>, and the block with \<open>xs\<close> copied to offset \<open>i\<close>.\<close>

definition slice :: "'a list \<Rightarrow> nat \<Rightarrow> nat \<Rightarrow> 'a list" where
  "slice d i n = take n (drop i d)"

definition splice :: "'a list \<Rightarrow> nat \<Rightarrow> 'a list \<Rightarrow> 'a list" where
  "splice d i xs = take i d @ xs @ drop (i + length xs) d"

section \<open>Fields\<close>

lemma length_put16 [simp]: "length (put16 d i v) = length d"
  by (simp add: put16_def)

lemma length_put32 [simp]: "length (put32 d i v) = length d"
  by (simp add: put32_def)

lemma get16_put16 [simp]: "i + 1 < length d \<Longrightarrow> get16 (put16 d i v) i = v"
  using bytes_word16 [of v] by (simp add: get16_def put16_def)

lemma get32_put32 [simp]: "i + 3 < length d \<Longrightarrow> get32 (put32 d i v) i = v"
  using bytes_word32 [of v] by (simp add: get32_def put32_def)

lemma nth_put32: "j < i \<or> i + 4 \<le> j \<Longrightarrow> put32 d i v ! j = d ! j"
  by (auto simp: put32_def)

lemma nth_put16: "j < i \<or> i + 2 \<le> j \<Longrightarrow> put16 d i v ! j = d ! j"
  by (auto simp: put16_def)

lemma get32_cong: "(\<And>k. k < 4 \<Longrightarrow> d ! (i + k) = e ! (j + k)) \<Longrightarrow> get32 d i = get32 e j"
proof -
  assume *: "\<And>k. k < 4 \<Longrightarrow> d ! (i + k) = e ! (j + k)"
  from *[of 0] *[of 1] *[of 2] *[of 3] show ?thesis by (simp add: get32_def)
qed

lemma get16_cong: "(\<And>k. k < 2 \<Longrightarrow> d ! (i + k) = e ! (j + k)) \<Longrightarrow> get16 d i = get16 e j"
proof -
  assume *: "\<And>k. k < 2 \<Longrightarrow> d ! (i + k) = e ! (j + k)"
  from *[of 0] *[of 1] show ?thesis by (simp add: get16_def)
qed

lemma get32_put32_other [simp]: "i + 4 \<le> j \<or> j + 4 \<le> i \<Longrightarrow> get32 (put32 d i v) j = get32 d j"
  by (rule get32_cong) (auto intro: nth_put32)

lemma get32_put16_other [simp]: "i + 2 \<le> j \<or> j + 4 \<le> i \<Longrightarrow> get32 (put16 d i v) j = get32 d j"
  by (rule get32_cong) (auto intro: nth_put16)

lemma get16_put16_other [simp]: "i + 2 \<le> j \<or> j + 2 \<le> i \<Longrightarrow> get16 (put16 d i v) j = get16 d j"
  by (rule get16_cong) (auto intro: nth_put16)

lemma get16_put32_other [simp]: "i + 4 \<le> j \<or> j + 2 \<le> i \<Longrightarrow> get16 (put32 d i v) j = get16 d j"
  by (rule get16_cong) (auto intro: nth_put32)

section \<open>Byte ranges\<close>

lemma length_slice: "i + n \<le> length d \<Longrightarrow> length (slice d i n) = n"
  by (simp add: slice_def)

lemma nth_slice: "k < n \<Longrightarrow> i + n \<le> length d \<Longrightarrow> slice d i n ! k = d ! (i + k)"
  by (simp add: slice_def)

lemma length_splice [simp]: "i + length xs \<le> length d \<Longrightarrow> length (splice d i xs) = length d"
  by (simp add: splice_def)

lemma nth_splice:
  "i + length xs \<le> length d \<Longrightarrow> k < length d \<Longrightarrow>
     splice d i xs ! k = (if k < i \<or> i + length xs \<le> k then d ! k else xs ! (k - i))"
  by (auto simp: splice_def nth_append min_def)

lemma slice_splice [simp]: "i + length xs \<le> length d \<Longrightarrow> n = length xs \<Longrightarrow> slice (splice d i xs) i n = xs"
  by (simp add: slice_def splice_def)

lemma slice_splice_other:
  "i + length xs \<le> length d \<Longrightarrow> j + n \<le> i \<or> i + length xs \<le> j \<Longrightarrow> j + n \<le> length d \<Longrightarrow>
     slice (splice d i xs) j n = slice d j n"
  by (rule nth_equalityI) (auto simp: length_slice nth_slice nth_splice)

lemma splice_slice [simp]: "i + n \<le> length d \<Longrightarrow> splice d i (slice d i n) = d"
  by (simp add: splice_def slice_def) (metis append_take_drop_id drop_drop add.commute)

lemma slice_whole [simp]: "n = length d \<Longrightarrow> slice d 0 n = d"
  by (simp add: slice_def)

lemma splice_whole [simp]: "length xs = length d \<Longrightarrow> splice d 0 xs = xs"
  by (simp add: splice_def)

end
