(* ===== verification/Bio.thy ===== *)
theory Bio
  imports Sched Bytes
begin

text \<open>
  The buffer cache (\<open>bio.c\<close>, \<open>buf.h\<close>) on the memory disk (\<open>memide.c\<close>). A buffer is an index of
  \<open>bcache.buf\<close>; the list head \<open>bcache.head\<close>, which the structure places after the array, is the
  index \<open>NBUF\<close>. The state keeps, next to the disk contents, the sequence of block writes done so
  far; no code reads it, it only serves to speak about a crash between two writes.
\<close>

section \<open>State\<close>

record buf =
  b_flags :: u32
  b_dev :: u32
  b_blockno :: u32
  b_prev :: nat
  b_next :: nat
  b_qnext :: "nat option"
  b_data :: "u8 list"

definition B_BUSY :: u32 where "B_BUSY = 1"

definition B_VALID :: u32 where "B_VALID = 2"

definition B_DIRTY :: u32 where "B_DIRTY = 4"

definition NBUF :: nat where "NBUF = 30"

definition BSIZE :: nat where "BSIZE = 512"

record bstate = pstate +
  memdisk :: "u32 \<Rightarrow> u8 list"
  disksize :: u32
  dwrites :: "(u32 \<times> u8 list) list"
  bufs :: "buf list"

definition set_buf :: "nat \<Rightarrow> (buf \<Rightarrow> buf) \<Rightarrow> ('a bstate_scheme, unit) km" where
  "set_buf i f = upd (\<lambda>s. s\<lparr>bufs := (bufs s)[i := f (bufs s ! i)]\<rparr>)"

definition get_buf :: "nat \<Rightarrow> ('a bstate_scheme, buf) km" where
  "get_buf i = gets (\<lambda>s. bufs s ! i)"

section \<open>The memory disk\<close>

definition iderw :: "nat \<Rightarrow> ('a bstate_scheme, unit) km" where
  "iderw i =
     bnd (get_buf i) (\<lambda>b.
     if b_flags b AND B_BUSY = 0 then panic ''iderw: buf not busy''
     else if b_flags b AND (B_VALID OR B_DIRTY) = B_VALID then panic ''iderw: nothing to do''
     else if b_dev b \<noteq> 1 then panic ''iderw: request not for disk 1''
     else bnd (gets disksize) (\<lambda>n.
     if b_blockno b \<ge> n then panic ''iderw: block out of range''
     else
       bnd (if b_flags b AND B_DIRTY \<noteq> 0
            then bnd (set_buf i (\<lambda>b. b\<lparr>b_flags := b_flags b AND NOT B_DIRTY\<rparr>)) (\<lambda>_.
              upd (\<lambda>s. s\<lparr>memdisk := (memdisk s)(b_blockno b := b_data b),
                dwrites := dwrites s @ [(b_blockno b, b_data b)]\<rparr>))
            else bnd (gets (\<lambda>s. memdisk s (b_blockno b))) (\<lambda>d. set_buf i (\<lambda>b. b\<lparr>b_data := d\<rparr>))) (\<lambda>_.
       set_buf i (\<lambda>b. b\<lparr>b_flags := b_flags b OR B_VALID\<rparr>))))"

section \<open>The buffer cache\<close>

text \<open>Assignments to the list pointers.\<close>

definition set_prev :: "buf list \<Rightarrow> nat \<Rightarrow> nat \<Rightarrow> buf list" where
  "set_prev bs p v = bs[p := (bs ! p)\<lparr>b_prev := v\<rparr>]"

definition set_next :: "buf list \<Rightarrow> nat \<Rightarrow> nat \<Rightarrow> buf list" where
  "set_next bs p v = bs[p := (bs ! p)\<lparr>b_next := v\<rparr>]"

definition upd_bufs :: "(buf list \<Rightarrow> buf list) \<Rightarrow> ('a bstate_scheme, unit) km" where
  "upd_bufs f = upd (\<lambda>s. s\<lparr>bufs := f (bufs s)\<rparr>)"

definition binit_link :: "nat \<Rightarrow> ('a bstate_scheme, unit) km" where
  "binit_link i =
     bnd (upd_bufs (\<lambda>bs. set_next bs i (b_next (bs ! NBUF)))) (\<lambda>_.
     bnd (upd_bufs (\<lambda>bs. set_prev bs i NBUF)) (\<lambda>_.
     bnd (set_buf i (\<lambda>b. b\<lparr>b_dev := - 1\<rparr>)) (\<lambda>_.
     bnd (upd_bufs (\<lambda>bs. set_prev bs (b_next (bs ! NBUF)) i)) (\<lambda>_.
     upd_bufs (\<lambda>bs. set_next bs NBUF i)))))"

definition binit :: "('a bstate_scheme, unit) km" where
  "binit =
     bnd (initlock Lk_bcache ''bcache'') (\<lambda>_.
     bnd (upd_bufs (\<lambda>bs. set_prev bs NBUF NBUF)) (\<lambda>_.
     bnd (upd_bufs (\<lambda>bs. set_next bs NBUF NBUF)) (\<lambda>_.
     foreach [0..<NBUF] binit_link)))"

text \<open>
  The two scans of \<open>bget\<close> along the list, from the front for the block and from the back for a
  buffer to recycle. The list has \<open>NBUF\<close> elements, so \<open>NBUF + 1\<close> rounds reach the head.
\<close>

fun bget_cached :: "nat \<Rightarrow> u32 \<Rightarrow> u32 \<Rightarrow> nat \<Rightarrow> ('a bstate_scheme, nat option) km" where
  "bget_cached 0 dev bno i = stop Diverges"
| "bget_cached (Suc k) dev bno i =
     (if i = NBUF then ret None
      else bnd (get_buf i) (\<lambda>b.
        if b_dev b = dev \<and> b_blockno b = bno then ret (Some i)
        else bget_cached k dev bno (b_next b)))"

fun bget_recycle :: "nat \<Rightarrow> nat \<Rightarrow> ('a bstate_scheme, nat option) km" where
  "bget_recycle 0 i = stop Diverges"
| "bget_recycle (Suc k) i =
     (if i = NBUF then ret None
      else bnd (get_buf i) (\<lambda>b.
        if b_flags b AND B_BUSY = 0 \<and> b_flags b AND B_DIRTY = 0 then ret (Some i)
        else bget_recycle k (b_prev b)))"

text \<open>
  The code from the label \<open>loop\<close> on, with the lock held. A caller that has to wait for a busy buffer
  stops in \<open>sleep\<close>; when it is scheduled again, it runs \<open>sleep_resume Lk_bcache\<close> and this code again.
\<close>

definition bget_loop :: "u32 \<Rightarrow> u32 \<Rightarrow> ('a bstate_scheme, nat) km" where
  "bget_loop dev bno =
     bnd (get_buf NBUF) (\<lambda>h.
     bnd (bget_cached (NBUF + 1) dev bno (b_next h)) (\<lambda>r.
     case r of
       Some i \<Rightarrow>
         bnd (get_buf i) (\<lambda>b.
         if b_flags b AND B_BUSY = 0 then
           bnd (set_buf i (\<lambda>b. b\<lparr>b_flags := b_flags b OR B_BUSY\<rparr>)) (\<lambda>_.
           bnd (release Lk_bcache) (\<lambda>_.
           ret i))
         else sleep (ChBuf i) Lk_bcache)
     | None \<Rightarrow>
         bnd (bget_recycle (NBUF + 1) (b_prev h)) (\<lambda>r.
         case r of
           Some i \<Rightarrow>
             bnd (set_buf i (\<lambda>b. b\<lparr>b_dev := dev\<rparr>)) (\<lambda>_.
             bnd (set_buf i (\<lambda>b. b\<lparr>b_blockno := bno\<rparr>)) (\<lambda>_.
             bnd (set_buf i (\<lambda>b. b\<lparr>b_flags := B_BUSY\<rparr>)) (\<lambda>_.
             bnd (release Lk_bcache) (\<lambda>_.
             ret i))))
         | None \<Rightarrow> panic ''bget: no buffers'')))"

definition bget :: "u32 \<Rightarrow> u32 \<Rightarrow> ('a bstate_scheme, nat) km" where
  "bget dev bno = bnd (acquire Lk_bcache) (\<lambda>_. bget_loop dev bno)"

definition bread :: "u32 \<Rightarrow> u32 \<Rightarrow> ('a bstate_scheme, nat) km" where
  "bread dev bno =
     bnd (bget dev bno) (\<lambda>i.
     bnd (get_buf i) (\<lambda>b.
     bnd (if b_flags b AND B_VALID = 0 then iderw i else ret ()) (\<lambda>_.
     ret i)))"

definition bwrite :: "nat \<Rightarrow> ('a bstate_scheme, unit) km" where
  "bwrite i =
     bnd (get_buf i) (\<lambda>b.
     if b_flags b AND B_BUSY = 0 then panic ''bwrite''
     else bnd (set_buf i (\<lambda>b. b\<lparr>b_flags := b_flags b OR B_DIRTY\<rparr>)) (\<lambda>_. iderw i))"

definition brelse :: "nat \<Rightarrow> ('a bstate_scheme, unit) km" where
  "brelse i =
     bnd (get_buf i) (\<lambda>b.
     if b_flags b AND B_BUSY = 0 then panic ''brelse''
     else
       bnd (acquire Lk_bcache) (\<lambda>_.
       bnd (upd_bufs (\<lambda>bs. set_prev bs (b_next (bs ! i)) (b_prev (bs ! i)))) (\<lambda>_.
       bnd (upd_bufs (\<lambda>bs. set_next bs (b_prev (bs ! i)) (b_next (bs ! i)))) (\<lambda>_.
       bnd (upd_bufs (\<lambda>bs. set_next bs i (b_next (bs ! NBUF)))) (\<lambda>_.
       bnd (upd_bufs (\<lambda>bs. set_prev bs i NBUF)) (\<lambda>_.
       bnd (upd_bufs (\<lambda>bs. set_prev bs (b_next (bs ! NBUF)) i)) (\<lambda>_.
       bnd (upd_bufs (\<lambda>bs. set_next bs NBUF i)) (\<lambda>_.
       bnd (set_buf i (\<lambda>x. x\<lparr>b_flags := b_flags x AND NOT B_BUSY\<rparr>)) (\<lambda>_.
       bnd (wakeup (ChBuf i)) (\<lambda>_.
       release Lk_bcache))))))))))"

section \<open>Flags\<close>

abbreviation busy :: "buf \<Rightarrow> bool" where "busy b \<equiv> bit (b_flags b) 0"

abbreviation valid :: "buf \<Rightarrow> bool" where "valid b \<equiv> bit (b_flags b) 1"

abbreviation dirty :: "buf \<Rightarrow> bool" where "dirty b \<equiv> bit (b_flags b) 2"

lemma flag_tests [flag_simps]:
  fixes f :: u32
  shows "f AND B_BUSY = 0 \<longleftrightarrow> \<not> bit f 0" and "f AND B_VALID = 0 \<longleftrightarrow> \<not> bit f 1"
    and "f AND B_DIRTY = 0 \<longleftrightarrow> \<not> bit f 2"
  using and_exp_eq_0_iff_not_bit [of f 0] and_exp_eq_0_iff_not_bit [of f 1]
    and_exp_eq_0_iff_not_bit [of f 2]
  by (simp_all add: B_BUSY_def B_VALID_def B_DIRTY_def)

lemma flag_bits [flag_simps]:
  "bit B_BUSY n \<longleftrightarrow> n = 0" "bit B_VALID n \<longleftrightarrow> n = 1" "bit B_DIRTY n \<longleftrightarrow> n = 2"
  using bit_exp_iff [of 0 n, where 'a = u32] bit_exp_iff [of 1 n, where 'a = u32]
    bit_exp_iff [of 2 n, where 'a = u32]
  by (auto simp: B_BUSY_def B_VALID_def B_DIRTY_def bit_1_iff)

lemma flag_clean_valid [flag_simps]:
  fixes f :: u32
  shows "f AND (B_VALID OR B_DIRTY) = B_VALID \<longleftrightarrow> bit f 1 \<and> \<not> bit f 2"
proof
  assume *: "f AND (B_VALID OR B_DIRTY) = B_VALID"
  then have "bit (f AND (B_VALID OR B_DIRTY)) n = bit B_VALID n" for n by simp
  from this [of 1] this [of 2] show "bit f 1 \<and> \<not> bit f 2" by (simp add: bit_simps flag_bits)
next
  assume "bit f 1 \<and> \<not> bit f 2"
  then show "f AND (B_VALID OR B_DIRTY) = B_VALID"
    by (intro bit_word_eqI) (auto simp: bit_and_iff bit_or_iff flag_bits)
qed

declare bit_and_iff [flag_simps] bit_or_iff [flag_simps]

lemma bit_not_u32 [flag_simps]: "bit (NOT f :: u32) n \<longleftrightarrow> n < 32 \<and> \<not> bit f n"
  by (simp add: bit_not_iff)

section \<open>The list of buffers\<close>

text \<open>
  Consecutive elements are linked both ways; the cache is a ring through the head that contains
  every buffer once, most recently used first.
\<close>

fun dl :: "(nat \<Rightarrow> nat) \<Rightarrow> (nat \<Rightarrow> nat) \<Rightarrow> nat list \<Rightarrow> bool" where
  "dl f g (x # y # zs) \<longleftrightarrow> f x = y \<and> g y = x \<and> dl f g (y # zs)"
| "dl f g _ \<longleftrightarrow> True"

definition nxt :: "buf list \<Rightarrow> nat \<Rightarrow> nat" where "nxt bs i = b_next (bs ! i)"

definition prv :: "buf list \<Rightarrow> nat \<Rightarrow> nat" where "prv bs i = b_prev (bs ! i)"

definition ring :: "buf list \<Rightarrow> nat list \<Rightarrow> bool" where
  "ring bs xs \<longleftrightarrow> length bs = NBUF + 1 \<and> distinct xs \<and> set xs = {..<NBUF}
     \<and> dl (nxt bs) (prv bs) (NBUF # xs @ [NBUF])"

lemma dl_append: "dl f g (xs @ y # zs) \<longleftrightarrow> dl f g (xs @ [y]) \<and> dl f g (y # zs)"
  by (induction f g xs rule: dl.induct) auto

lemma dl_append2: "dl f g (xs @ [l] @ c # ys) \<longleftrightarrow> dl f g (xs @ [l]) \<and> f l = c \<and> g c = l \<and> dl f g (c # ys)"
  using dl_append [of f g xs l "c # ys"] by auto

lemma dl_cong:
  "(\<And>x. x \<in> set (butlast xs) \<Longrightarrow> f x = f' x) \<Longrightarrow> (\<And>x. x \<in> set (tl xs) \<Longrightarrow> g x = g' x) \<Longrightarrow>
     dl f g xs = dl f' g' xs"
proof (induction f g xs rule: dl.induct)
  case (1 f g x y zs)
  have "dl f g (y # zs) = dl f' g' (y # zs)"
    by (rule 1(1)) (use 1(2,3) in \<open>auto split: if_splits\<close>)
  with 1(2,3) show ?case by simp
qed auto

lemma dl_rev: "dl f g (rev xs) = dl g f xs"
proof (induction g f xs rule: dl.induct)
  case (1 f g x y zs)
  then show ?case using dl_append [of g f "rev zs" y "[x]"] by auto
qed auto

text \<open>Taking an element out of the list and putting it in front.\<close>

lemma dl_remove:
  assumes "dl f g (xs @ [l] @ i # c # ys)" and "distinct (xs @ [l] @ butlast (c # ys))"
    and "c \<notin> set (tl (xs @ [l]))" and "c \<notin> set ys"
  shows "dl (f(l := c)) (g(c := l)) (xs @ [l] @ c # ys)"
proof -
  have "dl f g (xs @ [l])" "dl f g (c # ys)"
    using assms(1) dl_append2 [of f g xs l i "c # ys"] by auto
  moreover have "dl (f(l := c)) (g(c := l)) (xs @ [l]) = dl f g (xs @ [l])"
    using assms(2,3) by (intro dl_cong) auto
  moreover have "dl (f(l := c)) (g(c := l)) (c # ys) = dl f g (c # ys)"
    using assms(2,4) by (intro dl_cong) auto
  ultimately show ?thesis by (simp add: dl_append2 [simplified])
qed

lemma dl_insert:
  assumes "dl f g (h # x # ys)" and "h \<notin> set (butlast (x # ys))" and "x \<notin> set ys"
    and "i \<noteq> h" and "i \<notin> set (x # ys)"
  shows "dl (f(i := x, h := i)) (g(i := h, x := i)) (h # i # x # ys)"
proof -
  have "dl (f(i := x, h := i)) (g(i := h, x := i)) (x # ys) = dl f g (x # ys)"
    using assms by (intro dl_cong) (auto dest: in_set_butlastD split: if_splits)
  with assms show ?thesis by auto
qed

lemma field_set:
  "b_prev (bs[p := (bs ! p)\<lparr>b_next := v\<rparr>] ! x) = b_prev (bs ! x)"
  "b_next (bs[p := (bs ! p)\<lparr>b_prev := v\<rparr>] ! x) = b_next (bs ! x)"
  by (simp_all add: nth_update_if)

lemma links_set [simp]:
  "p < length bs \<Longrightarrow> nxt (set_next bs p v) = (nxt bs)(p := v)" "prv (set_next bs p v) = prv bs"
  "p < length bs \<Longrightarrow> prv (set_prev bs p v) = (prv bs)(p := v)" "nxt (set_prev bs p v) = nxt bs"
  "length (set_next bs p v) = length bs" "length (set_prev bs p v) = length bs"
  by (auto simp: fun_eq_iff nxt_def prv_def set_next_def set_prev_def nth_list_update field_set)

text \<open>The six assignments of \<open>brelse\<close>.\<close>

definition mtf :: "buf list \<Rightarrow> nat \<Rightarrow> buf list" where
  "mtf bs i =
     (let bs1 = set_prev bs (nxt bs i) (prv bs i);
          bs2 = set_next bs1 (prv bs1 i) (nxt bs1 i);
          bs3 = set_next bs2 i (nxt bs2 NBUF);
          bs4 = set_prev bs3 i NBUF;
          bs5 = set_prev bs4 (nxt bs4 NBUF) i
      in set_next bs5 NBUF i)"

lemma dl_move_front:
  assumes "dl f g (h # as @ i # cs @ [h])" and "distinct (h # as @ i # cs)"
  shows "dl (f(g i := f i, i := (f(g i := f i)) h, h := i))
           (g(f i := g i, i := h, (f(g i := f i)) h := i)) (h # i # as @ cs @ [h])"
    and "f i \<in> set (h # cs)" and "g i \<in> set (h # as)"
proof -
  obtain us l where l: "h # as = us @ [l]" by (metis append_butlast_last_id list.distinct(1))
  obtain c vs where c: "cs @ [h] = c # vs" by (cases "cs @ [h]") auto
  obtain x ws where x: "as @ cs @ [h] = x # ws" by (cases "as @ cs @ [h]") auto
  have bl: "butlast (c # vs) = cs" "butlast (x # ws) = as @ cs"
    using arg_cong [OF c, of butlast] arg_cong [OF x, of butlast]
    by (simp_all add: butlast_append split: if_splits)
  have tl: "tl (us @ [l]) = as" using l by (metis list.sel(3))
  have cm: "c \<in> set (h # cs)" and lm: "l \<in> set (h # as)"
    using arg_cong [OF c, of set] arg_cong [OF l, of set] by auto
  have dc: "distinct (c # vs)" "distinct (x # ws)"
    using assms(2) unfolding c [symmetric] x [symmetric] by auto
  have d: "dl f g (us @ [l] @ i # c # vs)"
    using assms(1) l c by (metis append_Cons append_assoc append_Nil)
  then have fi: "f i = c" and gi: "g i = l" by (simp_all add: dl_append2 [simplified])
  with cm lm show "f i \<in> set (h # cs)" "g i \<in> set (h # as)" by simp_all
  have "dl (f(l := c)) (g(c := l)) (us @ [l] @ c # vs)"
    using d
  proof (rule dl_remove)
    have "us @ [l] @ butlast (c # vs) = h # as @ cs" using l bl by simp
    then show "distinct (us @ [l] @ butlast (c # vs))" using assms(2) by simp
    show "c \<notin> set (tl (us @ [l]))" using tl cm assms(2) by auto
    show "c \<notin> set vs" using dc by simp
  qed
  then have d2: "dl (f(l := c)) (g(c := l)) (h # x # ws)"
    using l c x by (metis append_Cons append_assoc)
  then have hx: "(f(l := c)) h = x" by simp
  have "dl (f(l := c, i := x, h := i)) (g(c := l, i := h, x := i)) (h # i # x # ws)"
    using d2
  proof (rule dl_insert)
    show "h \<notin> set (butlast (x # ws))" using bl assms(2) by simp
    show "i \<notin> set (x # ws)" unfolding x [symmetric] using assms(2) by auto
  qed (use dc assms(2) in auto)
  then show "dl (f(g i := f i, i := (f(g i := f i)) h, h := i))
      (g(f i := g i, i := h, (f(g i := f i)) h := i)) (h # i # as @ cs @ [h])"
    unfolding fi gi hx x .
qed

lemma length_mtf [simp]: "length (mtf bs i) = length bs"
  by (simp add: mtf_def Let_def)

lemma ring_mtf:
  assumes "ring bs xs" and "i < NBUF"
  shows "ring (mtf bs i) (i # remove1 i xs)"
proof -
  have i: "i \<in> set xs" and len: "length bs = NBUF + 1" using assms by (auto simp: ring_def)
  then obtain as cs where xs: "xs = as @ i # cs" "i \<notin> set as" using split_list_first by metis
  have dl: "dl (nxt bs) (prv bs) (NBUF # as @ i # cs @ [NBUF])" and dis: "distinct (NBUF # as @ i # cs)"
    and se: "set as \<union> set cs \<union> {i} = {..<NBUF}" "i \<notin> set cs"
    using assms(1) xs by (auto simp: ring_def)
  note mv = dl_move_front [OF dl dis]
  have bnd: "x < length bs" if "x \<in> set (NBUF # as) \<union> set (NBUF # cs)" for x
  proof -
    from that have "x = NBUF \<or> x \<in> {..<NBUF}" unfolding se(1) [symmetric] by auto
    then show ?thesis using len by auto
  qed
  have lt: "nxt bs i < length bs" "prv bs i < length bs"
    using mv(2,3) by (simp_all only: bnd Un_iff simp_thms)
  have ne: "nxt bs i \<noteq> i" "prv bs i \<noteq> i" using mv(2,3) dis by auto
  define y where "y = ((nxt bs)(prv bs i := nxt bs i)) NBUF"
  have "y \<in> set (as @ cs @ [NBUF])"
    using mv(1) assms(2) unfolding y_def [symmetric] by (cases "as @ cs") (simp_all add: append_eq_Cons_conv, auto)
  then have lty: "y < length bs" by (intro bnd) auto
  have nH: "NBUF \<noteq> i" "i < length bs" "NBUF < length bs" using assms(2) len by simp_all
  have m: "nxt (mtf bs i) = (nxt bs)(prv bs i := nxt bs i, i := y, NBUF := i)"
    "prv (mtf bs i) = (prv bs)(nxt bs i := prv bs i, i := NBUF, y := i)"
    using lt lty ne nH unfolding mtf_def Let_def y_def by simp_all
  have "dl (nxt (mtf bs i)) (prv (mtf bs i)) (NBUF # (i # remove1 i xs) @ [NBUF])"
    using mv(1) xs unfolding m y_def by (simp add: remove1_append)
  moreover have "set (i # remove1 i xs) = {..<NBUF}" "distinct (i # remove1 i xs)"
    unfolding se(1) [symmetric] using xs dis by (auto simp: remove1_append)
  ultimately show ?thesis using len by (simp only: ring_def length_mtf simp_thms)
qed

text \<open>Moving a buffer changes no field but the pointers.\<close>

definition same_payload :: "buf \<Rightarrow> buf \<Rightarrow> bool" where
  "same_payload a b \<longleftrightarrow> b_flags a = b_flags b \<and> b_dev a = b_dev b \<and> b_blockno a = b_blockno b
     \<and> b_qnext a = b_qnext b \<and> b_data a = b_data b"

lemma same_payload_refl [simp]: "same_payload a a"
  by (simp add: same_payload_def)

lemma same_payload_set:
  "same_payload (set_next bs p v ! j) (bs ! j)" "same_payload (set_prev bs p v ! j) (bs ! j)"
  by (simp_all add: set_next_def set_prev_def nth_update_if same_payload_def)

lemma same_payload_trans: "same_payload a b \<Longrightarrow> same_payload b c \<Longrightarrow> same_payload a c"
  by (simp add: same_payload_def)

lemma same_payload_mtf: "same_payload (mtf bs i ! j) (bs ! j)"
  unfolding mtf_def Let_def
  by (rule same_payload_trans [OF same_payload_set(1)] same_payload_trans [OF same_payload_set(2)]
      same_payload_refl)+

end
