(* ===== verification/Bio_Cache.thy ===== *)
theory Bio_Cache
  imports Bio
begin

text \<open>
  What the buffer cache promises: the invariant of the cache, the contents of a block as its users
  see them (\<open>vw\<close>: the cached copy if there is one, else the disk), and the contract of \<open>bread\<close>,
  \<open>bwrite\<close> and \<open>brelse\<close> over it. \<open>hset\<close> is the set of blocks whose buffers are held by somebody,
  \<open>dset\<close> the set of blocks that are pinned because the log has yet to write them.
\<close>

section \<open>Invariant and abstraction\<close>

abbreviation matches :: "u32 \<Rightarrow> buf \<Rightarrow> bool" where
  "matches bno b \<equiv> b_dev b = 1 \<and> b_blockno b = bno"

definition buf_ok :: "(u32 \<Rightarrow> u8 list) \<Rightarrow> u32 \<Rightarrow> buf \<Rightarrow> bool" where
  "buf_ok D n b \<longleftrightarrow> length (b_data b) = BSIZE
     \<and> (b_dev b = 1 \<longrightarrow> valid b \<and> b_blockno b < n)
     \<and> (busy b \<or> dirty b \<longrightarrow> b_dev b = 1)
     \<and> (b_dev b = 1 \<and> \<not> busy b \<and> \<not> dirty b \<longrightarrow> b_data b = D (b_blockno b))"

definition one_copy :: "buf list \<Rightarrow> bool" where
  "one_copy bs \<longleftrightarrow> (\<forall>i < NBUF. \<forall>j < NBUF. b_dev (bs ! i) = 1 \<and> b_dev (bs ! j) = 1 \<and>
     b_blockno (bs ! i) = b_blockno (bs ! j) \<longrightarrow> i = j)"

definition bc_inv :: "'a bstate_scheme \<Rightarrow> bool" where
  "bc_inv s \<longleftrightarrow> no_locks s \<and> (\<exists>xs. ring (bufs s) xs) \<and> one_copy (bufs s)
     \<and> (\<forall>i < NBUF. buf_ok (memdisk s) (disksize s) (bufs s ! i))
     \<and> (\<forall>b < disksize s. length (memdisk s b) = BSIZE)"

definition cview :: "(u32 \<Rightarrow> u8 list) \<Rightarrow> buf list \<Rightarrow> u32 \<Rightarrow> u8 list" where
  "cview D bs bno = (case find_idx (matches bno) (take NBUF bs) of
     Some i \<Rightarrow> b_data (bs ! i) | None \<Rightarrow> D bno)"

definition vw :: "'a bstate_scheme \<Rightarrow> u32 \<Rightarrow> u8 list" where
  "vw s = cview (memdisk s) (bufs s)"

definition hset :: "'a bstate_scheme \<Rightarrow> u32 set" where
  "hset s = {b_blockno (bufs s ! i) | i. i < NBUF \<and> busy (bufs s ! i)}"

definition dset :: "'a bstate_scheme \<Rightarrow> u32 set" where
  "dset s = {b_blockno (bufs s ! i) | i. i < NBUF \<and> dirty (bufs s ! i)}"

definition held :: "'a bstate_scheme \<Rightarrow> nat \<Rightarrow> u32 \<Rightarrow> bool" where
  "held s i bno \<longleftrightarrow> i < NBUF \<and> busy (bufs s ! i) \<and> b_blockno (bufs s ! i) = bno"

lemma ring_length: "ring bs xs \<Longrightarrow> length bs = NBUF + 1"
  by (simp add: ring_def)

lemma bc_invD:
  assumes "bc_inv s"
  shows "no_locks s" "length (bufs s) = NBUF + 1" "one_copy (bufs s)"
    "i < NBUF \<Longrightarrow> buf_ok (memdisk s) (disksize s) (bufs s ! i)"
    "b < disksize s \<Longrightarrow> length (memdisk s b) = BSIZE"
  using assms by (auto simp: bc_inv_def dest: ring_length)

lemma one_copyD:
  "one_copy bs \<Longrightarrow> i < NBUF \<Longrightarrow> j < NBUF \<Longrightarrow> matches b (bs ! i) \<Longrightarrow> matches b (bs ! j) \<Longrightarrow> i = j"
  by (auto simp: one_copy_def)

lemma cview_hit:
  assumes "one_copy bs" and "length bs = NBUF + 1" and "i < NBUF" and "matches bno (bs ! i)"
  shows "cview D bs bno = b_data (bs ! i)"
proof -
  have "find_idx (matches bno) (take NBUF bs) = Some i"
  proof (rule find_idx_eqI)
    fix j assume "j < i"
    then have "\<not> matches bno (bs ! j)" using one_copyD [OF assms(1), of j i bno] assms(3,4) by auto
    with \<open>j < i\<close> assms(3) show "\<not> matches bno (take NBUF bs ! j)" by simp
  qed (use assms in auto)
  then show ?thesis by (simp add: cview_def)
qed

lemma cview_miss:
  assumes "length bs = NBUF + 1" and "\<forall>i < NBUF. \<not> matches bno (bs ! i)"
  shows "cview D bs bno = D bno"
proof -
  have "find_idx (matches bno) (take NBUF bs) = None"
    unfolding find_idx_None
  proof
    fix b assume "b \<in> set (take NBUF bs)"
    then obtain i where "i < NBUF" "b = bs ! i" by (auto simp: in_set_conv_nth)
    with assms(2) show "\<not> matches bno b" by blast
  qed
  then show ?thesis by (simp add: cview_def)
qed

section \<open>The scans of \<open>bget\<close>\<close>

lemma dl_step: "dl f g ((y # ys) @ [z]) \<Longrightarrow> f y = hd (ys @ [z]) \<and> dl f g (ys @ [z])"
  by (cases ys) simp_all

lemma bget_cached_find:
  "dl (nxt (bufs s)) g (ys @ [NBUF]) \<Longrightarrow> NBUF \<notin> set ys \<Longrightarrow> length ys < k \<Longrightarrow>
     bget_cached k dev bno (hd (ys @ [NBUF])) s =
       Inr (find (\<lambda>i. b_dev (bufs s ! i) = dev \<and> b_blockno (bufs s ! i) = bno) ys, s)"
proof (induction ys arbitrary: k)
  case Nil
  then show ?case by (cases k) (simp_all add: run)
next
  case (Cons y ys)
  then obtain k' where k: "k = Suc k'" by (cases k) auto
  have n: "b_next (bufs s ! y) = hd (ys @ [NBUF])" and d: "dl (nxt (bufs s)) g (ys @ [NBUF])"
    using dl_step [OF Cons.prems(1)] nxt_def [of "bufs s" y] by simp_all
  have "bget_cached k' dev bno (hd (ys @ [NBUF])) s =
      Inr (find (\<lambda>i. b_dev (bufs s ! i) = dev \<and> b_blockno (bufs s ! i) = bno) ys, s)"
    by (rule Cons.IH [OF d]) (use Cons.prems k in simp_all)
  with Cons.prems(2) show ?case unfolding k by (simp add: run get_buf_def n)
qed

lemma bget_recycle_find:
  "dl (prv (bufs s)) g (ys @ [NBUF]) \<Longrightarrow> NBUF \<notin> set ys \<Longrightarrow> length ys < k \<Longrightarrow>
     bget_recycle k (hd (ys @ [NBUF])) s =
       Inr (find (\<lambda>i. \<not> busy (bufs s ! i) \<and> \<not> dirty (bufs s ! i)) ys, s)"
proof (induction ys arbitrary: k)
  case Nil
  then show ?case by (cases k) (simp_all add: run)
next
  case (Cons y ys)
  then obtain k' where k: "k = Suc k'" by (cases k) auto
  have n: "b_prev (bufs s ! y) = hd (ys @ [NBUF])" and d: "dl (prv (bufs s)) g (ys @ [NBUF])"
    using dl_step [OF Cons.prems(1)] prv_def [of "bufs s" y] by simp_all
  have "bget_recycle k' (hd (ys @ [NBUF])) s =
      Inr (find (\<lambda>i. \<not> busy (bufs s ! i) \<and> \<not> dirty (bufs s ! i)) ys, s)"
    by (rule Cons.IH [OF d]) (use Cons.prems k in simp_all)
  with Cons.prems(2) show ?case unfolding k by (simp add: run get_buf_def n flag_simps)
qed

lemma ring_scan:
  assumes "ring bs xs"
  shows "nxt bs NBUF = hd (xs @ [NBUF])" "dl (nxt bs) (prv bs) (xs @ [NBUF])" "NBUF \<notin> set xs"
    "prv bs NBUF = hd (rev xs @ [NBUF])" "dl (prv bs) (nxt bs) (rev xs @ [NBUF])" "length xs = NBUF"
proof -
  have d: "dl (nxt bs) (prv bs) (NBUF # xs @ [NBUF])" and s: "set xs = {..<NBUF}" "distinct xs"
    using assms by (simp_all add: ring_def)
  then show "nxt bs NBUF = hd (xs @ [NBUF])" "dl (nxt bs) (prv bs) (xs @ [NBUF])"
    by (cases xs; simp)+
  have r: "dl (prv bs) (nxt bs) (NBUF # rev xs @ [NBUF])"
    using d dl_rev [of "prv bs" "nxt bs" "NBUF # xs @ [NBUF]"] by simp
  then show "prv bs NBUF = hd (rev xs @ [NBUF])" "dl (prv bs) (nxt bs) (rev xs @ [NBUF])"
    by (cases "rev xs"; simp)+
  show "NBUF \<notin> set xs" using s by simp
  show "length xs = NBUF" using s distinct_card by fastforce
qed

section \<open>Running \<open>bget\<close>\<close>

lemma lk_take_bstate [simp]:
  "memdisk (lk_take lk s) = memdisk s" "disksize (lk_take lk s) = disksize s"
  "dwrites (lk_take lk s) = dwrites s" "bufs (lk_take lk s) = bufs s"
  "(lk_take lk s)\<lparr>bufs := bs\<rparr> = lk_take lk (s\<lparr>bufs := bs\<rparr>)"
  unfolding lk_take_def by simp_all

lemma lk_free_bstate [simp]:
  "lk_free lk (s\<lparr>bufs := bs\<rparr>) = lk_free lk s" "lk_free lk (s\<lparr>memdisk := d\<rparr>) = lk_free lk s"
  "lk_free lk (s\<lparr>dwrites := w\<rparr>) = lk_free lk s"
  by (simp_all add: lk_free_def)

lemma no_locks_bstate [simp]:
  "no_locks (s\<lparr>bufs := bs\<rparr>) = no_locks s" "no_locks (s\<lparr>memdisk := d\<rparr>) = no_locks s"
  "no_locks (s\<lparr>dwrites := w\<rparr>) = no_locks s"
  by (simp_all add: no_locks_def del: no_locks_free no_locks_cli)

declare bget_cached.simps [simp del] bget_recycle.simps [simp del]

lemma bget_cached_ring:
  assumes "ring (bufs s) xs"
  shows "bget_cached (NBUF + 1) dev bno (b_next (bufs s ! NBUF)) s =
    Inr (find (\<lambda>i. b_dev (bufs s ! i) = dev \<and> b_blockno (bufs s ! i) = bno) xs, s)"
  using bget_cached_find [OF ring_scan(2,3) [OF assms], of "NBUF + 1" dev bno] ring_scan(1,6) [OF assms]
  by (simp add: nxt_def [of _ NBUF])

lemma bget_recycle_ring:
  assumes "ring (bufs s) xs"
  shows "bget_recycle (NBUF + 1) (b_prev (bufs s ! NBUF)) s =
    Inr (find (\<lambda>i. \<not> busy (bufs s ! i) \<and> \<not> dirty (bufs s ! i)) (rev xs), s)"
  using bget_recycle_find [OF ring_scan(5) [OF assms], of "NBUF + 1"] ring_scan(3,4,6) [OF assms]
  by (simp add: prv_def [of _ NBUF])

lemma find_unique:
  assumes "i \<in> set xs" and "P i" and "\<And>j. j \<in> set xs \<Longrightarrow> P j \<Longrightarrow> j = i"
  shows "find P xs = Some i"
proof (cases "find P xs")
  case None
  with assms(1,2) show ?thesis by (auto simp: find_None_iff)
next
  case (Some j)
  then have "j \<in> set xs" "P j" by (auto simp: find_Some_iff)
  with assms(3) Some show ?thesis by blast
qed

lemma find_matches:
  assumes ring: "ring bs xs" and one: "one_copy bs" and i: "i < NBUF" "matches bno (bs ! i)"
  shows "find (\<lambda>j. matches bno (bs ! j)) xs = Some i"
proof (rule find_unique)
  show "i \<in> set xs" using ring i(1) by (simp add: ring_def)
  fix j assume "j \<in> set xs" and "matches bno (bs ! j)"
  moreover from this have "j < NBUF" using ring by (simp add: ring_def)
  ultimately show "j = i" using one_copyD [OF one _ i(1)] i(2) by blast
qed (rule i(2))

lemma bget_hit:
  assumes "no_locks s" and ring: "ring (bufs s) xs" and one: "one_copy (bufs s)"
    and i: "i < NBUF" "matches bno (bufs s ! i)" "\<not> busy (bufs s ! i)"
  shows "bget 1 bno s = Inr (i, s\<lparr>bufs := (bufs s)[i := (bufs s ! i)
    \<lparr>b_flags := b_flags (bufs s ! i) OR B_BUSY\<rparr>]\<rparr>)"
  using find_matches [OF ring one i(1,2)] assms(1) i(3) bget_cached_ring [of "lk_take Lk_bcache s" xs 1 bno] ring
    by (simp add: bget_def bget_loop_def bnd_def run get_buf_def set_buf_def acquire_run release_take
        flag_simps)

lemma bget_miss:
  assumes "no_locks s" and ring: "ring (bufs s) xs" and miss: "\<forall>i < NBUF. \<not> matches bno (bufs s ! i)"
    and free: "j < NBUF" "\<not> busy (bufs s ! j)" "\<not> dirty (bufs s ! j)"
  obtains i where "i < NBUF" "\<not> busy (bufs s ! i)" "\<not> dirty (bufs s ! i)"
    "bget 1 bno s = Inr (i, s\<lparr>bufs := (bufs s)[i := (bufs s ! i)\<lparr>b_dev := 1, b_blockno := bno, b_flags := B_BUSY\<rparr>]\<rparr>)"
proof -
  let ?P = "\<lambda>i. \<not> busy (bufs s ! i) \<and> \<not> dirty (bufs s ! i)"
  have sx: "set xs = {..<NBUF}" using ring by (simp add: ring_def)
  have none: "find (\<lambda>j. matches bno (bufs s ! j)) xs = None"
    unfolding find_None_iff sx using miss by auto
  have "find ?P (rev xs) \<noteq> None"
    unfolding find_None_iff set_rev sx using free by auto
  then obtain i where fi: "find ?P (rev xs) = Some i" by auto
  then have i: "i < NBUF" "?P i" using sx nth_mem [of _ "rev xs"] by (auto simp: find_Some_iff)
  have len: "length (bufs s) = NBUF + 1" using ring by (simp add: ring_def)
  have "bget 1 bno s = Inr (i, s\<lparr>bufs := (bufs s)[i := (bufs s ! i)\<lparr>b_dev := 1, b_blockno := bno, b_flags := B_BUSY\<rparr>]\<rparr>)"
    using assms(1) bget_cached_ring [of "lk_take Lk_bcache s" xs 1 bno] ring none i(1) len fi
      bget_recycle_ring [of "lk_take Lk_bcache s" xs]
    by (simp add: bget_def bget_loop_def bnd_def run get_buf_def set_buf_def acquire_run release_take)
  with i that show thesis by blast
qed

text \<open>With every buffer held or pinned there is nothing to recycle.\<close>

lemma bget_no_buffers:
  assumes "no_locks s" and ring: "ring (bufs s) xs" and miss: "\<forall>i < NBUF. \<not> matches bno (bufs s ! i)"
    and full: "\<forall>j < NBUF. busy (bufs s ! j) \<or> dirty (bufs s ! j)"
  shows "bget 1 bno s = Inl (Panic ''bget: no buffers'', lk_take Lk_bcache s)"
proof -
  have sx: "set xs = {..<NBUF}" using ring by (simp add: ring_def)
  have none: "find (\<lambda>j. matches bno (bufs s ! j)) xs = None"
    unfolding find_None_iff sx using miss by auto
  have "find (\<lambda>i. \<not> busy (bufs s ! i) \<and> \<not> dirty (bufs s ! i)) (rev xs) = None"
    unfolding find_None_iff set_rev sx using full by auto
  then show ?thesis
    using assms(1) bget_cached_ring [of "lk_take Lk_bcache s" xs 1 bno] ring none
      bget_recycle_ring [of "lk_take Lk_bcache s" xs]
    by (simp add: bget_def bget_loop_def bnd_def run get_buf_def acquire_run)
qed

text \<open>A block that somebody holds: the caller sleeps on its buffer.\<close>

lemma bget_sleeps:
  assumes "no_locks s" and ring: "ring (bufs s) xs" and one: "one_copy (bufs s)"
    and i: "i < NBUF" "matches bno (bufs s ! i)" "busy (bufs s ! i)"
    and p: "ncli (mcpu s) = 0" "curproc s = Some p" "p < length (procs s)"
  shows "bget 1 bno s = Inl (Swtch, lk_take Lk_ptable
    (s\<lparr>procs := (procs s)[p := (procs s ! p)\<lparr>p_chan := ChBuf i, p_state := SLEEPING\<rparr>]\<rparr>))"
  using find_matches [OF ring one i(1,2)] assms(1) i(3) bget_cached_ring [of "lk_take Lk_bcache s" xs 1 bno] ring
      sleep_run [OF assms(1) p, of "ChBuf i" Lk_bcache]
    by (simp add: bget_def bget_loop_def bnd_def run get_buf_def acquire_run flag_simps)

section \<open>Claiming a buffer\<close>

lemma ring_update:
  assumes "ring bs xs" and "b_next x = b_next (bs ! i)" and "b_prev x = b_prev (bs ! i)"
  shows "ring (bs[i := x]) xs"
proof -
  have "nxt (bs[i := x]) = nxt bs" "prv (bs[i := x]) = prv bs"
    using assms(2,3) by (auto simp: fun_eq_iff nxt_def prv_def nth_update_if)
  with assms(1) show ?thesis by (simp add: ring_def)
qed

lemma one_copy_update:
  assumes "one_copy bs" and "i < NBUF" and "length bs = NBUF + 1"
    and "\<And>j. j < NBUF \<Longrightarrow> j \<noteq> i \<Longrightarrow> \<not> matches (b_blockno x) (bs ! j)"
  shows "one_copy (bs[i := x])"
  unfolding one_copy_def
proof (intro allI impI, elim conjE)
  fix j k
  assume jk: "j < NBUF" "k < NBUF"
    and d: "b_dev (bs[i := x] ! j) = 1" "b_dev (bs[i := x] ! k) = 1"
    and b: "b_blockno (bs[i := x] ! j) = b_blockno (bs[i := x] ! k)"
  show "j = k"
  proof (cases "j = i \<or> k = i")
    case True
    have "False" if "j = i" "k \<noteq> i" using that d b assms(2,3) assms(4) [OF jk(2) that(2)] by simp
    moreover have "False" if "k = i" "j \<noteq> i" using that d b assms(2,3) assms(4) [OF jk(1) that(2)] by simp
    ultimately show ?thesis using True by blast
  next
    case False
    then show ?thesis
      using one_copyD [OF assms(1) jk, of "b_blockno (bs ! k)"] d b by simp
  qed
qed

lemma dset_update:
  assumes "bc_inv s" and "i < NBUF"
  shows "dset (s\<lparr>bufs := (bufs s)[i := x]\<rparr>) =
    {b_blockno (bufs s ! j) | j. j < NBUF \<and> j \<noteq> i \<and> dirty (bufs s ! j)} \<union> (if dirty x then {b_blockno x} else {})"
  using bc_invD(2) [OF assms(1)] assms(2) by (auto simp: dset_def nth_list_update)

lemma hset_update:
  assumes "bc_inv s" and "i < NBUF"
  shows "hset (s\<lparr>bufs := (bufs s)[i := x]\<rparr>) =
    {b_blockno (bufs s ! j) | j. j < NBUF \<and> j \<noteq> i \<and> busy (bufs s ! j)} \<union> (if busy x then {b_blockno x} else {})"
  using bc_invD(2) [OF assms(1)] assms(2) by (auto simp: hset_def nth_list_update)

lemma dset_split:
  "i < NBUF \<Longrightarrow> dset s = {b_blockno (bufs s ! j) | j. j < NBUF \<and> j \<noteq> i \<and> dirty (bufs s ! j)}
     \<union> (if dirty (bufs s ! i) then {b_blockno (bufs s ! i)} else {})"
  by (auto simp: dset_def)

lemma hset_split:
  "i < NBUF \<Longrightarrow> hset s = {b_blockno (bufs s ! j) | j. j < NBUF \<and> j \<noteq> i \<and> busy (bufs s ! j)}
     \<union> (if busy (bufs s ! i) then {b_blockno (bufs s ! i)} else {})"
  by (auto simp: hset_def)

text \<open>The view after one buffer is replaced.\<close>

lemma cview_update:
  assumes one: "one_copy bs" and len: "length bs = NBUF + 1" and i: "i < NBUF"
    and oth: "\<And>j. j < NBUF \<Longrightarrow> j \<noteq> i \<Longrightarrow> \<not> matches (b_blockno x) (bs ! j)" and x: "b_dev x = 1"
  shows "cview D (bs[i := x]) b =
    (if b = b_blockno x then b_data x
     else if matches b (bs ! i) then D b else cview D bs b)"
proof -
  have one': "one_copy (bs[i := x])" using one_copy_update [OF one i len] oth by blast
  have len': "length (bs[i := x]) = NBUF + 1" using len by simp
  show ?thesis
  proof (cases "b = b_blockno x")
    case True
    then show ?thesis using cview_hit [OF one' len' i, of b D] x i len by simp
  next
    case ne: False
    show ?thesis
    proof (cases "\<exists>j < NBUF. j \<noteq> i \<and> matches b (bs ! j)")
      case True
      then obtain j where j: "j < NBUF" "j \<noteq> i" "matches b (bs ! j)" by blast
      then have "\<not> matches b (bs ! i)" using one_copyD [OF one j(1) i, of b] by blast
      with j ne show ?thesis
        using cview_hit [OF one' len' j(1), of b D] cview_hit [OF one len j(1,3), of D] by auto
    next
      case False
      then have "\<forall>j < NBUF. \<not> matches b (bs[i := x] ! j)"
        using ne len by (auto simp: nth_update_if)
      then have "cview D (bs[i := x]) b = D b" by (rule cview_miss [OF len'])
      moreover have "cview D bs b = D b" if "\<not> matches b (bs ! i)"
        using False that by (intro cview_miss [OF len]) blast
      ultimately show ?thesis using ne by simp
    qed
  qed
qed

lemma bc_inv_update:
  assumes inv: "bc_inv s" and i: "i < NBUF"
    and links: "b_next x = b_next (bufs s ! i)" "b_prev x = b_prev (bufs s ! i)"
    and ok: "buf_ok (memdisk s) (disksize s) x"
    and oth: "\<And>j. j < NBUF \<Longrightarrow> j \<noteq> i \<Longrightarrow> \<not> matches (b_blockno x) (bufs s ! j)"
  shows "bc_inv (s\<lparr>bufs := (bufs s)[i := x]\<rparr>)"
proof -
  obtain xs where "ring (bufs s) xs" using inv by (auto simp: bc_inv_def)
  then have "ring ((bufs s)[i := x]) xs" using links by (rule ring_update)
  moreover have "one_copy ((bufs s)[i := x])"
    using one_copy_update [OF bc_invD(3) [OF inv] i bc_invD(2) [OF inv]] oth by blast
  moreover have "buf_ok (memdisk s) (disksize s) ((bufs s)[i := x] ! j)" if "j < NBUF" for j
    using ok bc_invD(4) [OF inv that] by (simp add: nth_update_if)
  ultimately show ?thesis
    using inv unfolding bc_inv_def by auto
qed

text \<open>
  Somebody takes buffer \<open>i\<close> for block \<open>bno\<close>: either it already caches the block, or nobody does
  and a clean idle buffer is filled from the disk.
\<close>

lemma bc_claim:
  assumes inv: "bc_inv s" and i: "i < NBUF" "\<not> busy (bufs s ! i)"
    and links: "b_next x = b_next (bufs s ! i)" "b_prev x = b_prev (bufs s ! i)"
    and x: "b_dev x = 1" "b_blockno x = bno" "busy x" "valid x"
    and alt: "matches bno (bufs s ! i) \<and> b_data x = b_data (bufs s ! i) \<and> dirty x = dirty (bufs s ! i)
      \<or> (\<forall>j < NBUF. \<not> matches bno (bufs s ! j)) \<and> \<not> dirty (bufs s ! i) \<and> \<not> dirty x
        \<and> b_data x = memdisk s bno \<and> bno < disksize s"
    and t: "t = s\<lparr>bufs := (bufs s)[i := x]\<rparr>"
  shows "bc_inv t" and "vw t = vw s" and "b_data x = vw s bno"
    and "hset t = insert bno (hset s)" and "dset t = dset s"
proof -
  note len = bc_invD(2) [OF inv] and one = bc_invD(3) [OF inv] and bok = bc_invD(4) [OF inv i(1)]
  have oth: "\<not> matches (b_blockno x) (bufs s ! j)" if "j < NBUF" "j \<noteq> i" for j
    using alt that x(2) one_copyD [OF one that(1) i(1), of bno] by auto
  have "buf_ok (memdisk s) (disksize s) x"
    using alt bok x bc_invD(5) [OF inv, of bno] by (auto simp: buf_ok_def)
  then show "bc_inv t" using bc_inv_update [OF inv i(1) links] oth unfolding t by blast
  show v: "b_data x = vw s bno"
    using alt cview_hit [OF one len i(1), of bno "memdisk s"] cview_miss [OF len, of bno "memdisk s"]
    by (auto simp: vw_def)
  show "vw t = vw s"
  proof
    fix b
    have "cview (memdisk s) (bufs s) b = memdisk s b" if "matches b (bufs s ! i)" "b \<noteq> bno"
    proof -
      have "\<not> dirty (bufs s ! i)" using alt that by auto
      then have "b_data (bufs s ! i) = memdisk s b" using bok that i(2) by (auto simp: buf_ok_def)
      with cview_hit [OF one len i(1) that(1)] show ?thesis by simp
    qed
    then show "vw t b = vw s b"
      using cview_update [OF one len i(1) oth x(1), where D = "memdisk s" and b = b] x(2) v by (auto simp: t vw_def)
  qed
  show "hset t = insert bno (hset s)"
    unfolding t hset_update [OF inv i(1)] hset_split [OF i(1), of s] using x i(2) by simp
  show "dset t = dset s"
    unfolding t dset_update [OF inv i(1)] dset_split [OF i(1), of s] using alt x(2) by auto
qed

lemma room_free:
  assumes inv: "bc_inv s" and room: "card (hset s \<union> dset s) < NBUF"
  obtains j where "j < NBUF" "\<not> busy (bufs s ! j)" "\<not> dirty (bufs s ! j)"
proof -
  have "\<exists>j < NBUF. \<not> busy (bufs s ! j) \<and> \<not> dirty (bufs s ! j)"
  proof (rule ccontr)
    assume "\<not> ?thesis"
    then have all: "busy (bufs s ! j) \<or> dirty (bufs s ! j)" if "j < NBUF" for j using that by blast
    have dev: "b_dev (bufs s ! j) = 1" if "j < NBUF" for j
      using all [OF that] bc_invD(4) [OF inv that] by (auto simp: buf_ok_def)
    have "inj_on (\<lambda>j. b_blockno (bufs s ! j)) {..<NBUF}"
      using one_copyD [OF bc_invD(3) [OF inv]] dev by (auto intro!: inj_onI)
    then have "card ((\<lambda>j. b_blockno (bufs s ! j)) ` {..<NBUF}) = NBUF" by (simp add: card_image)
    moreover have "(\<lambda>j. b_blockno (bufs s ! j)) ` {..<NBUF} = hset s \<union> dset s"
      using all by (auto simp: hset_def dset_def)
    ultimately show False using room by simp
  qed
  with that show thesis by blast
qed

lemma held_data:
  assumes "bc_inv s" and "held s i bno"
  shows "b_data (bufs s ! i) = vw s bno" "matches bno (bufs s ! i)" "valid (bufs s ! i)"
    "bno < disksize s" "length (b_data (bufs s ! i)) = BSIZE" "bno \<in> hset s"
proof -
  have i: "i < NBUF" "busy (bufs s ! i)" "b_blockno (bufs s ! i) = bno"
    using assms(2) by (simp_all add: held_def)
  with bc_invD(4) [OF assms(1) i(1)]
  show m: "matches bno (bufs s ! i)" and "valid (bufs s ! i)" "bno < disksize s"
    "length (b_data (bufs s ! i)) = BSIZE"
    by (auto simp: buf_ok_def)
  show "b_data (bufs s ! i) = vw s bno"
    using cview_hit [OF bc_invD(3,2) [OF assms(1)] i(1) m] by (simp add: vw_def)
  show "bno \<in> hset s" using i by (auto simp: hset_def)
qed

lemma held_unique: "bc_inv s \<Longrightarrow> held s i b \<Longrightarrow> held s j b \<Longrightarrow> i = j"
  using held_data(2) [of s i b] held_data(2) [of s j b] one_copyD [OF bc_invD(3), of s i j b]
  by (auto simp: held_def)

lemma held_update:
  assumes "bc_inv s" and "j \<noteq> i"
  shows "held (s\<lparr>bufs := (bufs s)[i := x]\<rparr>) j b = held s j b"
  using assms(2) by (simp add: held_def)

lemma iderw_read:
  assumes "i < length (bufs s)" and "busy (bufs s ! i)" and "\<not> valid (bufs s ! i)" and "\<not> dirty (bufs s ! i)"
    and "b_dev (bufs s ! i) = 1" and "b_blockno (bufs s ! i) < disksize s"
  shows "iderw i s = Inr ((), s\<lparr>bufs := (bufs s)[i := (bufs s ! i)
    \<lparr>b_data := memdisk s (b_blockno (bufs s ! i)), b_flags := b_flags (bufs s ! i) OR B_VALID\<rparr>]\<rparr>)"
  using assms unfolding iderw_def get_buf_def set_buf_def flag_simps
  by (simp add: run not_le)

lemma iderw_write:
  assumes "i < length (bufs s)" and "busy (bufs s ! i)" and "dirty (bufs s ! i)"
    and "b_dev (bufs s ! i) = 1" and "b_blockno (bufs s ! i) < disksize s"
  shows "iderw i s = Inr ((), s\<lparr>memdisk := (memdisk s)(b_blockno (bufs s ! i) := b_data (bufs s ! i)),
    dwrites := dwrites s @ [(b_blockno (bufs s ! i), b_data (bufs s ! i))],
    bufs := (bufs s)[i := (bufs s ! i)\<lparr>b_flags := (b_flags (bufs s ! i) AND NOT B_DIRTY) OR B_VALID\<rparr>]\<rparr>)"
  using assms unfolding iderw_def get_buf_def set_buf_def flag_simps
  by (simp add: run not_le bnd_def)

section \<open>\<open>bread\<close>\<close>

definition bread_post :: "'a bstate_scheme \<Rightarrow> u32 \<Rightarrow> nat \<Rightarrow> 'a bstate_scheme \<Rightarrow> bool" where
  "bread_post s bno i t \<longleftrightarrow> (\<exists>bs. t = s\<lparr>bufs := bs\<rparr>) \<and> bc_inv t \<and> vw t = vw s
     \<and> hset t = insert bno (hset s) \<and> dset t = dset s
     \<and> (\<forall>j b. held t j b \<longleftrightarrow> held s j b \<or> j = i \<and> b = bno)"

lemma bread_post_claim:
  assumes "bc_inv s" and "i < NBUF" "\<not> busy (bufs s ! i)"
    and "b_next x = b_next (bufs s ! i)" "b_prev x = b_prev (bufs s ! i)"
    and "b_dev x = 1" "b_blockno x = bno" "busy x" "valid x"
    and "matches bno (bufs s ! i) \<and> b_data x = b_data (bufs s ! i) \<and> dirty x = dirty (bufs s ! i)
      \<or> (\<forall>j < NBUF. \<not> matches bno (bufs s ! j)) \<and> \<not> dirty (bufs s ! i) \<and> \<not> dirty x
        \<and> b_data x = memdisk s bno \<and> bno < disksize s"
  shows "bread_post s bno i (s\<lparr>bufs := (bufs s)[i := x]\<rparr>)"
proof -
  note c = bc_claim [OF assms refl]
  have "held (s\<lparr>bufs := (bufs s)[i := x]\<rparr>) j b \<longleftrightarrow> held s j b \<or> j = i \<and> b = bno" for j b
    using assms(2,3,7,8) bc_invD(2) [OF assms(1)] by (auto simp: held_def nth_update_if)
  with c show ?thesis unfolding bread_post_def by blast
qed

lemma bread_hit:
  assumes inv: "bc_inv s" and i: "i < NBUF" "matches bno (bufs s ! i)" and h: "bno \<notin> hset s"
  shows "ok (bread 1 bno) s (bread_post s bno)"
proof -
  obtain xs where ring: "ring (bufs s) xs" using inv by (auto simp: bc_inv_def)
  have nb: "\<not> busy (bufs s ! i)" using h i by (auto simp: hset_def)
  have v: "valid (bufs s ! i)" using bc_invD(4) [OF inv i(1)] i(2) by (simp add: buf_ok_def)
  let ?x = "(bufs s ! i)\<lparr>b_flags := b_flags (bufs s ! i) OR B_BUSY\<rparr>"
  have "bread_post s bno i (s\<lparr>bufs := (bufs s)[i := ?x]\<rparr>)"
    by (rule bread_post_claim [OF inv i(1) nb]) (use i v in \<open>simp_all add: flag_simps\<close>)
  moreover have "bread 1 bno s = Inr (i, s\<lparr>bufs := (bufs s)[i := ?x]\<rparr>)"
    using bget_hit [OF bc_invD(1) [OF inv] ring bc_invD(3) [OF inv] i nb] v i bc_invD(2) [OF inv]
    by (simp add: bread_def bnd_def run get_buf_def flag_simps)
  ultimately show ?thesis by (simp add: ok_def)
qed

lemma bread_miss:
  assumes inv: "bc_inv s" and miss: "\<forall>i < NBUF. \<not> matches bno (bufs s ! i)"
    and bno: "bno < disksize s" and room: "card (hset s \<union> dset s) < NBUF"
  shows "ok (bread 1 bno) s (bread_post s bno)"
proof -
  obtain xs where ring: "ring (bufs s) xs" using inv by (auto simp: bc_inv_def)
  obtain j where "j < NBUF" "\<not> busy (bufs s ! j)" "\<not> dirty (bufs s ! j)" by (rule room_free [OF inv room])
  from bget_miss [OF bc_invD(1) [OF inv] ring miss this]
  obtain i where i: "i < NBUF" "\<not> busy (bufs s ! i)" "\<not> dirty (bufs s ! i)"
    and g: "bget 1 bno s = Inr (i, s\<lparr>bufs := (bufs s)[i := (bufs s ! i)\<lparr>b_dev := 1, b_blockno := bno, b_flags := B_BUSY\<rparr>]\<rparr>)" .
  let ?x = "(bufs s ! i)\<lparr>b_dev := 1, b_blockno := bno, b_data := memdisk s bno, b_flags := B_BUSY OR B_VALID\<rparr>"
  have "bread_post s bno i (s\<lparr>bufs := (bufs s)[i := ?x]\<rparr>)"
    by (rule bread_post_claim [OF inv i(1,2)]) (use i miss bno in \<open>simp_all add: flag_simps\<close>)
  moreover have "bread 1 bno s = Inr (i, s\<lparr>bufs := (bufs s)[i := ?x]\<rparr>)"
    using g bno i(1) bc_invD(2) [OF inv]
    by (simp add: bread_def bnd_def run get_buf_def flag_simps iderw_read)
  ultimately show ?thesis by (simp add: ok_def)
qed

lemma bread_ok:
  assumes "bc_inv s" and "bno < disksize s" and "bno \<notin> hset s"
    and "bno \<in> dset s \<or> card (hset s \<union> dset s) < NBUF"
  shows "ok (bread 1 bno) s (bread_post s bno)"
proof (cases "\<exists>i < NBUF. matches bno (bufs s ! i)")
  case True
  then show ?thesis using bread_hit [OF assms(1)] assms(3) by blast
next
  case False
  then have "bno \<notin> dset s"
    using bc_invD(4) [OF assms(1)] by (auto simp: dset_def buf_ok_def)
  with False assms show ?thesis by (intro bread_miss) auto
qed

section \<open>Changing a held buffer\<close>

text \<open>The holder of a buffer may change its data and its flags.\<close>

lemma bc_touch:
  assumes inv: "bc_inv s" and h: "held s i bno"
    and links: "b_next x = b_next (bufs s ! i)" "b_prev x = b_prev (bufs s ! i)"
    and x: "b_dev x = 1" "b_blockno x = bno" "busy x" "valid x" "length (b_data x) = BSIZE"
    and t: "t = s\<lparr>bufs := (bufs s)[i := x]\<rparr>"
  shows "bc_inv t" and "vw t = (vw s)(bno := b_data x)" and "hset t = hset s"
    and "dset t = (if dirty x then insert bno (dset s) else dset s - {bno})"
    and "held t j b \<longleftrightarrow> held s j b"
proof -
  have i: "i < NBUF" "busy (bufs s ! i)" "b_blockno (bufs s ! i) = bno" using h by (simp_all add: held_def)
  note len = bc_invD(2) [OF inv] and one = bc_invD(3) [OF inv] and hd = held_data [OF inv h]
  have oth: "\<not> matches (b_blockno x) (bufs s ! j)" if "j < NBUF" "j \<noteq> i" for j
    using that x(2) hd(2) one_copyD [OF one that(1) i(1), of bno] by auto
  have "buf_ok (memdisk s) (disksize s) x" using x hd(4) by (simp add: buf_ok_def)
  then show "bc_inv t" unfolding t using bc_inv_update [OF inv i(1) links] oth by blast
  show "vw t = (vw s)(bno := b_data x)"
    using cview_update [OF one len i(1) oth x(1), where D = "memdisk s"] x(2) hd(2) i(3)
    by (auto simp: t fun_eq_iff vw_def)
  show "hset t = hset s"
    unfolding t hset_update [OF inv i(1)] hset_split [OF i(1), of s] using x i by simp
  have nd: "b_blockno (bufs s ! j) \<noteq> bno" if "j < NBUF" "j \<noteq> i" "dirty (bufs s ! j)" for j
    using oth [OF that(1,2)] that bc_invD(4) [OF inv that(1)] x(2) by (auto simp: buf_ok_def)
  show "dset t = (if dirty x then insert bno (dset s) else dset s - {bno})"
    unfolding t dset_update [OF inv i(1)] dset_split [OF i(1), of s] using nd x(2) i(3) by auto
  show "held t j b \<longleftrightarrow> held s j b"
    using x i len by (auto simp: t held_def nth_update_if)
qed

lemma bc_disk_write:
  assumes inv: "bc_inv s" and h: "held s i bno" and d: "length d = BSIZE"
    and t: "t = s\<lparr>memdisk := (memdisk s)(bno := d), dwrites := w\<rparr>"
  shows "bc_inv t" and "vw t = vw s" and "hset t = hset s" and "dset t = dset s"
    and "held t j b \<longleftrightarrow> held s j b"
proof -
  have i: "i < NBUF" "busy (bufs s ! i)" using h by (simp_all add: held_def)
  note len = bc_invD(2) [OF inv] and one = bc_invD(3) [OF inv] and hd = held_data [OF inv h]
  have oth: "\<not> matches bno (bufs s ! j)" if "j < NBUF" "j \<noteq> i" for j
    using that hd(2) one_copyD [OF one that(1) i(1), of bno] by auto
  have "buf_ok (memdisk t) (disksize t) (bufs t ! j)" if "j < NBUF" for j
    using bc_invD(4) [OF inv that] oth [OF that] i by (cases "j = i") (auto simp: buf_ok_def t)
  moreover have "length (memdisk t b) = BSIZE" if "b < disksize t" for b
    using bc_invD(5) [OF inv, of b] that d by (simp add: t)
  ultimately show "bc_inv t" using inv unfolding bc_inv_def t by simp
  show "vw t = vw s"
  proof
    fix b
    show "vw t b = vw s b"
    proof (cases "\<exists>j < NBUF. matches b (bufs s ! j)")
      case True
      then obtain j where "j < NBUF" "matches b (bufs s ! j)" by blast
      note c = cview_hit [OF one len this]
      show ?thesis by (simp add: t c vw_def)
    next
      case False
      then have "b \<noteq> bno" using i(1) hd(2) by blast
      moreover note c = cview_miss [OF len, of b]
      ultimately show ?thesis using False by (simp add: t c vw_def)
    qed
  qed
qed (simp_all add: t hset_def dset_def held_def)

lemma bwrite_run:
  assumes inv: "bc_inv s" and h: "held s i bno"
  shows "bwrite i s = Inr ((), s\<lparr>memdisk := (memdisk s)(bno := vw s bno), dwrites := dwrites s @ [(bno, vw s bno)],
    bufs := (bufs s)[i := (bufs s ! i)\<lparr>b_flags := ((b_flags (bufs s ! i) OR B_DIRTY) AND NOT B_DIRTY) OR B_VALID\<rparr>]\<rparr>)"
proof -
  have i: "i < NBUF" "busy (bufs s ! i)" "b_blockno (bufs s ! i) = bno" using h by (simp_all add: held_def)
  note hd = held_data [OF inv h]
  have l: "i < length (bufs s)" using i bc_invD(2) [OF inv] by simp
  let ?s = "s\<lparr>bufs := (bufs s)[i := (bufs s ! i)\<lparr>b_flags := b_flags (bufs s ! i) OR B_DIRTY\<rparr>]\<rparr>"
  have "iderw i ?s = Inr ((), s\<lparr>memdisk := (memdisk s)(bno := vw s bno), dwrites := dwrites s @ [(bno, vw s bno)],
    bufs := (bufs s)[i := (bufs s ! i)\<lparr>b_flags := ((b_flags (bufs s ! i) OR B_DIRTY) AND NOT B_DIRTY) OR B_VALID\<rparr>]\<rparr>)"
    using iderw_write [of i ?s] hd i l by (simp add: flag_simps)
  with i show ?thesis by (simp add: bwrite_def run get_buf_def set_buf_def flag_simps)
qed

definition bwrite_post :: "'a bstate_scheme \<Rightarrow> u32 \<Rightarrow> 'a bstate_scheme \<Rightarrow> bool" where
  "bwrite_post s bno t \<longleftrightarrow> (\<exists>bs. t = s\<lparr>memdisk := (memdisk s)(bno := vw s bno),
       dwrites := dwrites s @ [(bno, vw s bno)], bufs := bs\<rparr>)
     \<and> bc_inv t \<and> vw t = vw s \<and> hset t = hset s \<and> dset t = dset s - {bno}
     \<and> (\<forall>j b. held t j b \<longleftrightarrow> held s j b)"

lemma bwrite_ok:
  assumes inv: "bc_inv s" and h: "held s i bno"
  shows "ok (bwrite i) s (\<lambda>_. bwrite_post s bno)"
proof -
  define x where "x = (bufs s ! i)\<lparr>b_flags := ((b_flags (bufs s ! i) OR B_DIRTY) AND NOT B_DIRTY) OR B_VALID\<rparr>"
  define u where "u = s\<lparr>memdisk := (memdisk s)(bno := vw s bno), dwrites := dwrites s @ [(bno, vw s bno)]\<rparr>"
  define t where "t = u\<lparr>bufs := (bufs u)[i := x]\<rparr>"
  note hd = held_data [OF inv h]
  have "length (vw s bno) = BSIZE" using hd(1,5) by simp
  note w = bc_disk_write [OF inv h this u_def]
  have hu: "held u i bno" using w(5) h by simp
  have busyi: "busy (bufs s ! i)" using h by (simp add: held_def)
  have "b_next x = b_next (bufs u ! i)" "b_prev x = b_prev (bufs u ! i)" "b_dev x = 1" "b_blockno x = bno"
    "busy x" "valid x" "length (b_data x) = BSIZE"
    using hd busyi by (simp_all add: x_def u_def flag_simps)
  note c = bc_touch [OF w(1) hu this t_def]
  have nd: "\<not> dirty x" "b_data x = vw s bno" using hd(1) by (simp_all add: x_def flag_simps)
  have "t = s\<lparr>memdisk := (memdisk s)(bno := vw s bno), dwrites := dwrites s @ [(bno, vw s bno)],
      bufs := (bufs s)[i := x]\<rparr>"
    by (simp add: t_def u_def)
  moreover from this have "bwrite i s = Inr ((), t)" using bwrite_run [OF inv h] by (simp add: x_def)
  moreover have "vw t = vw s" using c(2) w(2) nd by (simp add: fun_eq_iff)
  ultimately show ?thesis
    using c(1,3,4,5) w(3-5) nd unfolding ok_def bwrite_post_def by auto
qed

section \<open>\<open>brelse\<close>\<close>

text \<open>Everything but the ring depends only on the payload of the buffers.\<close>

definition same_bufs :: "buf list \<Rightarrow> buf list \<Rightarrow> bool" where
  "same_bufs bs cs \<longleftrightarrow> length bs = length cs \<and> (\<forall>j. same_payload (bs ! j) (cs ! j))"

lemma same_bufsD:
  assumes "same_bufs bs cs"
  shows "b_flags (bs ! j) = b_flags (cs ! j)" "b_dev (bs ! j) = b_dev (cs ! j)"
    "b_blockno (bs ! j) = b_blockno (cs ! j)" "b_data (bs ! j) = b_data (cs ! j)" "length bs = length cs"
  using assms by (simp_all add: same_bufs_def same_payload_def)

lemma cview_same:
  assumes "same_bufs bs cs" and "one_copy cs" and "length cs = NBUF + 1"
  shows "cview D bs = cview D cs"
proof
  fix b
  note d = same_bufsD [OF assms(1)]
  have one: "one_copy bs" using assms(2) by (simp add: one_copy_def d)
  have len: "length bs = NBUF + 1" using d(5) assms(3) by simp
  show "cview D bs b = cview D cs b"
  proof (cases "\<exists>j < NBUF. matches b (cs ! j)")
    case True
    then obtain j where j: "j < NBUF" "matches b (cs ! j)" by blast
    then have "matches b (bs ! j)" by (simp add: d)
    from cview_hit [OF one len j(1) this] cview_hit [OF assms(2,3) j] show ?thesis by (simp add: d)
  next
    case False
    then have "\<forall>j < NBUF. \<not> matches b (bs ! j)" by (simp add: d)
    with False show ?thesis
      using cview_miss [OF len, of b D] cview_miss [OF assms(3), of b D] by auto
  qed
qed

lemma bc_inv_same:
  assumes inv: "bc_inv s" and same: "same_bufs bs (bufs s)" and ring: "ring bs xs"
    and t: "t = s\<lparr>bufs := bs\<rparr>"
  shows "bc_inv t" and "vw t = vw s" and "hset t = hset s" and "dset t = dset s"
    and "held t j b \<longleftrightarrow> held s j b"
proof -
  note d = same_bufsD [OF same]
  have one: "one_copy bs" using bc_invD(3) [OF inv] by (simp add: one_copy_def d)
  have bo: "\<forall>j < NBUF. buf_ok (memdisk s) (disksize s) (bs ! j)"
    using bc_invD(4) [OF inv] by (simp add: buf_ok_def d)
  from one bo ring inv show "bc_inv t" by (auto simp: bc_inv_def t)
  show "vw t = vw s" using cview_same [OF same bc_invD(3,2) [OF inv]] by (simp add: t vw_def)
qed (simp_all add: t hset_def dset_def held_def same_bufsD [OF same])

lemma bc_inv_procs:
  assumes "t = s\<lparr>procs := ps\<rparr>"
  shows "bc_inv t \<longleftrightarrow> bc_inv s" and "vw t = vw s" and "hset t = hset s" and "dset t = dset s"
    and "held t j b \<longleftrightarrow> held s j b"
  by (simp_all add: assms bc_inv_def hset_def dset_def held_def vw_def)

lemma bc_unclaim:
  assumes inv: "bc_inv s" and h: "held s i bno" and clean: "bno \<in> dset s \<or> vw s bno = memdisk s bno"
    and t: "t = s\<lparr>bufs := (bufs s)[i := (bufs s ! i)\<lparr>b_flags := b_flags (bufs s ! i) AND NOT B_BUSY\<rparr>]\<rparr>"
  shows "bc_inv t" and "vw t = vw s" and "hset t = hset s - {bno}" and "dset t = dset s"
    and "held t j b \<longleftrightarrow> held s j b \<and> b \<noteq> bno"
proof -
  define x where "x = (bufs s ! i)\<lparr>b_flags := b_flags (bufs s ! i) AND NOT B_BUSY\<rparr>"
  have i: "i < NBUF" "busy (bufs s ! i)" "b_blockno (bufs s ! i) = bno" using h by (simp_all add: held_def)
  note len = bc_invD(2) [OF inv] and one = bc_invD(3) [OF inv] and hd = held_data [OF inv h]
  note tx = t [folded x_def]
  have xs: "b_dev x = 1" "b_blockno x = bno" "\<not> busy x" "dirty x = dirty (bufs s ! i)" "valid x"
    "b_data x = vw s bno" "b_next x = b_next (bufs s ! i)" "b_prev x = b_prev (bufs s ! i)"
    using hd i(3) by (simp_all add: x_def flag_simps)
  have oth: "\<not> matches (b_blockno x) (bufs s ! j)" if "j < NBUF" "j \<noteq> i" for j
    using that xs(2) hd(2) one_copyD [OF one that(1) i(1), of bno] by auto
  have hoth: "b_blockno (bufs s ! j) \<noteq> bno" if "j < NBUF" "j \<noteq> i" "busy (bufs s ! j) \<or> dirty (bufs s ! j)" for j
    using oth [OF that(1,2)] that(3) bc_invD(4) [OF inv that(1)] xs(2) by (auto simp: buf_ok_def)
  have "bno \<notin> {b_blockno (bufs s ! j) | j. j < NBUF \<and> j \<noteq> i \<and> dirty (bufs s ! j)}" using hoth by blast
  then have "dirty x" if "bno \<in> dset s"
    using that xs(4) dset_split [OF i(1), of s] by (cases "dirty (bufs s ! i)") (simp_all, blast)
  then have "buf_ok (memdisk s) (disksize s) x"
    using clean hd(1,4,5) xs by (auto simp: buf_ok_def)
  then show "bc_inv t" unfolding tx using bc_inv_update [OF inv i(1) xs(7,8)] oth by blast
  show "vw t = vw s"
    using cview_update [OF one len i(1) oth xs(1), where D = "memdisk s"] xs(2,6) hd(2) i(3)
    by (auto simp: tx fun_eq_iff vw_def)
  show "hset t = hset s - {bno}"
    unfolding tx hset_update [OF inv i(1)] hset_split [OF i(1), of s] using xs i hoth by (simp, blast)
  show "dset t = dset s"
    unfolding tx dset_update [OF inv i(1)] dset_split [OF i(1), of s] using xs i by simp
  show "held t j b \<longleftrightarrow> held s j b \<and> b \<noteq> bno"
    using xs i len hoth [of j] by (auto simp: tx held_def nth_update_if)
qed

lemma brelse_run:
  assumes inv: "bc_inv s" and h: "held s i bno"
  shows "brelse i s = Inr ((), s\<lparr>procs := map (wake (ChBuf i)) (procs s),
    bufs := (mtf (bufs s) i)[i := (mtf (bufs s) i ! i)\<lparr>b_flags := b_flags (mtf (bufs s) i ! i) AND NOT B_BUSY\<rparr>]\<rparr>)"
proof -
  have i: "busy (bufs s ! i)" using h by (simp_all add: held_def)
  with bc_invD(1) [OF inv] show ?thesis
    by (simp add: brelse_def run bnd_def get_buf_def set_buf_def upd_bufs_def acquire_run release_take
        wakeup_run flag_simps mtf_def Let_def nxt_def prv_def)
qed

definition brelse_post :: "'a bstate_scheme \<Rightarrow> u32 \<Rightarrow> 'a bstate_scheme \<Rightarrow> bool" where
  "brelse_post s bno t \<longleftrightarrow> (\<exists>ps bs. t = s\<lparr>procs := ps, bufs := bs\<rparr> \<and> woken (procs s) ps)
     \<and> bc_inv t \<and> vw t = vw s \<and> hset t = hset s - {bno} \<and> dset t = dset s
     \<and> (\<forall>j b. held t j b \<longleftrightarrow> held s j b \<and> b \<noteq> bno)"

lemma brelse_ok:
  assumes inv: "bc_inv s" and h: "held s i bno" and clean: "bno \<in> dset s \<or> vw s bno = memdisk s bno"
  shows "ok (brelse i) s (\<lambda>_. brelse_post s bno)"
proof -
  have i: "i < NBUF" using h by (simp add: held_def)
  obtain xs where "ring (bufs s) xs" using inv by (auto simp: bc_inv_def)
  then have ring: "ring (mtf (bufs s) i) (i # remove1 i xs)" using i by (rule ring_mtf)
  have same: "same_bufs (mtf (bufs s) i) (bufs s)"
    by (simp add: same_bufs_def same_payload_mtf)
  define u where "u = s\<lparr>bufs := mtf (bufs s) i\<rparr>"
  note a = bc_inv_same [OF inv same ring u_def]
  define v where "v = u\<lparr>procs := map (wake (ChBuf i)) (procs s)\<rparr>"
  note b = bc_inv_procs [OF v_def]
  have "bc_inv v" "held v i bno" "bno \<in> dset v \<or> vw v bno = memdisk v bno"
    using a b h clean by (simp_all add: u_def v_def)
  note c = bc_unclaim [OF this refl]
  show ?thesis
    unfolding ok_def brelse_post_def brelse_run [OF inv h]
    using a b c by (auto simp: u_def v_def)
qed

section \<open>The contract as an interface\<close>

text \<open>Users of the cache change nothing but the cache, the disk, and sleeping processes.\<close>

definition bframe :: "'a bstate_scheme \<Rightarrow> 'a bstate_scheme \<Rightarrow> bool" where
  "bframe s t \<longleftrightarrow> (\<exists>ps md dw bs. t = s\<lparr>procs := ps, memdisk := md, dwrites := dw, bufs := bs\<rparr>
     \<and> woken (procs s) ps)"

lemma bframe_refl [simp]: "bframe s s"
  unfolding bframe_def
  by (rule exI [of _ "procs s"], rule exI [of _ "memdisk s"], rule exI [of _ "dwrites s"],
      rule exI [of _ "bufs s"]) simp

lemma bframe_trans: "bframe s t \<Longrightarrow> bframe t u \<Longrightarrow> bframe s u"
  unfolding bframe_def by (elim exE conjE) (auto intro: woken_trans)

lemma bframeI: "t = s\<lparr>procs := ps, memdisk := md, dwrites := dw, bufs := bs\<rparr> \<Longrightarrow> woken (procs s) ps \<Longrightarrow> bframe s t"
  by (auto simp: bframe_def)

lemma bread_post_frame:
  assumes "bread_post s bno i t"
  shows "bframe s t" "memdisk t = memdisk s" "dwrites t = dwrites s" "disksize t = disksize s"
proof -
  obtain bs where t: "t = s\<lparr>bufs := bs\<rparr>" using assms by (auto simp: bread_post_def)
  show "bframe s t"
    by (rule bframeI [where ps = "procs s" and md = "memdisk s" and dw = "dwrites s" and bs = bs]) (simp_all add: t)
qed (use assms in \<open>auto simp: bread_post_def\<close>)

lemma bwrite_post_frame:
  assumes "bwrite_post s bno t"
  shows "bframe s t" "memdisk t = (memdisk s)(bno := vw s bno)" "dwrites t = dwrites s @ [(bno, vw s bno)]"
    "disksize t = disksize s"
proof -
  obtain bs where t: "t = s\<lparr>memdisk := (memdisk s)(bno := vw s bno), dwrites := dwrites s @ [(bno, vw s bno)], bufs := bs\<rparr>"
    using assms by (auto simp: bwrite_post_def)
  show "bframe s t" by (rule bframeI [where ps = "procs s" and bs = bs]) (simp_all add: t)
qed (use assms in \<open>auto simp: bwrite_post_def\<close>)

lemma brelse_post_frame:
  assumes "brelse_post s bno t"
  shows "bframe s t" "memdisk t = memdisk s" "dwrites t = dwrites s" "disksize t = disksize s"
proof -
  obtain ps bs where t: "t = s\<lparr>procs := ps, bufs := bs\<rparr>" "woken (procs s) ps"
    using assms by (auto simp: brelse_post_def)
  then show "bframe s t" by (intro bframeI [where ps = ps and md = "memdisk s" and dw = "dwrites s" and bs = bs]) simp_all
qed (use assms in \<open>auto simp: brelse_post_def\<close>)

text \<open>\<open>memmove(dst->data, src->data, BSIZE)\<close>: the whole array is copied.\<close>

definition buf_copy :: "nat \<Rightarrow> nat \<Rightarrow> ('a bstate_scheme, unit) km" where
  "buf_copy dst src = bnd (get_buf src) (\<lambda>b. set_buf dst (\<lambda>x. x\<lparr>b_data := b_data b\<rparr>))"

lemma set_data_post:
  assumes inv: "bc_inv s" and h: "held s i bno" and d: "length d = BSIZE"
    and t: "t = s\<lparr>bufs := (bufs s)[i := (bufs s ! i)\<lparr>b_data := d\<rparr>]\<rparr>"
  shows "bc_inv t" "vw t = (vw s)(bno := d)" "hset t = hset s" "dset t = dset s" "held t j b \<longleftrightarrow> held s j b"
    "bframe s t" "memdisk t = memdisk s" "dwrites t = dwrites s" "disksize t = disksize s"
proof -
  note hd = held_data [OF inv h]
  have i: "busy (bufs s ! i)" "i < NBUF" using h by (simp_all add: held_def)
  define x where "x = (bufs s ! i)\<lparr>b_data := d\<rparr>"
  have "b_next x = b_next (bufs s ! i)" "b_prev x = b_prev (bufs s ! i)" "b_dev x = 1" "b_blockno x = bno"
    "busy x" "valid x" "length (b_data x) = BSIZE"
    using hd i d by (simp_all add: x_def)
  note c = bc_touch [OF inv h this t [folded x_def]]
  show "bc_inv t" "vw t = (vw s)(bno := d)" "hset t = hset s" "held t j b \<longleftrightarrow> held s j b"
    using c by (simp_all add: x_def)
  have oth: "b_blockno (bufs s ! j) \<noteq> bno" if "j < NBUF" "dirty (bufs s ! j)" "\<not> dirty (bufs s ! i)" for j
    using that bc_invD(4) [OF inv that(1)] hd(2) one_copyD [OF bc_invD(3) [OF inv] that(1) i(2), of bno]
    by (auto simp: buf_ok_def)
  show "dset t = dset s"
  proof (cases "dirty (bufs s ! i)")
    case True
    then have "bno \<in> dset s" using i hd(2) by (auto simp: dset_def)
    with True c(4) show ?thesis by (auto simp: x_def)
  next
    case False
    then have "bno \<notin> dset s" using oth by (auto simp: dset_def)
    with False c(4) show ?thesis by (auto simp: x_def)
  qed
  show "bframe s t" by (rule bframeI [where ps = "procs s" and md = "memdisk s" and dw = "dwrites s"]) (simp_all add: t)
qed (simp_all add: t)

text \<open>
  What the log and the file system rely on. \<open>hold s i b\<close>: the caller holds block \<open>b\<close> in buffer \<open>i\<close>;
  \<open>busy_blocks\<close> are the blocks somebody holds, \<open>pinned\<close> those that must not leave the cache.
\<close>

locale block_cache =
  fixes inv :: "'s \<Rightarrow> bool"
    and size :: "'s \<Rightarrow> u32"
    and view :: "'s \<Rightarrow> u32 \<Rightarrow> u8 list"
    and disk :: "'s \<Rightarrow> u32 \<Rightarrow> u8 list"
    and hold :: "'s \<Rightarrow> nat \<Rightarrow> u32 \<Rightarrow> bool"
    and busy_blocks :: "'s \<Rightarrow> u32 set"
    and pinned :: "'s \<Rightarrow> u32 set"
    and writes :: "'s \<Rightarrow> (u32 \<times> u8 list) list"
    and frame :: "'s \<Rightarrow> 's \<Rightarrow> bool"
    and rd :: "u32 \<Rightarrow> ('s, nat) km"
    and cp :: "nat \<Rightarrow> nat \<Rightarrow> ('s, unit) km"
    and wr :: "nat \<Rightarrow> ('s, unit) km"
    and rel :: "nat \<Rightarrow> ('s, unit) km"
  assumes frame_trans: "frame s t \<Longrightarrow> frame t u \<Longrightarrow> frame s u"
    and hold_busy: "inv s \<Longrightarrow> hold s i b \<Longrightarrow> b \<in> busy_blocks s"
    and rd_law: "inv s \<Longrightarrow> b < size s \<Longrightarrow> b \<notin> busy_blocks s \<Longrightarrow>
      b \<in> pinned s \<or> card (busy_blocks s \<union> pinned s) < NBUF \<Longrightarrow>
      ok (rd b) s (\<lambda>i t. inv t \<and> frame s t \<and> view t = view s \<and> disk t = disk s \<and> writes t = writes s
        \<and> size t = size s \<and> busy_blocks t = insert b (busy_blocks s) \<and> pinned t = pinned s
        \<and> (\<forall>j c. hold t j c \<longleftrightarrow> hold s j c \<or> j = i \<and> c = b))"
    and cp_law: "inv s \<Longrightarrow> hold s x a \<Longrightarrow> hold s y b \<Longrightarrow>
      ok (cp y x) s (\<lambda>_ t. inv t \<and> frame s t \<and> view t = (view s)(b := view s a) \<and> disk t = disk s
        \<and> writes t = writes s \<and> size t = size s \<and> busy_blocks t = busy_blocks s \<and> pinned t = pinned s
        \<and> (\<forall>j c. hold t j c \<longleftrightarrow> hold s j c))"
    and wr_law: "inv s \<Longrightarrow> hold s y b \<Longrightarrow>
      ok (wr y) s (\<lambda>_ t. inv t \<and> frame s t \<and> view t = view s \<and> disk t = (disk s)(b := view s b)
        \<and> writes t = writes s @ [(b, view s b)] \<and> size t = size s \<and> busy_blocks t = busy_blocks s
        \<and> pinned t = pinned s - {b} \<and> (\<forall>j c. hold t j c \<longleftrightarrow> hold s j c))"
    and rel_law: "inv s \<Longrightarrow> hold s y b \<Longrightarrow> b \<in> pinned s \<or> view s b = disk s b \<Longrightarrow>
      ok (rel y) s (\<lambda>_ t. inv t \<and> frame s t \<and> view t = view s \<and> disk t = disk s \<and> writes t = writes s
        \<and> size t = size s \<and> busy_blocks t = busy_blocks s - {b} \<and> pinned t = pinned s
        \<and> (\<forall>j c. hold t j c \<longleftrightarrow> hold s j c \<and> c \<noteq> b))"
begin

text \<open>Both buffers at hand: copy, write the copy through to the disk, let go of both.\<close>

lemma copy_through:
  assumes "inv s" and "hold s x a" and "hold s y b" and "a \<noteq> b" and "a \<in> pinned s \<or> view s a = disk s a"
  shows "ok (bnd (cp y x) (\<lambda>_. bnd (wr y) (\<lambda>_. bnd (rel x) (\<lambda>_. rel y)))) s
    (\<lambda>_ t. inv t \<and> frame s t \<and> view t = (view s)(b := view s a) \<and> disk t = (disk s)(b := view s a)
      \<and> writes t = writes s @ [(b, view s a)] \<and> size t = size s
      \<and> busy_blocks t = busy_blocks s - {a, b} \<and> pinned t = pinned s - {b})"
  unfolding ok_bnd
proof (rule ok_mono [OF cp_law [OF assms(1-3)]], elim conjE)
  fix t assume t: "inv t" "frame s t" "view t = (view s)(b := view s a)" "disk t = disk s"
    "writes t = writes s" "size t = size s" "busy_blocks t = busy_blocks s" "pinned t = pinned s"
    "\<forall>j c. hold t j c \<longleftrightarrow> hold s j c"
  then have ht: "hold t x a" "hold t y b" using assms(2,3) by simp_all
  show "ok (wr y) t (\<lambda>_ t. ok (rel x) t (\<lambda>_ t. ok (rel y) t (\<lambda>_ t. inv t \<and> frame s t \<and>
      view t = (view s)(b := view s a) \<and> disk t = (disk s)(b := view s a) \<and> writes t = writes s @ [(b, view s a)] \<and>
      size t = size s \<and> busy_blocks t = busy_blocks s - {a, b} \<and> pinned t = pinned s - {b})))"
  proof (rule ok_mono [OF wr_law [OF t(1) ht(2)]], elim conjE)
    fix u assume u: "inv u" "frame t u" "view u = view t" "disk u = (disk t)(b := view t b)"
      "writes u = writes t @ [(b, view t b)]" "size u = size t" "busy_blocks u = busy_blocks t"
      "pinned u = pinned t - {b}" "\<forall>j c. hold u j c \<longleftrightarrow> hold t j c"
    then have hu: "hold u x a" "hold u y b" using ht by simp_all
    have clean: "a \<in> pinned u \<or> view u a = disk u a" using assms(4,5) t u by auto
    show "ok (rel x) u (\<lambda>_ t. ok (rel y) t (\<lambda>_ t. inv t \<and> frame s t \<and>
      view t = (view s)(b := view s a) \<and> disk t = (disk s)(b := view s a) \<and> writes t = writes s @ [(b, view s a)] \<and>
      size t = size s \<and> busy_blocks t = busy_blocks s - {a, b} \<and> pinned t = pinned s - {b}))"
    proof (rule ok_mono [OF rel_law [OF u(1) hu(1) clean]], elim conjE)
      fix v assume v: "inv v" "frame u v" "view v = view u" "disk v = disk u" "writes v = writes u"
        "size v = size u" "busy_blocks v = busy_blocks u - {a}" "pinned v = pinned u"
        "\<forall>j c. hold v j c \<longleftrightarrow> hold u j c \<and> c \<noteq> a"
      then have hv: "hold v y b" "view v b = disk v b" using hu assms(4) u t by auto
      have f: "frame s v" using t(2) u(2) v(2) frame_trans by blast
      show "ok (rel y) v (\<lambda>_ t. inv t \<and> frame s t \<and>
        view t = (view s)(b := view s a) \<and> disk t = (disk s)(b := view s a) \<and> writes t = writes s @ [(b, view s a)] \<and>
        size t = size s \<and> busy_blocks t = busy_blocks s - {a, b} \<and> pinned t = pinned s - {b})"
        by (rule ok_mono [OF rel_law [OF v(1) hv(1)]])
          (use f frame_trans hv(2) t(3-8) u(3-8) v(3-8) in auto)
    qed
  qed
qed

text \<open>
  The two loop bodies of the log: read source and destination in either order, then copy through.
\<close>

lemma copy_blocks:
  assumes inv: "inv s" and sz: "a < size s" "b < size s" and ne: "a \<noteq> b"
    and free: "a \<notin> busy_blocks s" "b \<notin> busy_blocks s"
    and clean: "a \<in> pinned s \<or> view s a = disk s a"
    and room: "c \<in> pinned s \<or> card (busy_blocks s \<union> pinned s) < NBUF"
      "d \<in> pinned s \<or> card (insert c (busy_blocks s \<union> pinned s)) < NBUF"
    and cd: "c = a \<and> d = b \<or> c = b \<and> d = a"
  shows "ok (bnd (rd c) (\<lambda>x. bnd (rd d) (\<lambda>y.
      if c = a then bnd (cp y x) (\<lambda>_. bnd (wr y) (\<lambda>_. bnd (rel x) (\<lambda>_. rel y)))
      else bnd (cp x y) (\<lambda>_. bnd (wr x) (\<lambda>_. bnd (rel y) (\<lambda>_. rel x)))))) s
    (\<lambda>_ t. inv t \<and> frame s t \<and> view t = (view s)(b := view s a) \<and> disk t = (disk s)(b := view s a)
      \<and> writes t = writes s @ [(b, view s a)] \<and> size t = size s
      \<and> busy_blocks t = busy_blocks s \<and> pinned t = pinned s - {b})" (is "ok _ s ?Q")
  unfolding ok_bnd [of "rd c"]
proof (rule ok_mono [OF rd_law [OF inv]], goal_cases)
  case (4 x t)
  then have t: "inv t" "frame s t" "view t = view s" "disk t = disk s" "writes t = writes s" "size t = size s"
    "busy_blocks t = insert c (busy_blocks s)" "pinned t = pinned s"
    and ht: "hold t x c" by auto
  have d: "d < size t" "d \<notin> busy_blocks t" "d \<in> pinned t \<or> card (busy_blocks t \<union> pinned t) < NBUF"
    using t(6-8) cd sz free ne room(2) by auto
  show ?case
    unfolding ok_bnd [of "rd d"]
  proof (rule ok_mono [OF rd_law [OF t(1) d]], elim conjE)
    fix y u
    assume u: "inv u" "frame t u" "view u = view t" "disk u = disk t" "writes u = writes t" "size u = size t"
      "busy_blocks u = insert d (busy_blocks t)" "pinned u = pinned t"
      and hu: "\<forall>j c. hold u j c \<longleftrightarrow> hold t j c \<or> j = y \<and> c = d"
    have hxy: "hold u x c" "hold u y d" using hu ht by auto
    have cl: "a \<in> pinned u \<or> view u a = disk u a" using clean t u by simp
    have f: "frame s v" if "frame u v" for v using that t(2) u(2) frame_trans by blast
    have set: "insert d (insert c (busy_blocks s)) - {a, b} = busy_blocks s" using cd free by auto
    show "ok (if c = a then bnd (cp y x) (\<lambda>_. bnd (wr y) (\<lambda>_. bnd (rel x) (\<lambda>_. rel y)))
      else bnd (cp x y) (\<lambda>_. bnd (wr x) (\<lambda>_. bnd (rel y) (\<lambda>_. rel x)))) u ?Q"
    proof (cases "c = a")
      case True
      with cd ne have "d = b" by auto
      with hxy True have "hold u x a" "hold u y b" by simp_all
      from copy_through [OF u(1) this ne cl] show ?thesis
        using True set t u by (auto elim!: ok_mono intro: f)
    next
      case False
      with cd have "c = b" "d = a" by auto
      with hxy have "hold u y a" "hold u x b" by simp_all
      from copy_through [OF u(1) this ne cl] show ?thesis
        using False set t u by (auto elim!: ok_mono intro: f)
    qed
  qed
qed (use sz cd free room in auto)

end

lemma bread_postD:
  "bread_post s b i t \<Longrightarrow> bc_inv t \<and> bframe s t \<and> vw t = vw s \<and> memdisk t = memdisk s
      \<and> dwrites t = dwrites s \<and> disksize t = disksize s \<and> hset t = insert b (hset s) \<and> dset t = dset s
      \<and> (\<forall>j c. held t j c \<longleftrightarrow> held s j c \<or> j = i \<and> c = b)"
  using bread_post_frame [of s b i t] unfolding bread_post_def by blast

lemma bwrite_postD:
  "bwrite_post s b t \<Longrightarrow> bc_inv t \<and> bframe s t \<and> vw t = vw s \<and> memdisk t = (memdisk s)(b := vw s b)
      \<and> dwrites t = dwrites s @ [(b, vw s b)] \<and> disksize t = disksize s \<and> hset t = hset s
      \<and> dset t = dset s - {b} \<and> (\<forall>j c. held t j c \<longleftrightarrow> held s j c)"
  using bwrite_post_frame [of s b t] unfolding bwrite_post_def by blast

lemma brelse_postD:
  "brelse_post s b t \<Longrightarrow> bc_inv t \<and> bframe s t \<and> vw t = vw s \<and> memdisk t = memdisk s
      \<and> dwrites t = dwrites s \<and> disksize t = disksize s \<and> hset t = hset s - {b} \<and> dset t = dset s
      \<and> (\<forall>j c. held t j c \<longleftrightarrow> held s j c \<and> c \<noteq> b)"
  using brelse_post_frame [of s b t] unfolding brelse_post_def by blast

interpretation bcache: block_cache bc_inv disksize vw memdisk held hset dset dwrites bframe
  "bread 1" buf_copy bwrite brelse
proof unfold_locales
  fix s :: "'a bstate_scheme" and i x y :: nat and a b :: u32
  show "ok (bread 1 b) s (\<lambda>i t. bc_inv t \<and> bframe s t \<and> vw t = vw s \<and> memdisk t = memdisk s
      \<and> dwrites t = dwrites s \<and> disksize t = disksize s \<and> hset t = insert b (hset s) \<and> dset t = dset s
      \<and> (\<forall>j c. held t j c \<longleftrightarrow> held s j c \<or> j = i \<and> c = b))"
    if "bc_inv s" "b < disksize s" "b \<notin> hset s" "b \<in> dset s \<or> card (hset s \<union> dset s) < NBUF"
    by (rule ok_mono [OF bread_ok [OF that] bread_postD])
  show "ok (buf_copy y x) s (\<lambda>_ t. bc_inv t \<and> bframe s t \<and> vw t = (vw s)(b := vw s a) \<and> memdisk t = memdisk s
      \<and> dwrites t = dwrites s \<and> disksize t = disksize s \<and> hset t = hset s \<and> dset t = dset s
      \<and> (\<forall>j c. held t j c \<longleftrightarrow> held s j c))"
    if "bc_inv s" "held s x a" "held s y b"
  proof -
    note hx = held_data [OF that(1,2)]
    have "length (vw s a) = BSIZE" using hx(1,5) by simp
    from set_data_post [OF that(1,3) this refl] show ?thesis
      using hx(1) by (simp add: ok_def buf_copy_def run get_buf_def set_buf_def)
  qed
  show "ok (bwrite y) s (\<lambda>_ t. bc_inv t \<and> bframe s t \<and> vw t = vw s \<and> memdisk t = (memdisk s)(b := vw s b)
      \<and> dwrites t = dwrites s @ [(b, vw s b)] \<and> disksize t = disksize s \<and> hset t = hset s
      \<and> dset t = dset s - {b} \<and> (\<forall>j c. held t j c \<longleftrightarrow> held s j c))"
    if "bc_inv s" "held s y b"
    by (rule ok_mono [OF bwrite_ok [OF that] bwrite_postD])
  show "ok (brelse y) s (\<lambda>_ t. bc_inv t \<and> bframe s t \<and> vw t = vw s \<and> memdisk t = memdisk s
      \<and> dwrites t = dwrites s \<and> disksize t = disksize s \<and> hset t = hset s - {b} \<and> dset t = dset s
      \<and> (\<forall>j c. held t j c \<longleftrightarrow> held s j c \<and> c \<noteq> b))"
    if "bc_inv s" "held s y b" "b \<in> dset s \<or> vw s b = memdisk s b"
    by (rule ok_mono [OF brelse_ok [OF that] brelse_postD])
qed (auto intro: bframe_trans held_data(6))

end
