(* ===== verification/Log.thy ===== *)
theory Log
  imports Bio_Cache
begin

text \<open>
  The write-ahead log (\<open>log.c\<close>), with \<open>readsb\<close> of \<open>fs.c\<close>, which \<open>initlog\<close> calls. The header
  fields \<open>n\<close> and \<open>block\<close> are C integers: \<open>n\<close> is kept as an \<open>int\<close>, block numbers and the start of the
  log, which only ever become block numbers, as 32-bit words. A header count beyond the array
  (\<open>n > LOGSIZE\<close>) makes the loops over \<open>block\<close> run out of bounds; the model stops there.
\<close>

section \<open>State\<close>

record superblock =
  sb_size :: u32
  sb_nblocks :: u32
  sb_ninodes :: u32
  sb_nlog :: u32
  sb_logstart :: u32
  sb_inodestart :: u32
  sb_bmapstart :: u32

definition MAXOPBLOCKS :: int where "MAXOPBLOCKS = 10"

definition LOGSIZE :: int where "LOGSIZE = MAXOPBLOCKS * 3"

record logheader =
  lh_n :: int
  lh_block :: "u32 list"

record log =
  lg_start :: u32
  lg_size :: int
  lg_outstanding :: int
  lg_committing :: bool
  lg_dev :: u32
  lg_lh :: logheader

record lstate = bstate +
  lg :: log

definition set_lg :: "(log \<Rightarrow> log) \<Rightarrow> ('a lstate_scheme, unit) km" where
  "set_lg f = upd (\<lambda>s. s\<lparr>lg := f (lg s)\<rparr>)"

definition set_lh :: "(logheader \<Rightarrow> logheader) \<Rightarrow> ('a lstate_scheme, unit) km" where
  "set_lh f = set_lg (\<lambda>l. l\<lparr>lg_lh := f (lg_lh l)\<rparr>)"

section \<open>Operations\<close>

definition sb_of :: "u8 list \<Rightarrow> superblock" where
  "sb_of d = \<lparr>sb_size = get32 d 0, sb_nblocks = get32 d 4, sb_ninodes = get32 d 8, sb_nlog = get32 d 12,
     sb_logstart = get32 d 16, sb_inodestart = get32 d 20, sb_bmapstart = get32 d 24\<rparr>"

definition readsb :: "u32 \<Rightarrow> ('a bstate_scheme, superblock) km" where
  "readsb dev =
     bnd (bread dev 1) (\<lambda>bp.
     bnd (get_buf bp) (\<lambda>b.
     bnd (brelse bp) (\<lambda>_.
     ret (sb_of (b_data b)))))"

definition install_one :: "nat \<Rightarrow> ('a lstate_scheme, unit) km" where
  "install_one tail =
     bnd (gets lg) (\<lambda>l.
     bnd (bread (lg_dev l) (lg_start l + of_nat tail + 1)) (\<lambda>lbuf.
     bnd (bread (lg_dev l) (lh_block (lg_lh l) ! tail)) (\<lambda>dbuf.
     bnd (buf_copy dbuf lbuf) (\<lambda>_.
     bnd (bwrite dbuf) (\<lambda>_.
     bnd (brelse lbuf) (\<lambda>_.
     brelse dbuf))))))"

text \<open>The loops of the log index \<open>log.lh.block\<close> up to \<open>log.lh.n\<close>.\<close>

definition for_blocks :: "(nat \<Rightarrow> ('a lstate_scheme, unit) km) \<Rightarrow> ('a lstate_scheme, unit) km" where
  "for_blocks body =
     bnd (gets (\<lambda>s. lh_n (lg_lh (lg s)))) (\<lambda>n.
     if n > LOGSIZE then stop (Undefined ''log.lh.block'')
     else foreach [0..<nat n] body)"

definition install_trans :: "('a lstate_scheme, unit) km" where
  "install_trans = for_blocks install_one"

definition read_head :: "('a lstate_scheme, unit) km" where
  "read_head =
     bnd (gets lg) (\<lambda>l.
     bnd (bread (lg_dev l) (lg_start l)) (\<lambda>i.
     bnd (get_buf i) (\<lambda>b.
     bnd (set_lh (\<lambda>h. h\<lparr>lh_n := sint (get32 (b_data b) 0)\<rparr>)) (\<lambda>_.
     bnd (for_blocks (\<lambda>k. set_lh (\<lambda>h. h\<lparr>lh_block := (lh_block h)[k := get32 (b_data b) (4 + 4 * k)]\<rparr>))) (\<lambda>_.
     brelse i)))))"

definition put_data :: "nat \<Rightarrow> (u8 list \<Rightarrow> u8 list) \<Rightarrow> ('a bstate_scheme, unit) km" where
  "put_data i f = set_buf i (\<lambda>b. b\<lparr>b_data := f (b_data b)\<rparr>)"

definition write_head :: "('a lstate_scheme, unit) km" where
  "write_head =
     bnd (gets lg) (\<lambda>l.
     bnd (bread (lg_dev l) (lg_start l)) (\<lambda>i.
     bnd (put_data i (\<lambda>d. put32 d 0 (word_of_int (lh_n (lg_lh l))))) (\<lambda>_.
     bnd (for_blocks (\<lambda>k. put_data i (\<lambda>d. put32 d (4 + 4 * k) (lh_block (lg_lh l) ! k)))) (\<lambda>_.
     bnd (bwrite i) (\<lambda>_.
     brelse i)))))"

definition recover_from_log :: "('a lstate_scheme, unit) km" where
  "recover_from_log =
     bnd read_head (\<lambda>_.
     bnd install_trans (\<lambda>_.
     bnd (set_lh (\<lambda>h. h\<lparr>lh_n := 0\<rparr>)) (\<lambda>_.
     write_head)))"

text \<open>\<open>sizeof(struct logheader)\<close> is 124, below \<open>BSIZE\<close>: the first test of \<open>initlog\<close> never fires.\<close>

definition sizeof_logheader :: int where "sizeof_logheader = 4 + 4 * LOGSIZE"

definition initlog :: "u32 \<Rightarrow> ('a lstate_scheme, unit) km" where
  "initlog dev =
     (if sizeof_logheader \<ge> int BSIZE then panic ''initlog: too big logheader''
      else
        bnd (initlock Lk_log ''log'') (\<lambda>_.
        bnd (readsb dev) (\<lambda>sb.
        bnd (set_lg (\<lambda>l. l\<lparr>lg_start := sb_logstart sb\<rparr>)) (\<lambda>_.
        bnd (set_lg (\<lambda>l. l\<lparr>lg_size := sint (sb_nlog sb)\<rparr>)) (\<lambda>_.
        bnd (set_lg (\<lambda>l. l\<lparr>lg_dev := dev\<rparr>)) (\<lambda>_.
        recover_from_log))))))"

text \<open>
  \<open>begin_op\<close>: one round of its loop, with the lock held. A caller that has to wait stops in \<open>sleep\<close>;
  when it is scheduled again, it runs \<open>sleep_resume Lk_log\<close> and this round again.
\<close>

definition begin_op_loop :: "('a lstate_scheme, unit) km" where
  "begin_op_loop =
     bnd (gets lg) (\<lambda>l.
     if lg_committing l then sleep ChLog Lk_log
     else if lh_n (lg_lh l) + (lg_outstanding l + 1) * MAXOPBLOCKS > LOGSIZE then sleep ChLog Lk_log
     else
       bnd (set_lg (\<lambda>l. l\<lparr>lg_outstanding := lg_outstanding l + 1\<rparr>)) (\<lambda>_.
       release Lk_log))"

definition begin_op :: "('a lstate_scheme, unit) km" where
  "begin_op = bnd (acquire Lk_log) (\<lambda>_. begin_op_loop)"

definition write_log_one :: "nat \<Rightarrow> ('a lstate_scheme, unit) km" where
  "write_log_one tail =
     bnd (gets lg) (\<lambda>l.
     bnd (bread (lg_dev l) (lg_start l + of_nat tail + 1)) (\<lambda>to.
     bnd (bread (lg_dev l) (lh_block (lg_lh l) ! tail)) (\<lambda>from.
     bnd (buf_copy to from) (\<lambda>_.
     bnd (bwrite to) (\<lambda>_.
     bnd (brelse from) (\<lambda>_.
     brelse to))))))"

definition write_log :: "('a lstate_scheme, unit) km" where
  "write_log = for_blocks write_log_one"

definition commit :: "('a lstate_scheme, unit) km" where
  "commit =
     bnd (gets (\<lambda>s. lh_n (lg_lh (lg s)))) (\<lambda>n.
     if n > 0 then
       bnd write_log (\<lambda>_.
       bnd write_head (\<lambda>_.
       bnd install_trans (\<lambda>_.
       bnd (set_lh (\<lambda>h. h\<lparr>lh_n := 0\<rparr>)) (\<lambda>_.
       write_head))))
     else ret ())"

definition end_op :: "('a lstate_scheme, unit) km" where
  "end_op =
     bnd (acquire Lk_log) (\<lambda>_.
     bnd (set_lg (\<lambda>l. l\<lparr>lg_outstanding := lg_outstanding l - 1\<rparr>)) (\<lambda>_.
     bnd (gets lg) (\<lambda>l.
     if lg_committing l then panic ''log.committing''
     else
       bnd (if lg_outstanding l = 0 then bnd (set_lg (\<lambda>l. l\<lparr>lg_committing := True\<rparr>)) (\<lambda>_. ret True)
            else bnd (wakeup ChLog) (\<lambda>_. ret False)) (\<lambda>do_commit.
       bnd (release Lk_log) (\<lambda>_.
       if do_commit then
         bnd commit (\<lambda>_.
         bnd (acquire Lk_log) (\<lambda>_.
         bnd (set_lg (\<lambda>l. l\<lparr>lg_committing := False\<rparr>)) (\<lambda>_.
         bnd (wakeup ChLog) (\<lambda>_.
         release Lk_log))))
       else ret ())))))"

text \<open>The search of \<open>log_write\<close> for a block that is logged already; \<open>n\<close> if there is none.\<close>

definition log_slot :: "logheader \<Rightarrow> u32 \<Rightarrow> nat" where
  "log_slot h bno = (case find_idx (\<lambda>b. b = bno) (take (nat (lh_n h)) (lh_block h)) of
     Some i \<Rightarrow> i | None \<Rightarrow> nat (lh_n h))"

definition log_write :: "nat \<Rightarrow> ('a lstate_scheme, unit) km" where
  "log_write i =
     bnd (gets lg) (\<lambda>l.
     if lh_n (lg_lh l) \<ge> LOGSIZE \<or> lh_n (lg_lh l) \<ge> lg_size l - 1 then panic ''too big a transaction''
     else if lg_outstanding l < 1 then panic ''log_write outside of trans''
     else
       bnd (acquire Lk_log) (\<lambda>_.
       bnd (get_buf i) (\<lambda>b.
       bnd (set_lh (\<lambda>h.
         let k = log_slot h (b_blockno b)
         in h\<lparr>lh_block := (lh_block h)[k := b_blockno b],
              lh_n := if int k = lh_n h then lh_n h + 1 else lh_n h\<rparr>)) (\<lambda>_.
       bnd (set_buf i (\<lambda>b. b\<lparr>b_flags := b_flags b OR B_DIRTY\<rparr>)) (\<lambda>_.
       release Lk_log)))))"

end
