(* ===== verification/Log_Crash.thy ===== *)
theory Log_Crash
  imports Log
begin

text \<open>
  The log keeps its promise: a commit interrupted by a crash between any two block writes is
  completed or undone as a whole by the recovery at the next boot. The argument follows the disk
  writes of \<open>commit\<close> (\<open>wrote\<close> relates a state to the one after a known sequence of block writes).
\<close>

section \<open>Sequences of block writes\<close>

definition apply_writes :: "(u32 \<Rightarrow> u8 list) \<Rightarrow> (u32 \<times> u8 list) list \<Rightarrow> (u32 \<Rightarrow> u8 list)" where
  "apply_writes D ws = foldl (\<lambda>D (b, d). D(b := d)) D ws"

lemma apply_writes_simps [simp]:
  "apply_writes D [] = D"
  "apply_writes D (ws @ vs) = apply_writes (apply_writes D ws) vs"
  "apply_writes D ((b, d) # ws) = apply_writes (D(b := d)) ws"
  by (simp_all add: apply_writes_def)

lemma apply_writes_other: "b \<notin> fst ` set ws \<Longrightarrow> apply_writes D ws b = D b"
  by (induction ws arbitrary: D) (auto simp: apply_writes_def)

lemma apply_writes_map:
  assumes "j \<in> set xs" and "inj_on f (set xs)"
  shows "apply_writes D (map (\<lambda>j. (f j, g j)) xs) (f j) = g j"
  using assms
proof (induction xs rule: rev_induct)
  case (snoc x xs)
  show ?case
  proof (cases "j = x")
    case False
    with snoc.prems have "f j \<noteq> f x" "j \<in> set xs" by (auto simp: inj_on_def)
    with snoc show ?thesis by (auto simp: inj_on_def)
  qed simp
qed simp

definition wrote :: "'a bstate_scheme \<Rightarrow> (u32 \<times> u8 list) list \<Rightarrow> 'a bstate_scheme \<Rightarrow> bool" where
  "wrote s W t \<longleftrightarrow> bc_inv t \<and> bframe s t \<and> hset t = hset s \<and> dset t = dset s - fst ` set W
     \<and> vw t = apply_writes (vw s) W \<and> memdisk t = apply_writes (memdisk s) W \<and> dwrites t = dwrites s @ W"

lemma wrote_Nil: "bc_inv s \<Longrightarrow> wrote s [] s"
  by (simp add: wrote_def)

lemma wrote_append: "wrote s W t \<Longrightarrow> wrote t W' u \<Longrightarrow> wrote s (W @ W') u"
  unfolding wrote_def by (auto intro: bframe_trans)

lemma bframe_sel:
  assumes "bframe s t"
  shows "disksize t = disksize s" "mcpu t = mcpu s" "mlocks t = mlocks s" "curproc t = curproc s"
    "woken (procs s) (procs t)" "bstate.more t = bstate.more s"
  using assms by (auto simp: bframe_def)

lemma bframe_lg: "bframe s t \<Longrightarrow> lg t = lg s"
  by (auto simp: bframe_def)

lemma wrote_sel:
  assumes "wrote s W t"
  shows "bc_inv t" "disksize t = disksize s" "hset t = hset s" "bframe s t"
    "dset t = dset s - fst ` set W" "vw t = apply_writes (vw s) W" "memdisk t = apply_writes (memdisk s) W"
    "dwrites t = dwrites s @ W"
  using assms bframe_sel(1) [of s t] unfolding wrote_def by blast+

lemma wrote_lg: "wrote s W t \<Longrightarrow> lg t = lg s"
  by (simp add: wrote_def bframe_lg)

lemma bc_inv_lg [simp]:
  "bc_inv (s\<lparr>lg := l\<rparr>) = bc_inv s" "hset (s\<lparr>lg := l\<rparr>) = hset s" "dset (s\<lparr>lg := l\<rparr>) = dset s"
  "held (s\<lparr>lg := l\<rparr>) i b = held s i b" "vw (s\<lparr>lg := l\<rparr>) = vw s"
  by (simp_all add: vw_def bc_inv_def hset_def dset_def held_def no_locks_def lk_free_def del: no_locks_free no_locks_cli)

text \<open>A block that nobody holds and that is not pinned has its disk contents.\<close>

lemma clean_view:
  assumes "bc_inv s" and "b \<notin> hset s" and "b \<notin> dset s"
  shows "vw s b = memdisk s b"
proof (cases "\<exists>i < NBUF. matches b (bufs s ! i)")
  case True
  then obtain i where i: "i < NBUF" "matches b (bufs s ! i)" by blast
  then have "\<not> busy (bufs s ! i)" "\<not> dirty (bufs s ! i)"
    using assms(2,3) by (auto simp: hset_def dset_def)
  with i bc_invD(4) [OF assms(1) i(1)] cview_hit [OF bc_invD(3,2) [OF assms(1)] i]
  show ?thesis by (simp add: buf_ok_def vw_def)
next
  case False
  then show ?thesis using cview_miss [OF bc_invD(2) [OF assms(1)], of b] by (simp add: vw_def)
qed

section \<open>Copying between log and home blocks\<close>

lemma write_log_one_ok:
  assumes inv: "bc_inv s" and h: "hset s = {}" and dev: "lg_dev (lg s) = 1"
    and a: "lh_block (lg_lh (lg s)) ! k = a" "a < disksize s" "a \<in> dset s"
    and b: "lg_start (lg s) + of_nat k + 1 = b" "b < disksize s" "b \<noteq> a"
    and room: "card (dset s) < NBUF"
  shows "ok (write_log_one k) s (\<lambda>_ t. wrote s [(b, vw s a)] t)"
proof -
  have "write_log_one k s = bnd (bread 1 b) (\<lambda>x. bnd (bread 1 a) (\<lambda>y.
      if b = a then bnd (buf_copy y x) (\<lambda>_. bnd (bwrite y) (\<lambda>_. bnd (brelse x) (\<lambda>_. brelse y)))
      else bnd (buf_copy x y) (\<lambda>_. bnd (bwrite x) (\<lambda>_. bnd (brelse y) (\<lambda>_. brelse x))))) s"
    using dev a b by (simp add: write_log_one_def run)
  then show ?thesis
    using bcache.copy_blocks [OF inv a(2) b(2) b(3) [symmetric], of b a] h a(3) room
    unfolding ok_def wrote_def by (auto split: sum.splits)
qed

lemma install_one_ok:
  assumes inv: "bc_inv s" and h: "hset s = {}" and dev: "lg_dev (lg s) = 1"
    and a: "lg_start (lg s) + of_nat k + 1 = a" "a < disksize s" "vw s a = memdisk s a"
    and b: "lh_block (lg_lh (lg s)) ! k = b" "b < disksize s" "b \<noteq> a"
    and room: "card (dset s) < NBUF" "b \<in> dset s \<or> card (insert a (dset s)) < NBUF"
  shows "ok (install_one k) s (\<lambda>_ t. wrote s [(b, vw s a)] t)"
proof -
  have "install_one k s = bnd (bread 1 a) (\<lambda>x. bnd (bread 1 b) (\<lambda>y.
      if a = a then bnd (buf_copy y x) (\<lambda>_. bnd (bwrite y) (\<lambda>_. bnd (brelse x) (\<lambda>_. brelse y)))
      else bnd (buf_copy x y) (\<lambda>_. bnd (bwrite x) (\<lambda>_. bnd (brelse y) (\<lambda>_. brelse x))))) s"
    using dev a b by (simp add: install_one_def run)
  then show ?thesis
    using bcache.copy_blocks [OF inv a(2) b(2) b(3) [symmetric], of a b] h a(3) room
    unfolding ok_def wrote_def by (auto split: sum.splits)
qed

section \<open>The steps of a commit\<close>

definition logged :: "log \<Rightarrow> u32 list" where
  "logged l = take (nat (lh_n (lg_lh l))) (lh_block (lg_lh l))"

text \<open>The blocks of the on-disk log: the header and the \<open>LOGSIZE - 1\<close> data blocks that follow it.\<close>

definition log_area :: "u32 \<Rightarrow> u32 set" where
  "log_area st = (\<lambda>k. st + of_nat k) ` {..<nat LOGSIZE}"

definition log_geom :: "'a lstate_scheme \<Rightarrow> bool" where
  "log_geom s \<longleftrightarrow> lg_dev (lg s) = 1 \<and> length (lh_block (lg_lh (lg s))) = nat LOGSIZE
     \<and> (\<forall>b \<in> log_area (lg_start (lg s)). b < disksize s)"

text \<open>The block writes of the two copy loops, with the contents \<open>v\<close> before the loop.\<close>

definition to_log :: "(u32 \<Rightarrow> u8 list) \<Rightarrow> log \<Rightarrow> nat list \<Rightarrow> (u32 \<times> u8 list) list" where
  "to_log v l ks = map (\<lambda>k. (lg_start l + of_nat (Suc k), v (lh_block (lg_lh l) ! k))) ks"

definition to_home :: "(u32 \<Rightarrow> u8 list) \<Rightarrow> log \<Rightarrow> nat list \<Rightarrow> (u32 \<times> u8 list) list" where
  "to_home v l ks = map (\<lambda>k. (lh_block (lg_lh l) ! k, v (lg_start l + of_nat (Suc k)))) ks"

definition head_bytes :: "u8 list \<Rightarrow> logheader \<Rightarrow> u8 list" where
  "head_bytes d h = foldl (\<lambda>d k. put32 d (4 + 4 * k) (lh_block h ! k)) (put32 d 0 (word_of_int (lh_n h)))
     [0..<nat (lh_n h)]"

lemma LOGSIZE_nat [simp]: "nat LOGSIZE = 30" "LOGSIZE = 30"
  by (simp_all add: LOGSIZE_def MAXOPBLOCKS_def)

lemma log_area_member: "k < 30 \<Longrightarrow> st + of_nat k \<in> log_area st"
  by (simp add: log_area_def)

lemma log_addr: "st + of_nat k + 1 = (st :: u32) + of_nat (Suc k)"
  by (simp add: algebra_simps)

lemma nth_logged: "k < length (logged l) \<Longrightarrow> logged l ! k = lh_block (lg_lh l) ! k"
  by (simp add: logged_def)

lemma dset_range: "bc_inv s \<Longrightarrow> b \<in> dset s \<Longrightarrow> b < disksize s"
  using bc_invD(4) [of s] by (auto simp: dset_def buf_ok_def)

lemma fst_to_log: "(\<And>k. k \<in> set ks \<Longrightarrow> k < 29) \<Longrightarrow> fst ` set (to_log v l ks) \<subseteq> log_area (lg_start l)"
  by (auto simp: to_log_def simp del: of_nat_Suc intro!: log_area_member)

lemma write_log_loop:
  assumes inv: "bc_inv s" and h: "hset s = {}" and geom: "log_geom s" and n: "n \<le> 29"
    and home: "\<And>k. k < n \<Longrightarrow> lh_block (lg_lh (lg s)) ! k \<in> dset s - log_area (lg_start (lg s))"
    and dis: "dset s \<inter> log_area (lg_start (lg s)) = {}" and room: "card (dset s) < NBUF"
  shows "ok (foreach [0..<n] write_log_one) s (\<lambda>_ t. wrote s (to_log (vw s) (lg s) [0..<n]) t)"
proof (rule ok_for [where I = "\<lambda>k t. wrote s (to_log (vw s) (lg s) [0..<k]) t"])
  show "wrote s (to_log (vw s) (lg s) [0..<0]) s" using inv by (simp add: to_log_def wrote_Nil)
next
  fix k t
  assume kn: "k < n" and w: "wrote s (to_log (vw s) (lg s) [0..<k]) t"
  have ys: "\<And>j. j \<in> set [0..<k] \<Longrightarrow> j < 29" using kn n by simp
  let ?a = "lh_block (lg_lh (lg s)) ! k" and ?b = "lg_start (lg s) + of_nat (Suc k)"
  note ws = wrote_sel [OF w] and wl = wrote_lg [OF w]
  have sub: "fst ` set (to_log (vw s) (lg s) [0..<k]) \<subseteq> log_area (lg_start (lg s))" by (rule fst_to_log [OF ys])
  have dt: "dset t = dset s" using ws(5) dis sub by blast
  have a: "?a \<in> dset s" "?a \<notin> log_area (lg_start (lg s))" using home [OF kn] by blast+
  have b: "?b \<in> log_area (lg_start (lg s))" using kn n by (intro log_area_member) simp
  have va: "vw t ?a = vw s ?a" using a(2) sub unfolding ws(6) by (intro apply_writes_other) blast
  have "ok (write_log_one k) t (\<lambda>_ u. wrote t [(?b, vw t ?a)] u)"
  proof (rule write_log_one_ok [OF ws(1)])
    show "?b < disksize t" using b geom ws(2) by (simp add: log_geom_def)
    show "?a < disksize t" using dset_range [OF inv a(1)] ws(2) by simp
    show "?b \<noteq> ?a" using a(2) b by metis
    show "lg_start (lg t) + of_nat k + 1 = ?b" by (simp only: wl log_addr)
  qed (use geom ws(3) wl dt a h room in \<open>simp_all add: log_geom_def\<close>)
  then show "ok (write_log_one k) t (\<lambda>_ u. wrote s (to_log (vw s) (lg s) [0..<Suc k]) u)"
    using wrote_append [OF w] va by (auto simp: to_log_def simp del: of_nat_Suc elim!: ok_mono)
qed

lemma finite_dset: "finite (dset s)" and finite_hset: "finite (hset s)"
  by (simp_all add: dset_def hset_def)

lemma fst_to_home: "fst ` set (to_home v l ks) = (\<lambda>k. lh_block (lg_lh l) ! k) ` set ks"
  by (force simp: to_home_def)

lemma install_loop:
  assumes inv: "bc_inv s" and h: "hset s = {}" and geom: "log_geom s" and n: "n \<le> 29"
    and home: "\<And>k. k < n \<Longrightarrow> lh_block (lg_lh (lg s)) ! k < disksize s"
      "\<And>k. k < n \<Longrightarrow> lh_block (lg_lh (lg s)) ! k \<notin> log_area (lg_start (lg s))"
    and clean: "\<And>b. b \<in> log_area (lg_start (lg s)) \<Longrightarrow> vw s b = memdisk s b"
    and room: "card (dset s) < NBUF"
      "card (dset s) < NBUF - 1 \<or> distinct (take n (lh_block (lg_lh (lg s)))) \<and> set (take n (lh_block (lg_lh (lg s)))) \<subseteq> dset s"
  shows "ok (foreach [0..<n] install_one) s (\<lambda>_ t. wrote s (to_home (vw s) (lg s) [0..<n]) t)"
proof (rule ok_for [where I = "\<lambda>k t. wrote s (to_home (vw s) (lg s) [0..<k]) t"])
  show "wrote s (to_home (vw s) (lg s) [0..<0]) s" using inv by (simp add: to_home_def wrote_Nil)
next
  fix k t
  assume kn: "k < n" and w: "wrote s (to_home (vw s) (lg s) [0..<k]) t"
  let ?L = "lh_block (lg_lh (lg s))" and ?b = "lh_block (lg_lh (lg s)) ! k"
  let ?a = "lg_start (lg s) + of_nat (Suc k)"
  note ws = wrote_sel [OF w] and wl = wrote_lg [OF w]
  have a: "?a \<in> log_area (lg_start (lg s))" using kn n by (intro log_area_member) simp
  have b: "?b \<notin> log_area (lg_start (lg s))" using home(2) [OF kn] .
  have out: "?a \<notin> fst ` set (to_home (vw s) (lg s) [0..<k])"
    unfolding fst_to_home using a home(2) kn by force
  have va: "vw t ?a = vw s ?a" "memdisk t ?a = memdisk s ?a"
    unfolding ws(6,7) by (rule apply_writes_other [OF out])+
  have sub: "dset t \<subseteq> dset s" using ws(5) by blast
  then have cd: "card (dset t) \<le> card (dset s)" by (intro card_mono finite_dset)
  have len: "length ?L = 30" using geom by (simp add: log_geom_def)
  have r2: "?b \<in> dset t \<or> card (insert ?a (dset t)) < NBUF"
  proof (cases "card (dset s) < NBUF - 1")
    case True
    moreover have "card (insert ?a (dset t)) \<le> Suc (card (dset t))" by (rule card_insert_le_m1) simp_all
    ultimately have "card (insert ?a (dset t)) < NBUF" using cd by linarith
    then show ?thesis ..
  next
    case False
    then have d: "distinct (take n ?L)" "set (take n ?L) \<subseteq> dset s" using room(2) by blast+
    have "?b \<in> dset s" using d(2) kn n len nth_mem [of k "take n ?L"] by auto
    moreover have "?b \<notin> (!) ?L ` set [0..<k]"
      using d(1) kn n len by (auto simp: distinct_conv_nth)
    ultimately show ?thesis unfolding ws(5) fst_to_home by blast
  qed
  have "ok (install_one k) t (\<lambda>_ u. wrote t [(?b, vw t ?a)] u)"
  proof (rule install_one_ok [OF ws(1)])
    show "?a < disksize t" using a geom ws(2) by (simp add: log_geom_def)
    show "?b \<noteq> ?a" using a b by metis
    show "lg_start (lg t) + of_nat k + 1 = ?a" by (simp only: wl log_addr)
    show "vw t ?a = memdisk t ?a" unfolding va by (rule clean [OF a])
    show "?b \<in> dset t \<or> card (insert ?a (dset t)) < NBUF" by (rule r2)
    show "card (dset t) < NBUF" using cd room(1) by simp
  qed (use geom ws(2,3) wl home(1) [OF kn] h in \<open>simp_all add: log_geom_def\<close>)
  then show "ok (install_one k) t (\<lambda>_ u. wrote s (to_home (vw s) (lg s) [0..<Suc k]) u)"
    using wrote_append [OF w] va(1) by (auto simp: to_home_def simp del: of_nat_Suc elim!: ok_mono)
qed

section \<open>The header\<close>

text \<open>The holder of a block has changed its data to \<open>d\<close>.\<close>

definition edited :: "'a bstate_scheme \<Rightarrow> u32 \<Rightarrow> u8 list \<Rightarrow> 'a bstate_scheme \<Rightarrow> bool" where
  "edited s b d t \<longleftrightarrow> bc_inv t \<and> bframe s t \<and> vw t = (vw s)(b := d) \<and> memdisk t = memdisk s
     \<and> dwrites t = dwrites s \<and> hset t = hset s \<and> dset t = dset s \<and> (\<forall>j c. held t j c \<longleftrightarrow> held s j c)"

lemma edited_self: "bc_inv s \<Longrightarrow> vw s b = d \<Longrightarrow> edited s b d s"
  by (auto simp: edited_def)

lemma put_data_ok:
  assumes "edited s b d t" and "held s i b" and "length (f d) = BSIZE"
  shows "ok (put_data i f) t (\<lambda>_ u. edited s b (f d) u)"
proof -
  have t: "bc_inv t" "held t i b" "bframe s t" "vw t = (vw s)(b := d)" "memdisk t = memdisk s"
    "dwrites t = dwrites s" "hset t = hset s" "dset t = dset s" "\<forall>j c. held t j c \<longleftrightarrow> held s j c"
    using assms unfolding edited_def by blast+
  note hd = held_data [OF t(1,2)]
  have dat: "b_data (bufs t ! i) = d" using hd(1) t(4) by simp
  define u where "u = t\<lparr>bufs := (bufs t)[i := (bufs t ! i)\<lparr>b_data := f d\<rparr>]\<rparr>"
  note c = set_data_post [OF t(1,2) assms(3) u_def]
  have "put_data i f t = Inr ((), u)"
    using dat by (simp add: put_data_def set_buf_def run u_def)
  moreover have "edited s b (f d) u"
    unfolding edited_def using c t bframe_trans [OF t(3) c(6)] by auto
  ultimately show ?thesis by (simp add: ok_def)
qed

lemma length_head_bytes [simp]: "length (head_bytes d h) = length d"
proof -
  have "length (foldl (\<lambda>d k. put32 d (4 + 4 * k) (lh_block h ! k)) d ks) = length d" for ks d
    by (induction ks arbitrary: d) simp_all
  then show ?thesis by (simp add: head_bytes_def)
qed

lemma edited_sel:
  assumes "edited s b d t"
  shows "bc_inv t" "bframe s t" "vw t = (vw s)(b := d)" "memdisk t = memdisk s" "dwrites t = dwrites s"
    "hset t = hset s" "dset t = dset s" "held t j c \<longleftrightarrow> held s j c"
  using assms unfolding edited_def by blast+

lemma edited_lg: "edited s b d t \<Longrightarrow> lg t = lg s"
  by (simp add: edited_def bframe_lg)

text \<open>Filling in the header block that is held in buffer \<open>i\<close>.\<close>

lemma fill_head_ok:
  assumes inv: "bc_inv s" and h: "held s i b" and n: "lh_n (lg_lh (lg s)) \<le> LOGSIZE" and l: "l = lg s"
  shows "ok (bnd (put_data i (\<lambda>d. put32 d 0 (word_of_int (lh_n (lg_lh l))))) (\<lambda>_.
      for_blocks (\<lambda>k. put_data i (\<lambda>d. put32 d (4 + 4 * k) (lh_block (lg_lh l) ! k))))) s
    (\<lambda>_ t. edited s b (head_bytes (vw s b) (lg_lh l)) t)"
  unfolding ok_bnd
proof (rule ok_mono [OF put_data_ok [OF edited_self [OF inv refl] h]])
  have len: "length (vw s b) = BSIZE" using held_data(1,5) [OF inv h] by simp
  then show "length (put32 (vw s b) 0 (word_of_int (lh_n (lg_lh l)))) = BSIZE" by simp
  let ?d = "put32 (vw s b) 0 (word_of_int (lh_n (lg_lh l)))"
  let ?g = "\<lambda>d k. put32 d (4 + 4 * k) (lh_block (lg_lh l) ! k)"
  fix t assume t: "edited s b ?d t"
  have lt: "lg t = lg s" using edited_lg [OF t] .
  have lenf: "length (foldl ?g ?d ks) = BSIZE" for ks
    using len by (induction ks rule: rev_induct) simp_all
  have "ok (foreach [0..<nat (lh_n (lg_lh l))] (\<lambda>k. put_data i (\<lambda>d. ?g d k))) t
      (\<lambda>_ u. edited s b (foldl ?g ?d [0..<nat (lh_n (lg_lh l))]) u)"
  proof (rule ok_for [where I = "\<lambda>k u. edited s b (foldl ?g ?d [0..<k]) u"])
    show "edited s b (foldl ?g ?d [0..<0]) t" using t by simp
    fix k u assume "edited s b (foldl ?g ?d [0..<k]) u"
    from put_data_ok [OF this h, of "\<lambda>d. ?g d k"] lenf [of "[0..<k]"]
    show "ok (put_data i (\<lambda>d. ?g d k)) u (\<lambda>_ u. edited s b (foldl ?g ?d [0..<Suc k]) u)" by simp
  qed
  then show "ok (for_blocks (\<lambda>k. put_data i (\<lambda>d. ?g d k))) t (\<lambda>_ u. edited s b (head_bytes (vw s b) (lg_lh l)) u)"
    using n lt l by (simp add: for_blocks_def ok_bnd head_bytes_def)
qed

lemma write_head_ok:
  assumes inv: "bc_inv s" and h: "hset s = {}" and geom: "log_geom s" and n: "lh_n (lg_lh (lg s)) \<le> LOGSIZE"
    and room: "card (dset s) < NBUF" and st: "lg_start (lg s) = st"
  shows "ok write_head s (\<lambda>_ t. wrote s [(st, head_bytes (vw s st) (lg_lh (lg s)))] t)"
proof -
  let ?l = "lg s" and ?d = "head_bytes (vw s st) (lg_lh (lg s))"
  have stl: "st < disksize s"
    using geom log_area_member [of 0 st] st by (auto simp: log_geom_def)
  have dev: "lg_dev (lg s) = 1" using geom by (simp add: log_geom_def)
  have "ok (bread 1 st) s (\<lambda>i t. ok (bnd (bnd (put_data i (\<lambda>d. put32 d 0 (word_of_int (lh_n (lg_lh ?l))))) (\<lambda>_.
      for_blocks (\<lambda>k. put_data i (\<lambda>d. put32 d (4 + 4 * k) (lh_block (lg_lh ?l) ! k)))))
      (\<lambda>_. bnd (bwrite i) (\<lambda>_. brelse i))) t (\<lambda>_ t. wrote s [(st, ?d)] t))"
  proof (rule ok_mono [OF bcache.rd_law [OF inv stl]], goal_cases)
    case (3 i t)
    then have t: "bc_inv t" "bframe s t" "vw t = vw s" "memdisk t = memdisk s" "dwrites t = dwrites s"
      "hset t = insert st (hset s)" "dset t = dset s" and ht: "held t i st" by auto
    have lt: "?l = lg t" using bframe_lg [OF t(2)] by simp
    have nt: "lh_n (lg_lh (lg t)) \<le> LOGSIZE" using n lt by simp
    show ?case
      unfolding ok_bnd [of "bnd _ _"]
    proof (rule ok_mono [OF fill_head_ok [OF t(1) ht nt lt]])
      fix u assume u: "edited t st (head_bytes (vw t st) (lg_lh ?l)) u"
      note us = edited_sel [OF u]
      have hu: "held u i st" using us(8) ht by simp
      show "ok (bnd (bwrite i) (\<lambda>_. brelse i)) u (\<lambda>_ v. wrote s [(st, ?d)] v)"
        unfolding ok_bnd
      proof (rule ok_mono [OF bcache.wr_law [OF us(1) hu]], elim conjE)
        fix v assume v: "bc_inv v" "bframe u v" "vw v = vw u" "memdisk v = (memdisk u)(st := vw u st)"
          "dwrites v = dwrites u @ [(st, vw u st)]" "hset v = hset u" "dset v = dset u - {st}"
          "\<forall>j c. held v j c \<longleftrightarrow> held u j c"
        then have hv: "held v i st" "st \<in> dset v \<or> vw v st = memdisk v st" using hu by auto
        have f: "bframe s v" using t(2) us(2) v(2) bframe_trans by blast
        show "ok (brelse i) v (\<lambda>_ w. wrote s [(st, ?d)] w)"
          by (rule ok_mono [OF bcache.rel_law [OF v(1) hv]])
            (use t us v h bframe_trans [OF f] in \<open>auto simp: wrote_def\<close>)
      qed
    qed
  qed (use h room in auto)
  then show ?thesis
    using dev st by (simp add: write_head_def ok_bnd)
qed

section \<open>Commit\<close>

text \<open>
  A transaction is complete and may be committed: nobody is inside the file system, the logged
  blocks are exactly the pinned ones, they lie outside the log, and the header on disk is empty.
\<close>

definition log_ready :: "'a lstate_scheme \<Rightarrow> bool" where
  "log_ready s \<longleftrightarrow> bc_inv s \<and> hset s = {} \<and> log_geom s
     \<and> 0 \<le> lh_n (lg_lh (lg s)) \<and> lh_n (lg_lh (lg s)) < LOGSIZE
     \<and> distinct (logged (lg s)) \<and> set (logged (lg s)) = dset s
     \<and> dset s \<inter> log_area (lg_start (lg s)) = {}
     \<and> get32 (memdisk s (lg_start (lg s))) 0 = 0"

definition lg_empty :: "log \<Rightarrow> log" where
  "lg_empty l = l\<lparr>lg_lh := (lg_lh l)\<lparr>lh_n := 0\<rparr>\<rparr>"

definition home_writes :: "(u32 \<Rightarrow> u8 list) \<Rightarrow> u32 list \<Rightarrow> (u32 \<times> u8 list) list" where
  "home_writes v bs = map (\<lambda>b. (b, v b)) bs"

text \<open>The block writes of \<open>commit\<close>: log blocks, header, home blocks, empty header.\<close>

definition commit_writes :: "'a lstate_scheme \<Rightarrow> (u32 \<times> u8 list) list" where
  "commit_writes s =
     (let l = lg s; v = vw s; st = lg_start l; n = nat (lh_n (lg_lh l)); H = head_bytes (v st) (lg_lh l)
      in to_log v l [0..<n] @ [(st, H)] @ home_writes v (logged l) @ [(st, put32 H 0 0)])"

lemma length_logged: "log_ready s \<Longrightarrow> length (logged (lg s)) = nat (lh_n (lg_lh (lg s)))"
  by (auto simp: log_ready_def log_geom_def logged_def)

lemma log_readyD:
  assumes "log_ready s"
  shows "bc_inv s" "hset s = {}" "log_geom s" "nat (lh_n (lg_lh (lg s))) \<le> 29" "lh_n (lg_lh (lg s)) \<le> LOGSIZE"
    "distinct (logged (lg s))" "set (logged (lg s)) = dset s" "dset s \<inter> log_area (lg_start (lg s)) = {}"
    "get32 (memdisk s (lg_start (lg s))) 0 = 0" "card (dset s) < NBUF"
    "\<And>k. k < nat (lh_n (lg_lh (lg s))) \<Longrightarrow> lh_block (lg_lh (lg s)) ! k \<in> dset s - log_area (lg_start (lg s))"
proof -
  show n: "nat (lh_n (lg_lh (lg s))) \<le> 29" and dis: "distinct (logged (lg s))" "set (logged (lg s)) = dset s"
    "dset s \<inter> log_area (lg_start (lg s)) = {}"
    using assms by (auto simp: log_ready_def)
  have "card (dset s) = length (logged (lg s))" using dis distinct_card by metis
  then show "card (dset s) < NBUF" using n length_logged [OF assms] by (simp add: NBUF_def)
  show "lh_block (lg_lh (lg s)) ! k \<in> dset s - log_area (lg_start (lg s))"
    if "k < nat (lh_n (lg_lh (lg s)))" for k
  proof -
    have "logged (lg s) ! k \<in> dset s" using that length_logged [OF assms] dis(2) nth_mem by metis
    then show ?thesis using dis(3) nth_logged [of k "lg s"] that length_logged [OF assms] by auto
  qed
qed (use assms in \<open>simp_all add: log_ready_def\<close>)

lemma area_addr_inj: "inj_on (\<lambda>k. st + of_nat (Suc k) :: u32) {..<29}"
  by (rule inj_onI) (auto simp del: of_nat_Suc dest!: of_nat_u32_inj)

lemma log_block_data:
  assumes "k < n" and "n \<le> 29"
  shows "apply_writes D (to_log v l [0..<n]) (lg_start l + of_nat (Suc k)) = v (lh_block (lg_lh l) ! k)"
  unfolding to_log_def
  by (rule apply_writes_map) (use assms inj_on_subset [OF area_addr_inj] in \<open>auto simp: subset_iff\<close>)

lemma header_not_data: "k < 29 \<Longrightarrow> st + of_nat (Suc k) \<noteq> (st :: u32)"
  using of_nat_u32_inj [of "Suc k" 0] by (auto simp del: of_nat_Suc)

lemma bframe_lg_upd: "bframe s t \<Longrightarrow> bframe (s\<lparr>lg := l\<rparr>) (t\<lparr>lg := l\<rparr>)"
proof -
  assume "bframe s t"
  then obtain ps md dw bs where "t = s\<lparr>procs := ps, memdisk := md, dwrites := dw, bufs := bs\<rparr>"
    "woken (procs s) ps" by (auto simp: bframe_def)
  then show ?thesis by (intro bframeI [where ps = ps and md = md and dw = dw and bs = bs]) simp_all
qed

lemma wrote_lg_upd: "wrote s W t \<Longrightarrow> wrote (s\<lparr>lg := l\<rparr>) W (t\<lparr>lg := l\<rparr>)"
  by (simp add: wrote_def bframe_lg_upd)

lemma log_geom_cong: "bframe s t \<Longrightarrow> log_geom t = log_geom s"
  by (simp add: log_geom_def bframe_lg bframe_sel)

lemma commit_ok:
  assumes ready: "log_ready s" and pos: "0 < lh_n (lg_lh (lg s))"
  shows "ok commit s (\<lambda>_ t. wrote (s\<lparr>lg := lg_empty (lg s)\<rparr>) (commit_writes s) t)"
proof -
  define l where "l = lg s"
  define v where "v = vw s"
  define st where "st = lg_start l"
  define n where "n = nat (lh_n (lg_lh l))"
  define H where "H = head_bytes (v st) (lg_lh l)"
  define W1 where "W1 = to_log v l [0..<n]"
  define W2 where "W2 = home_writes v (logged l)"
  note r = log_readyD [OF ready, folded l_def, folded st_def n_def]
  have n30: "\<not> lh_n (lg_lh l) > LOGSIZE" using r(5) by simp
  have sub1: "fst ` set W1 \<subseteq> log_area st" unfolding W1_def st_def using r(4) by (intro fst_to_log) simp
  have stA: "st \<in> log_area st" using log_area_member [of 0 st] by simp
  have st1: "st \<notin> fst ` set W1"
    using r(4) header_not_data [of _ st, folded st_def] by (force simp: W1_def to_log_def st_def [symmetric] simp del: of_nat_Suc)
  have log: "ok write_log s (\<lambda>_ t. wrote s W1 t)"
    using write_log_loop [OF r(1,2,3,4)] r(8,10,11) n30
    by (simp add: write_log_def for_blocks_def ok_bnd l_def n_def W1_def v_def st_def del: LOGSIZE_nat)
  have head: "ok write_head t (\<lambda>_ u. wrote s (W1 @ [(st, H)]) u)" if w: "wrote s W1 t" for t
  proof -
    note ws = wrote_sel [OF w] and lt = wrote_lg [OF w]
    have "vw t st = v st" unfolding ws(6) v_def by (rule apply_writes_other [OF st1])
    moreover have "card (dset t) < NBUF"
      using card_mono [OF finite_dset, of "dset t" s] ws(5) r(10) by auto
    ultimately show ?thesis
      using write_head_ok [OF ws(1), of st] ws(3) r(2,3,5) log_geom_cong [OF ws(4)] lt wrote_append [OF w]
      by (auto simp: l_def [symmetric] st_def [symmetric] H_def elim!: ok_mono)
  qed
  have inst: "ok install_trans u (\<lambda>_ w. wrote s ((W1 @ [(st, H)]) @ W2) w)"
    if w: "wrote s (W1 @ [(st, H)]) u" for u
  proof -
    note ws = wrote_sel [OF w] and lt = wrote_lg [OF w]
    have wd: "fst ` set (W1 @ [(st, H)]) \<subseteq> log_area st" using sub1 stA by auto
    have du: "dset u = dset s" using ws(5) wd r(8) by blast
    have dat: "vw u (st + of_nat (Suc k)) = v (lh_block (lg_lh l) ! k)" if "k < n" for k
      using log_block_data [OF that r(4), of "vw s" v l] header_not_data [of k st] that r(4)
      unfolding ws(6) by (simp add: W1_def st_def [symmetric] del: of_nat_Suc)
    have len: "length (logged l) = n" using length_logged [OF ready] by (simp add: l_def n_def)
    have "to_home (vw u) (lg u) [0..<n] = W2"
      unfolding to_home_def W2_def home_writes_def lt l_def [symmetric] st_def [symmetric]
      by (rule nth_equalityI) (use len dat nth_logged [of _ l] in \<open>simp_all del: of_nat_Suc\<close>)
    moreover have "ok (foreach [0..<n] install_one) u (\<lambda>_ t. wrote u (to_home (vw u) (lg u) [0..<n]) t)"
    proof (rule install_loop [OF ws(1)])
      show "log_geom u" using r(3) log_geom_cong [OF ws(4)] by simp
      show "lh_block (lg_lh (lg u)) ! k < disksize u" if "k < n" for k
        using dset_range [OF r(1), of "lh_block (lg_lh l) ! k"] r(11) [OF that] ws(2) lt by (simp add: l_def)
      show "vw u b = memdisk u b" if "b \<in> log_area (lg_start (lg u))" for b
      proof (rule clean_view [OF ws(1)])
        show "b \<notin> dset u" using that du r(8) lt by (auto simp: l_def [symmetric] st_def [symmetric])
      qed (use ws(3) r(2) in simp)
      show "card (dset u) < NBUF - 1 \<or> distinct (take n (lh_block (lg_lh (lg u)))) \<and> set (take n (lh_block (lg_lh (lg u)))) \<subseteq> dset u"
        using r(6,7) du lt by (simp add: logged_def l_def [symmetric] n_def)
    qed (use r(2,4,10,11) ws(3) lt du in \<open>auto simp: l_def [symmetric] st_def [symmetric]\<close>)
    ultimately show ?thesis
      using wrote_append [OF w] n30 lt
      by (auto simp: install_trans_def for_blocks_def ok_bnd l_def [symmetric] n_def [symmetric] simp del: LOGSIZE_nat elim!: ok_mono)
  qed
  have fin: "ok (bnd (set_lh (\<lambda>h. h\<lparr>lh_n := 0\<rparr>)) (\<lambda>_. write_head)) w
      (\<lambda>_ t. wrote (s\<lparr>lg := lg_empty l\<rparr>) (((W1 @ [(st, H)]) @ W2) @ [(st, put32 H 0 0)]) t)"
    if w: "wrote s ((W1 @ [(st, H)]) @ W2) w" for w
  proof -
    let ?w = "w\<lparr>lg := lg_empty l\<rparr>"
    note ws = wrote_sel [OF w] and lt = wrote_lg [OF w]
    have "st \<notin> fst ` set W2" using r(7,8) stA by (auto simp: W2_def home_writes_def)
    then have hd: "vw w st = H" unfolding ws(6) by (simp add: apply_writes_other)
    have "head_bytes H (lg_lh (lg ?w)) = put32 H 0 0" by (simp add: head_bytes_def lg_empty_def)
    moreover have "ok write_head ?w (\<lambda>_ t. wrote ?w [(st, head_bytes (vw ?w st) (lg_lh (lg ?w)))] t)"
    proof (rule write_head_ok)
      show "log_geom ?w" using r(3) bframe_sel(1) [OF ws(4)] by (simp add: log_geom_def lg_empty_def l_def)
      show "card (dset ?w) < NBUF" using card_mono [OF finite_dset, of "dset w" s] ws(5) r(10) by auto
    qed (use ws(1,3) r(2) in \<open>simp_all add: lg_empty_def st_def\<close>)
    ultimately show ?thesis
      using wrote_append [OF wrote_lg_upd [OF w, of "lg_empty l"]] hd lt
      by (auto simp: ok_bnd set_lh_def set_lg_def lg_empty_def l_def [symmetric] elim!: ok_mono)
  qed
  have "commit_writes s = ((W1 @ [(st, H)]) @ W2) @ [(st, put32 H 0 0)]"
    by (simp add: commit_writes_def Let_def W1_def W2_def H_def l_def v_def st_def n_def)
  moreover have "ok (bnd write_log (\<lambda>_. bnd write_head (\<lambda>_. bnd install_trans (\<lambda>_.
      bnd (set_lh (\<lambda>h. h\<lparr>lh_n := 0\<rparr>)) (\<lambda>_. write_head))))) s
      (\<lambda>_ t. wrote (s\<lparr>lg := lg_empty l\<rparr>) (((W1 @ [(st, H)]) @ W2) @ [(st, put32 H 0 0)]) t)"
    by (rule ok_bndI [OF log], rule ok_bndI [OF head], assumption, rule ok_bndI [OF inst], assumption, rule fin)
  ultimately show ?thesis
    using pos by (simp add: commit_def ok_bnd l_def)
qed

section \<open>Recovery, as a function on disks\<close>

definition header_n :: "u8 list \<Rightarrow> nat" where
  "header_n d = nat (sint (get32 d 0))"

definition recovery_writes :: "u32 \<Rightarrow> (u32 \<Rightarrow> u8 list) \<Rightarrow> (u32 \<times> u8 list) list" where
  "recovery_writes st D =
     map (\<lambda>k. (get32 (D st) (4 + 4 * k), D (st + of_nat (Suc k)))) [0..<header_n (D st)] @ [(st, put32 (D st) 0 0)]"

text \<open>A header that recovery can follow.\<close>

definition header_ok :: "u32 \<Rightarrow> u32 \<Rightarrow> (u32 \<Rightarrow> u8 list) \<Rightarrow> bool" where
  "header_ok st sz D \<longleftrightarrow> 0 \<le> sint (get32 (D st) 0) \<and> header_n (D st) \<le> 29
     \<and> (\<forall>k < header_n (D st). get32 (D st) (4 + 4 * k) < sz \<and> get32 (D st) (4 + 4 * k) \<notin> log_area st)"

lemma apply_writes_home: "apply_writes D (home_writes v L) b = (if b \<in> set L then v b else D b)"
  by (induction L arbitrary: D) (auto simp: home_writes_def)

lemma foldl_put32:
  fixes f :: "nat \<Rightarrow> u32"
  shows "n \<le> m \<Longrightarrow> 4 + 4 * m \<le> length d \<Longrightarrow> k < m \<Longrightarrow>
     get32 (foldl (\<lambda>d k. put32 d (4 + 4 * k) (f k)) d [0..<n]) (4 + 4 * k)
       = (if k < n then f k else get32 d (4 + 4 * k))"
    and "get32 (foldl (\<lambda>d k. put32 d (4 + 4 * k) (f k)) d [0..<n]) 0 = get32 d 0"
proof (induction n)
  case (Suc n)
  have len: "length (foldl (\<lambda>d k. put32 d (4 + 4 * k) (f k)) d ks) = length d" for ks
    by (induction ks arbitrary: d) simp_all
  { case 1
    then show ?case using Suc.IH(1) len by (cases "k = n") (auto simp: less_Suc_eq)
  next
    case 2
    then show ?case using Suc.IH(2) by simp }
qed simp_all

lemma head_bytes_get:
  assumes "length d = BSIZE" and "0 \<le> lh_n h" and "lh_n h < LOGSIZE"
  shows "sint (get32 (head_bytes d h) 0) = lh_n h" "header_n (head_bytes d h) = nat (lh_n h)"
    "k < nat (lh_n h) \<Longrightarrow> get32 (head_bytes d h) (4 + 4 * k) = lh_block h ! k"
proof -
  have "sint (word_of_int (lh_n h) :: u32) = lh_n h"
    using assms(2,3) by (simp add: sint_uint unsigned_of_int take_bit_int_eq_self signed_take_bit_int_eq_self)
  then show s: "sint (get32 (head_bytes d h) 0) = lh_n h"
    using assms(1) foldl_put32(2) by (simp add: head_bytes_def BSIZE_def)
  then show "header_n (head_bytes d h) = nat (lh_n h)" by (simp add: header_n_def)
  show "k < nat (lh_n h) \<Longrightarrow> get32 (head_bytes d h) (4 + 4 * k) = lh_block h ! k"
    using foldl_put32(1) [of "nat (lh_n h)" "nat (lh_n h)" "put32 d 0 (word_of_int (lh_n h))" k] assms
    by (simp add: head_bytes_def BSIZE_def)
qed

lemma header_empty: "get32 d 0 = 0 \<Longrightarrow> header_n d = 0 \<and> sint (get32 d 0) = 0"
  by (simp add: header_n_def)

text \<open>
  A crash after the first \<open>k\<close> block writes of a commit leaves one of three disks: the header is not
  yet written, or it is and some home blocks may be, or everything is.
\<close>

lemma crash_before:
  assumes ready: "log_ready s" and D: "D = apply_writes (memdisk s) (take k (to_log v (lg s) [0..<nat (lh_n (lg_lh (lg s)))]))"
    and st: "st = lg_start (lg s)"
  shows "header_ok st sz D" and "b \<notin> log_area st \<Longrightarrow> apply_writes D (recovery_writes st D) b = memdisk s b"
proof -
  note r = log_readyD [OF ready]
  let ?n = "nat (lh_n (lg_lh (lg s)))"
  let ?W = "to_log v (lg s) [0..<?n]"
  have sub: "fst ` set (take k ?W) \<subseteq> log_area st"
    using fst_to_log [of "[0..<?n]" v "lg s"] r(4) set_take_subset [of k ?W] st by fastforce
  have "st \<notin> fst ` set ?W"
    using r(4) header_not_data [of _ st] by (force simp: to_log_def st simp del: of_nat_Suc)
  then have "st \<notin> fst ` set (take k ?W)" using set_take_subset [of k ?W] by blast
  then have dst: "D st = memdisk s st" unfolding D by (rule apply_writes_other)
  then have h0: "header_n (D st) = 0 \<and> sint (get32 (D st) 0) = 0"
    using header_empty [of "D st"] r(9) st by simp
  then show "header_ok st sz D" by (simp add: header_ok_def)
  assume b: "b \<notin> log_area st"
  then have "b \<noteq> st" using log_area_member [of 0 st] by auto
  moreover have "D b = memdisk s b" unfolding D using sub b by (intro apply_writes_other) blast
  ultimately show "apply_writes D (recovery_writes st D) b = memdisk s b"
    using h0 by (simp add: recovery_writes_def)
qed

lemma not_pinned_view: "log_ready s \<Longrightarrow> b \<notin> dset s \<Longrightarrow> memdisk s b = vw s b"
  using clean_view [of s b] log_readyD(1,2) [of s] by simp

lemma header_view:
  assumes "log_ready s"
  shows "length (vw s (lg_start (lg s))) = BSIZE"
proof -
  note r = log_readyD [OF assms]
  have a: "lg_start (lg s) \<in> log_area (lg_start (lg s))" using log_area_member [of 0] by simp
  then have "lg_start (lg s) \<notin> dset s" "lg_start (lg s) < disksize s"
    using r(3,8) by (auto simp: log_geom_def)
  then show ?thesis
    using not_pinned_view [OF assms] bc_invD(5) [OF r(1), of "lg_start (lg s)"] by simp
qed

lemma crash_between:
  assumes ready: "log_ready s" and st: "st = lg_start (lg s)" and H: "H = head_bytes (vw s st) (lg_lh (lg s))"
    and D: "D = apply_writes (memdisk s) (to_log (vw s) (lg s) [0..<nat (lh_n (lg_lh (lg s)))] @ [(st, H)]
      @ home_writes (vw s) (take j (logged (lg s))))"
  shows "header_ok st (disksize s) D" and "b \<notin> log_area st \<Longrightarrow> apply_writes D (recovery_writes st D) b = vw s b"
proof -
  note r = log_readyD [OF ready]
  let ?l = "lg s"
  let ?n = "nat (lh_n (lg_lh ?l))"
  let ?W = "to_log (vw s) ?l [0..<?n]"
  have stA: "st \<in> log_area st" using log_area_member [of 0 st] by simp
  have home: "set (take j (logged ?l)) \<inter> log_area st = {}" using r(7,8) set_take_subset [of j "logged ?l"] st by blast
  have dst: "D st = H" using home stA by (auto simp: D apply_writes_home)
  have lenv: "length (vw s st) = BSIZE" unfolding st by (rule header_view [OF ready])
  have n0: "0 \<le> lh_n (lg_lh ?l)" "lh_n (lg_lh ?l) < LOGSIZE" using ready by (simp_all add: log_ready_def)
  note hb = head_bytes_get [OF lenv n0, folded H]
  have dat: "D (st + of_nat (Suc k)) = vw s (lh_block (lg_lh ?l) ! k)" if "k < ?n" for k
  proof -
    have "st + of_nat (Suc k) \<in> log_area st" using that r(4) by (intro log_area_member) simp
    then have "st + of_nat (Suc k) \<notin> set (take j (logged ?l))" using home by blast
    then show ?thesis
      using log_block_data [OF that r(4), of "memdisk s" "vw s" ?l] header_not_data [of k st] that r(4)
      by (simp add: D apply_writes_home st [symmetric] del: of_nat_Suc)
  qed
  have blk: "get32 (D st) (4 + 4 * k) = logged ?l ! k" if "k < ?n" for k
    using hb(3) [OF that] dst nth_logged [of k ?l] length_logged [OF ready] that by simp
  have "map (\<lambda>k. (get32 (D st) (4 + 4 * k), D (st + of_nat (Suc k)))) [0..<?n] = home_writes (vw s) (logged ?l)"
    unfolding home_writes_def
    by (rule nth_equalityI)
      (use blk dat nth_logged [of _ ?l] length_logged [OF ready] in \<open>simp_all del: of_nat_Suc\<close>)
  then have rw: "recovery_writes st D = home_writes (vw s) (logged ?l) @ [(st, put32 (D st) 0 0)]"
    using hb(2) dst by (simp add: recovery_writes_def)
  have "logged ?l ! k \<in> dset s" if "k < ?n" for k
    using r(7) length_logged [OF ready] that nth_mem by metis
  then show "header_ok st (disksize s) D"
    unfolding header_ok_def
    using hb(1,2) dst n0 r(4,8) blk dset_range [OF r(1)] st by auto
  assume b: "b \<notin> log_area st"
  then have ne: "b \<noteq> st" using stA by auto
  have wl: "b \<notin> fst ` set ?W" using fst_to_log [of "[0..<?n]" "vw s" ?l] r(4) b st by fastforce
  show "apply_writes D (recovery_writes st D) b = vw s b"
    using ne not_pinned_view [OF ready, of b] r(7) set_take_subset [of j "logged ?l"] apply_writes_other [OF wl, of "memdisk s"]
    unfolding rw by (auto simp: apply_writes_home D)
qed

lemma crash_after:
  assumes ready: "log_ready s" and D: "D = apply_writes (memdisk s) (commit_writes s)" and st: "st = lg_start (lg s)"
  shows "header_ok st sz D" and "b \<notin> log_area st \<Longrightarrow> apply_writes D (recovery_writes st D) b = vw s b"
proof -
  note r = log_readyD [OF ready]
  let ?l = "lg s"
  let ?n = "nat (lh_n (lg_lh ?l))"
  let ?W = "to_log (vw s) ?l [0..<?n]"
  let ?H = "head_bytes (vw s st) (lg_lh ?l)"
  have stA: "st \<in> log_area st" using log_area_member [of 0 st] by simp
  have lenv: "length (vw s st) = BSIZE" unfolding st by (rule header_view [OF ready])
  have D2: "D = (apply_writes (memdisk s) (?W @ [(st, ?H)] @ home_writes (vw s) (logged ?l)))(st := put32 ?H 0 0)"
    by (simp add: D commit_writes_def Let_def st)
  have "get32 (D st) 0 = 0" using lenv by (simp add: D2 BSIZE_def)
  then have h0: "header_n (D st) = 0 \<and> sint (get32 (D st) 0) = 0" by (rule header_empty)
  then show "header_ok st sz D" by (simp add: header_ok_def)
  assume b: "b \<notin> log_area st"
  then have ne: "b \<noteq> st" using stA by auto
  have wl: "b \<notin> fst ` set ?W" using fst_to_log [of "[0..<?n]" "vw s" ?l] r(4) b st by fastforce
  show "apply_writes D (recovery_writes st D) b = vw s b"
    using h0 ne not_pinned_view [OF ready, of b] r(7) apply_writes_other [OF wl, of "memdisk s"]
    by (simp add: recovery_writes_def D2 apply_writes_home)
qed

end
