(* ===== verification/Log_Recovery.thy ===== *)
theory Log_Recovery
  imports Log_Crash
begin

text \<open>
  \<open>initlog\<close> at boot: the code reads the header, copies the logged blocks home and clears the header;
  it performs exactly the block writes \<open>recovery_writes\<close>. With the analysis of the crash points of
  a commit this gives the atomicity of transactions.
\<close>

section \<open>Reading the header\<close>

lemma set_lh_run: "set_lh f s = Inr ((), s\<lparr>lg := (lg s)\<lparr>lg_lh := f (lg_lh (lg s))\<rparr>\<rparr>)"
  by (simp add: set_lh_def set_lg_def run)

lemma foreach_set_lh:
  "foreach ks (\<lambda>k. set_lh (g k)) s =
     Inr ((), s\<lparr>lg := (lg s)\<lparr>lg_lh := foldl (\<lambda>h k. g k h) (lg_lh (lg s)) ks\<rparr>\<rparr>)"
  by (induction ks arbitrary: s) (simp_all add: run bnd_def set_lh_run)

definition header_of :: "u8 list \<Rightarrow> logheader \<Rightarrow> logheader" where
  "header_of d h = foldl (\<lambda>h k. h\<lparr>lh_block := (lh_block h)[k := get32 d (4 + 4 * k)]\<rparr>)
     (h\<lparr>lh_n := sint (get32 d 0)\<rparr>) [0..<header_n d]"

lemma header_of_fold:
  "n \<le> length (lh_block h) \<Longrightarrow>
     (let g = foldl (\<lambda>h k. h\<lparr>lh_block := (lh_block h)[k := f k]\<rparr>) h [0..<n]
      in lh_n g = lh_n h \<and> length (lh_block g) = length (lh_block h) \<and> (\<forall>k < n. lh_block g ! k = f k))"
proof (induction n)
  case (Suc n)
  then show ?case by (auto simp: Let_def nth_list_update less_Suc_eq)
qed simp

lemma header_of_sel:
  assumes "header_n d \<le> length (lh_block h)"
  shows "lh_n (header_of d h) = sint (get32 d 0)" "length (lh_block (header_of d h)) = length (lh_block h)"
    "k < header_n d \<Longrightarrow> lh_block (header_of d h) ! k = get32 d (4 + 4 * k)"
  using header_of_fold [of "header_n d" "h\<lparr>lh_n := sint (get32 d 0)\<rparr>" "\<lambda>k. get32 d (4 + 4 * k)"] assms
  by (simp_all add: header_of_def Let_def)

text \<open>A freshly started system: nothing is held or pinned, and the log's place is known.\<close>

definition log_boot :: "'a lstate_scheme \<Rightarrow> bool" where
  "log_boot s \<longleftrightarrow> bc_inv s \<and> hset s = {} \<and> dset s = {} \<and> log_geom s
     \<and> header_ok (lg_start (lg s)) (disksize s) (memdisk s)"

lemma boot_view: "bc_inv s \<Longrightarrow> hset s = {} \<Longrightarrow> dset s = {} \<Longrightarrow> vw s = memdisk s"
  by (rule ext) (simp add: clean_view)

lemma read_head_ok:
  assumes boot: "log_boot s" and l: "l = (lg s)\<lparr>lg_lh := header_of (memdisk s (lg_start (lg s))) (lg_lh (lg s))\<rparr>"
  shows "ok read_head s (\<lambda>_ t. wrote (s\<lparr>lg := l\<rparr>) [] t)"
proof -
  let ?st = "lg_start (lg s)"
  have b: "bc_inv s" "hset s = {}" "dset s = {}" "log_geom s" "header_ok ?st (disksize s) (memdisk s)"
    using boot by (simp_all add: log_boot_def)
  have dev: "lg_dev (lg s) = 1" using b(4) by (simp add: log_geom_def)
  have st: "?st < disksize s" using b(4) log_area_member [of 0 ?st] by (auto simp: log_geom_def)
  have n: "\<not> sint (get32 (memdisk s ?st) 0) > LOGSIZE" "nat (sint (get32 (memdisk s ?st) 0)) = header_n (memdisk s ?st)"
    using b(5) by (auto simp: header_ok_def header_n_def)
  show ?thesis
    unfolding read_head_def ok_bnd [of "gets _"] ok_gets dev
  proof (rule ok_bndI [OF bcache.rd_law [OF b(1) st]], goal_cases)
    case (3 i t)
    then have t: "bc_inv t" "bframe s t" "vw t = vw s" "memdisk t = memdisk s" "dwrites t = dwrites s"
      "hset t = insert ?st (hset s)" "dset t = dset s" and ht: "held t i ?st" by auto
    have dat: "b_data (bufs t ! i) = memdisk s ?st"
      using held_data(1) [OF t(1) ht] t(3) boot_view [OF b(1-3)] by simp
    have lt: "lg t = lg s" using bframe_lg [OF t(2)] .
    define u where "u = t\<lparr>lg := l\<rparr>"
    have "bnd (get_buf i) (\<lambda>b. bnd (set_lh (\<lambda>h. h\<lparr>lh_n := sint (get32 (b_data b) 0)\<rparr>)) (\<lambda>_.
        bnd (for_blocks (\<lambda>k. set_lh (\<lambda>h. h\<lparr>lh_block := (lh_block h)[k := get32 (b_data b) (4 + 4 * k)]\<rparr>))) (\<lambda>_.
        brelse i))) t = brelse i u"
      using n lt unfolding u_def l
      by (simp add: run bnd_def get_buf_def dat set_lh_run for_blocks_def foreach_set_lh header_of_def
          del: LOGSIZE_nat)
    moreover have "ok (brelse i) u (\<lambda>_ v. wrote (s\<lparr>lg := l\<rparr>) [] v)"
    proof -
      have hu: "bc_inv u" "held u i ?st" "?st \<in> dset u \<or> vw u ?st = memdisk u ?st"
        using t ht boot_view [OF b(1-3)] by (simp_all add: u_def)
      have f: "bframe (s\<lparr>lg := l\<rparr>) u" unfolding u_def using t(2) by (rule bframe_lg_upd)
      show ?thesis
        by (rule ok_mono [OF bcache.rel_law [OF hu]])
          (use t b(2) bframe_trans [OF f] in \<open>auto simp: wrote_def u_def\<close>)
    qed
    ultimately show ?case by (simp add: ok_def)
  qed (use b(2,3) in \<open>auto simp: NBUF_def\<close>)
qed

section \<open>Recovery\<close>

lemma recover_ok:
  assumes boot: "log_boot s" and st: "st = lg_start (lg s)"
    and l: "l = (lg s)\<lparr>lg_lh := (header_of (memdisk s st) (lg_lh (lg s)))\<lparr>lh_n := 0\<rparr>\<rparr>"
  shows "ok recover_from_log s (\<lambda>_ t. wrote (s\<lparr>lg := l\<rparr>) (recovery_writes st (memdisk s)) t)"
proof -
  define D where "D = memdisk s"
  define n where "n = header_n (D st)"
  define g where "g = (lg s)\<lparr>lg_lh := header_of (memdisk s st) (lg_lh (lg s))\<rparr>"
  define s' where "s' = s\<lparr>lg := g\<rparr>"
  define W where "W = to_home D g [0..<n]"
  have b: "bc_inv s" "hset s = {}" "dset s = {}" "log_geom s" "header_ok st (disksize s) D"
    using boot by (simp_all add: log_boot_def D_def st)
  have n29: "n \<le> 29" "0 \<le> sint (get32 (D st) 0)" using b(5) by (simp_all add: header_ok_def n_def)
  then have n30: "header_n (memdisk s st) \<le> length (lh_block (lg_lh (lg s)))"
    using b(4) by (simp add: n_def D_def log_geom_def)
  note hs = header_of_sel [OF n30, folded D_def, folded n_def]
  have gl: "lg_start g = st" "lg_dev g = 1" "length (lh_block (lg_lh g)) = 30" "lh_n (lg_lh g) = sint (get32 (D st) 0)"
    "\<And>k. k < n \<Longrightarrow> lh_block (lg_lh g) ! k = get32 (D st) (4 + 4 * k)"
    using hs b(4) by (simp_all add: g_def st log_geom_def D_def)
  have ng: "\<not> lh_n (lg_lh g) > LOGSIZE" "nat (lh_n (lg_lh g)) = n"
    using n29 gl(4) by (auto simp: n_def header_n_def)
  have vD: "vw s = D" using boot_view [OF b(1-3)] by (simp add: D_def)
  have geom: "log_geom s'" using b(4) gl by (simp add: log_geom_def s'_def st)
  have head: "ok read_head s (\<lambda>_ t. wrote s' [] t)"
    using read_head_ok [OF boot refl] by (simp add: s'_def g_def st)
  have inst: "ok install_trans t (\<lambda>_ u. wrote s' W u)" if w: "wrote s' [] t" for t
  proof -
    note ws = wrote_sel [OF w] and lt = wrote_lg [OF w]
    have vt: "vw t = D" "lg t = g" "dset t = {}" "memdisk t = D" using ws lt vD b(3) by (simp_all add: s'_def D_def)
    have "ok (foreach [0..<n] install_one) t (\<lambda>_ u. wrote t (to_home (vw t) (lg t) [0..<n]) u)"
    proof (rule install_loop [OF ws(1)])
      show "log_geom t" using geom log_geom_cong [OF ws(4)] by simp
      show "lh_block (lg_lh (lg t)) ! k < disksize t" if "k < n" for k
        using that b(5) gl(5) vt ws(2) by (simp add: header_ok_def n_def s'_def)
      show "lh_block (lg_lh (lg t)) ! k \<notin> log_area (lg_start (lg t))" if "k < n" for k
        using that b(5) gl(1,5) vt by (simp add: header_ok_def n_def)
    qed (use ws(3) b(2) n29 vt in \<open>simp_all add: s'_def NBUF_def\<close>)
    then show ?thesis
      using wrote_append [OF w] vt ng
      by (auto simp: install_trans_def for_blocks_def ok_bnd W_def simp del: LOGSIZE_nat elim!: ok_mono)
  qed
  have fin: "ok (bnd (set_lh (\<lambda>h. h\<lparr>lh_n := 0\<rparr>)) (\<lambda>_. write_head)) u
      (\<lambda>_ t. wrote (s\<lparr>lg := l\<rparr>) (W @ [(st, put32 (D st) 0 0)]) t)" if w: "wrote s' W u" for u
  proof -
    note ws = wrote_sel [OF w] and lt = wrote_lg [OF w]
    let ?u = "u\<lparr>lg := l\<rparr>"
    have lg: "lg u = g" using lt by (simp add: s'_def)
    have "st \<notin> fst ` set W"
      using b(5) gl(5) log_area_member [of 0 st] by (auto simp: W_def fst_to_home header_ok_def n_def)
    then have "vw u st = D st" using ws(6) vD by (simp add: apply_writes_other s'_def)
    moreover have "ok write_head ?u (\<lambda>_ t. wrote ?u [(st, head_bytes (vw ?u st) (lg_lh (lg ?u)))] t)"
    proof (rule write_head_ok)
      show "log_geom ?u"
        using b(4) bframe_sel(1) [OF ws(4)] hs(2) by (simp add: log_geom_def l s'_def D_def [symmetric])
      show "card (dset ?u) < NBUF" using ws(5) b(3) by (simp add: s'_def NBUF_def)
    qed (use ws(1,3) b(2) in \<open>simp_all add: l s'_def st\<close>)
    moreover have "head_bytes (D st) (lg_lh l) = put32 (D st) 0 0" by (simp add: head_bytes_def l)
    moreover have "set_lh (\<lambda>h. h\<lparr>lh_n := 0\<rparr>) u = Inr ((), ?u)"
      by (simp add: set_lh_run lg) (simp add: g_def l)
    moreover have "wrote (s\<lparr>lg := l\<rparr>) W ?u" using wrote_lg_upd [OF w, of l] by (simp add: s'_def)
    ultimately show ?thesis
      using wrote_append by (fastforce simp: ok_def bnd_def split: sum.splits)
  qed
  have "recovery_writes st (memdisk s) = W @ [(st, put32 (D st) 0 0)]"
    using gl(1,5) by (simp add: recovery_writes_def W_def to_home_def D_def n_def)
  then show ?thesis
    unfolding recover_from_log_def
    by (simp only:) (rule ok_bndI [OF head], rule ok_bndI [OF inst], assumption, rule fin)
qed

text \<open>The state in which \<open>forkret\<close> calls \<open>initlog\<close>: caches empty, the superblock tells where the log is.\<close>

definition fs_boot :: "'a lstate_scheme \<Rightarrow> u32 \<Rightarrow> bool" where
  "fs_boot s st \<longleftrightarrow> bc_inv s \<and> hset s = {} \<and> dset s = {} \<and> length (lh_block (lg_lh (lg s))) = nat LOGSIZE
     \<and> 1 < disksize s \<and> sb_logstart (sb_of (memdisk s 1)) = st \<and> (\<forall>b \<in> log_area st. b < disksize s)"

lemma readsb_ok:
  assumes "bc_inv s" and "1 < disksize s" and "1 \<notin> hset s" and "card (hset s \<union> dset s) < NBUF"
    and "1 \<in> dset s \<or> vw s 1 = memdisk s 1"
  shows "ok (readsb 1) s (\<lambda>sb t. sb = sb_of (vw s 1) \<and> wrote s [] t)"
  unfolding readsb_def
proof (rule ok_bndI [OF bcache.rd_law [OF assms(1-3)]], goal_cases)
  case (2 i t)
  then have t: "bc_inv t" "bframe s t" "vw t = vw s" "memdisk t = memdisk s" "dwrites t = dwrites s"
    "hset t = insert 1 (hset s)" "dset t = dset s" and ht: "held t i 1" by auto
  have cl: "1 \<in> dset t \<or> vw t 1 = memdisk t 1" using t assms(5) by simp
  have dat: "b_data (bufs t ! i) = vw s 1" using held_data(1) [OF t(1) ht] t(3) by simp
  have "ok (brelse i) t (\<lambda>_ u. wrote s [] u)"
    by (rule ok_mono [OF bcache.rel_law [OF t(1) ht cl]])
      (use t assms(3) bframe_trans [OF t(2)] in \<open>auto simp: wrote_def\<close>)
  then show ?case by (auto simp: get_buf_def ok_bnd dat elim!: ok_mono)
qed (use assms(4) in simp)

lemma no_locks_initlock:
  assumes "no_locks s" and "initlock lk nm s = Inr ((), t)"
  shows "no_locks t" and "t = s\<lparr>mlocks := mlocks t\<rparr>"
  using assms by (auto simp: initlock_def run no_locks_def lk_free_def simp del: no_locks_free no_locks_cli)

lemma bc_inv_mlocks:
  assumes "bc_inv s" and "no_locks t" and "t = s\<lparr>mlocks := f\<rparr>"
  shows "bc_inv t" "hset t = hset s" "dset t = dset s" "vw t = vw s" "memdisk t = memdisk s" "disksize t = disksize s"
    "dwrites t = dwrites s"
  using assms by (simp_all add: bc_inv_def hset_def dset_def vw_def)

definition log_idle :: "'a lstate_scheme \<Rightarrow> u32 \<Rightarrow> bool" where
  "log_idle s st \<longleftrightarrow> log_ready s \<and> lg_start (lg s) = st \<and> lh_n (lg_lh (lg s)) = 0 \<and> dset s = {}"

lemma initlog_ok:
  assumes boot: "fs_boot s st" and ho: "header_ok st (disksize s) (memdisk s)"
  shows "ok (initlog 1) s (\<lambda>_ t. memdisk t = apply_writes (memdisk s) (recovery_writes st (memdisk s))
    \<and> log_idle t st \<and> disksize t = disksize s \<and> dwrites t = dwrites s @ recovery_writes st (memdisk s))"
proof -
  have b: "bc_inv s" "hset s = {}" "dset s = {}" "length (lh_block (lg_lh (lg s))) = 30" "1 < disksize s"
    "sb_logstart (sb_of (memdisk s 1)) = st" "\<forall>b \<in> log_area st. b < disksize s"
    using boot by (simp_all add: fs_boot_def)
  obtain t where t: "initlock Lk_log ''log'' s = Inr ((), t)" by (simp add: initlock_def run)
  note nl = no_locks_initlock [OF bc_invD(1) [OF b(1)] t]
  note tt = bc_inv_mlocks [OF b(1) nl] and lt = arg_cong [OF nl(2), of lg, simplified]
  have vt: "vw t 1 = memdisk s 1" using tt(4) boot_view [OF b(1-3)] by simp
  have rest: "ok (bnd (set_lg (\<lambda>l. l\<lparr>lg_start := sb_logstart sb\<rparr>)) (\<lambda>_. bnd (set_lg (\<lambda>l. l\<lparr>lg_size := sint (sb_nlog sb)\<rparr>)) (\<lambda>_.
      bnd (set_lg (\<lambda>l. l\<lparr>lg_dev := 1\<rparr>)) (\<lambda>_. recover_from_log)))) u
      (\<lambda>_ v. memdisk v = apply_writes (memdisk s) (recovery_writes st (memdisk s)) \<and> log_idle v st \<and> disksize v = disksize s
        \<and> dwrites v = dwrites s @ recovery_writes st (memdisk s))"
    if u: "sb = sb_of (vw t 1) \<and> wrote t [] u" for sb u
  proof -
    note ws = wrote_sel [OF conjunct2 [OF u]] and lu = wrote_lg [OF conjunct2 [OF u]]
    have sbs: "sb_logstart sb = st" using u vt b(6) by simp
    define w where "w = u\<lparr>lg := (lg u)\<lparr>lg_start := st, lg_size := sint (sb_nlog sb), lg_dev := 1\<rparr>\<rparr>"
    have mw: "memdisk w = memdisk s" "disksize w = disksize s" using ws tt by (simp_all add: w_def)
    have "log_boot w"
      unfolding log_boot_def log_geom_def using ws tt lu lt b ho by (simp add: w_def)
    from recover_ok [OF this refl refl] have
      "ok recover_from_log w (\<lambda>_ v. memdisk v = apply_writes (memdisk s) (recovery_writes st (memdisk s)) \<and> log_idle v st \<and> disksize v = disksize s
        \<and> dwrites v = dwrites s @ recovery_writes st (memdisk s))"
    proof (rule ok_mono)
      fix v
      let ?st = "lg_start (lg w)"
      let ?l = "(lg w)\<lparr>lg_lh := (header_of (memdisk w ?st) (lg_lh (lg w)))\<lparr>lh_n := 0\<rparr>\<rparr>"
      assume v: "wrote (w\<lparr>lg := ?l\<rparr>) (recovery_writes ?st (memdisk w)) v"
      note vs = wrote_sel [OF v] and lv = wrote_lg [OF v]
      have st: "?st = st" by (simp add: w_def)
      have m: "memdisk v = apply_writes (memdisk s) (recovery_writes st (memdisk s))" using vs(7) st mw by simp
      have dv: "dwrites v = dwrites s @ recovery_writes st (memdisk s)" using vs(8) ws(8) tt(7) st mw by (simp add: w_def)
      have h29: "header_n (memdisk s st) \<le> length (lh_block (lg_lh (lg w)))"
        using ho b(4) lu lt by (simp add: header_ok_def w_def)
      have lvs: "lg_start (lg v) = st" "lh_n (lg_lh (lg v)) = 0" "lg_dev (lg v) = 1" "length (lh_block (lg_lh (lg v))) = 30"
        using lv header_of_sel(2) [OF h29] b(4) lu lt st mw by (simp_all add: w_def)
      have sl: "length (memdisk s st) = BSIZE"
        using bc_invD(5) [OF b(1), of st] b(7) log_area_member [of 0 st] by simp
      have "get32 (memdisk v st) 0 = 0" using sl by (simp add: m recovery_writes_def BSIZE_def)
      moreover have "dset v = {}" "hset v = {}" "disksize v = disksize s"
        using vs(2,3,5) ws tt b(2,3) mw by (simp_all add: w_def)
      ultimately have "log_idle v st"
        unfolding log_idle_def log_ready_def log_geom_def using vs(1) lvs b(7) by (simp add: logged_def)
      with m show "memdisk v = apply_writes (memdisk s) (recovery_writes st (memdisk s)) \<and> log_idle v st \<and> disksize v = disksize s
        \<and> dwrites v = dwrites s @ recovery_writes st (memdisk s)"
        using \<open>disksize v = disksize s\<close> dv by blast
    qed
    then show ?thesis using sbs by (simp add: ok_bnd set_lg_def w_def)
  qed
  have "ok (readsb 1) t (\<lambda>sb u. sb = sb_of (vw t 1) \<and> wrote t [] u)"
    by (rule readsb_ok) (use tt b vt in \<open>auto simp: NBUF_def\<close>)
  then have "ok (bnd (readsb 1) (\<lambda>sb. bnd (set_lg (\<lambda>l. l\<lparr>lg_start := sb_logstart sb\<rparr>)) (\<lambda>_. bnd (set_lg (\<lambda>l. l\<lparr>lg_size := sint (sb_nlog sb)\<rparr>)) (\<lambda>_.
      bnd (set_lg (\<lambda>l. l\<lparr>lg_dev := 1\<rparr>)) (\<lambda>_. recover_from_log))))) t
      (\<lambda>_ v. memdisk v = apply_writes (memdisk s) (recovery_writes st (memdisk s)) \<and> log_idle v st \<and> disksize v = disksize s
        \<and> dwrites v = dwrites s @ recovery_writes st (memdisk s))"
    by (rule ok_bndI) (rule rest)
  then show ?thesis
    using t by (simp add: initlog_def sizeof_logheader_def BSIZE_def ok_def bnd_def)
qed

end
