(* ===== verification/Log_Trans.thy ===== *)
theory Log_Trans
  imports Log_Recovery
begin

text \<open>
  Transactions: \<open>begin_op\<close> reserves log space, \<open>log_write\<close> adds a block to the transaction,
  \<open>end_op\<close> commits, and a crash anywhere in the commit is recovered to all or nothing.
\<close>

section \<open>The invariant of an open transaction\<close>

definition log_inv :: "'a lstate_scheme \<Rightarrow> bool" where
  "log_inv s \<longleftrightarrow> bc_inv s \<and> log_geom s
     \<and> 0 \<le> lh_n (lg_lh (lg s)) \<and> lh_n (lg_lh (lg s)) < LOGSIZE
     \<and> distinct (logged (lg s)) \<and> set (logged (lg s)) = dset s
     \<and> dset s \<inter> log_area (lg_start (lg s)) = {}
     \<and> get32 (memdisk s (lg_start (lg s))) 0 = 0"

lemma log_ready_iff: "log_ready s \<longleftrightarrow> log_inv s \<and> hset s = {}"
  by (auto simp: log_ready_def log_inv_def)

lemma lk_take_lstate [simp]:
  "lg (lk_take lk s) = lg s" "(lk_take lk s)\<lparr>lg := l\<rparr> = lk_take lk (s\<lparr>lg := l\<rparr>)"
  unfolding lk_take_def by simp_all

lemma no_locks_lstate [simp]: "lk_free lk (s\<lparr>lg := l\<rparr>) = lk_free lk s" "no_locks (s\<lparr>lg := l\<rparr>) = no_locks s"
  by (simp_all add: no_locks_def lk_free_def del: no_locks_free no_locks_cli)

section \<open>\<open>begin_op\<close>\<close>

lemma begin_op_enters:
  assumes "no_locks s" and "\<not> lg_committing (lg s)"
    and "lh_n (lg_lh (lg s)) + (lg_outstanding (lg s) + 1) * MAXOPBLOCKS \<le> LOGSIZE"
  shows "begin_op s = Inr ((), s\<lparr>lg := (lg s)\<lparr>lg_outstanding := lg_outstanding (lg s) + 1\<rparr>\<rparr>)"
  using assms
  by (simp add: begin_op_def begin_op_loop_def run bnd_def acquire_run release_take set_lg_def not_less)

lemma begin_op_sleeps:
  assumes "no_locks s" and "ncli (mcpu s) = 0" and "curproc s = Some i" and "i < length (procs s)"
    and "lg_committing (lg s) \<or> lh_n (lg_lh (lg s)) + (lg_outstanding (lg s) + 1) * MAXOPBLOCKS > LOGSIZE"
  shows "begin_op s = Inl (Swtch, lk_take Lk_ptable
    (s\<lparr>procs := (procs s)[i := (procs s ! i)\<lparr>p_chan := ChLog, p_state := SLEEPING\<rparr>]\<rparr>))"
  using assms(5) sleep_run [OF assms(1-4), of ChLog Lk_log] assms(1)
  by (auto simp: begin_op_def begin_op_loop_def run bnd_def acquire_run)

section \<open>\<open>log_write\<close>\<close>

lemma take_update: "k < length xs \<Longrightarrow> take (Suc k) (xs[k := x]) = take k xs @ [x]"
  by (simp add: take_Suc_conv_app_nth)

lemma log_slot_cases:
  assumes "length (lh_block h) = 30" and "0 \<le> lh_n h" and "lh_n h < 30"
  shows "b \<in> set (take (nat (lh_n h)) (lh_block h)) \<Longrightarrow> log_slot h b < nat (lh_n h) \<and> lh_block h ! log_slot h b = b"
    and "b \<notin> set (take (nat (lh_n h)) (lh_block h)) \<Longrightarrow> log_slot h b = nat (lh_n h)"
proof -
  assume "b \<in> set (take (nat (lh_n h)) (lh_block h))"
  then obtain k where k: "find_idx (\<lambda>x. x = b) (take (nat (lh_n h)) (lh_block h)) = Some k"
    using find_idx_None [of "\<lambda>x. x = b"] by (metis (mono_tags) option.exhaust)
  from find_idx_SomeD [OF k] k show "log_slot h b < nat (lh_n h) \<and> lh_block h ! log_slot h b = b"
    using assms by (auto simp: log_slot_def)
next
  assume "b \<notin> set (take (nat (lh_n h)) (lh_block h))"
  then have "find_idx (\<lambda>x. x = b) (take (nat (lh_n h)) (lh_block h)) = None"
    unfolding find_idx_None by blast
  then show "log_slot h b = nat (lh_n h)" by (simp add: log_slot_def)
qed

text \<open>The header after \<open>log_write\<close>: a block that is logged already is absorbed.\<close>

definition add_block :: "logheader \<Rightarrow> u32 \<Rightarrow> logheader" where
  "add_block h b = (let k = log_slot h b
     in h\<lparr>lh_block := (lh_block h)[k := b], lh_n := if int k = lh_n h then lh_n h + 1 else lh_n h\<rparr>)"

lemma add_block_logged:
  assumes "length (lh_block h) = 30" and "0 \<le> lh_n h" and "lh_n h < 30"
  defines "L \<equiv> take (nat (lh_n h)) (lh_block h)"
  shows "take (nat (lh_n (add_block h b))) (lh_block (add_block h b)) = (if b \<in> set L then L else L @ [b])"
    and "lh_n (add_block h b) = (if b \<in> set L then lh_n h else lh_n h + 1)"
    and "length (lh_block (add_block h b)) = 30"
proof -
  note ls = log_slot_cases [OF assms(1-3), of b, folded L_def]
  show "length (lh_block (add_block h b)) = 30" using assms(1) by (simp add: add_block_def Let_def)
  have "lh_n (add_block h b) = (if b \<in> set L then lh_n h else lh_n h + 1) \<and>
    take (nat (lh_n (add_block h b))) (lh_block (add_block h b)) = (if b \<in> set L then L else L @ [b])"
  proof (cases "b \<in> set L")
    case True
    from ls(1) [OF True] have k: "log_slot h b < nat (lh_n h)" "(lh_block h)[log_slot h b := b] = lh_block h"
      using list_update_id [of "lh_block h" "log_slot h b"] by auto
    then show ?thesis using True by (auto simp: add_block_def Let_def L_def)
  next
    case False
    have k: "log_slot h b = nat (lh_n h)" by (rule ls(2) [OF False])
    moreover have "nat (lh_n h + 1) = Suc (nat (lh_n h))" "nat (lh_n h) < length (lh_block h)" using assms by auto
    ultimately show ?thesis
      using False assms(2) by (simp add: add_block_def Let_def L_def take_update)
  qed
  then show "lh_n (add_block h b) = (if b \<in> set L then lh_n h else lh_n h + 1)"
    "take (nat (lh_n (add_block h b))) (lh_block (add_block h b)) = (if b \<in> set L then L else L @ [b])" by blast+
qed

lemma log_write_run:
  assumes "no_locks s" and "i < length (bufs s)"
    and "lh_n (lg_lh (lg s)) < LOGSIZE" and "lh_n (lg_lh (lg s)) < lg_size (lg s) - 1" and "1 \<le> lg_outstanding (lg s)"
  shows "log_write i s = Inr ((), s\<lparr>lg := (lg s)\<lparr>lg_lh := add_block (lg_lh (lg s)) (b_blockno (bufs s ! i))\<rparr>,
    bufs := (bufs s)[i := (bufs s ! i)\<lparr>b_flags := b_flags (bufs s ! i) OR B_DIRTY\<rparr>]\<rparr>)"
  using assms
  by (simp add: log_write_def run bnd_def acquire_run release_take set_lh_run get_buf_def set_buf_def
      add_block_def Let_def not_le cong: if_cong)

lemma log_write_ok:
  assumes inv: "log_inv s" and h: "held s i b" and area: "b \<notin> log_area (lg_start (lg s))"
    and room: "lh_n (lg_lh (lg s)) < LOGSIZE - 1" "lh_n (lg_lh (lg s)) < lg_size (lg s) - 1"
    and out: "1 \<le> lg_outstanding (lg s)"
  shows "ok (log_write i) s (\<lambda>_ t. log_inv t \<and> vw t = vw s \<and> memdisk t = memdisk s \<and> dwrites t = dwrites s
    \<and> hset t = hset s \<and> (\<forall>j c. held t j c \<longleftrightarrow> held s j c) \<and> dset t = insert b (dset s)
    \<and> logged (lg t) = (if b \<in> dset s then logged (lg s) else logged (lg s) @ [b])
    \<and> (\<exists>bs hd. t = s\<lparr>lg := (lg s)\<lparr>lg_lh := hd\<rparr>, bufs := bs\<rparr>))"
proof -
  have v: "bc_inv s" "log_geom s" "0 \<le> lh_n (lg_lh (lg s))" "distinct (logged (lg s))"
    "set (logged (lg s)) = dset s" "dset s \<inter> log_area (lg_start (lg s)) = {}" "get32 (memdisk s (lg_start (lg s))) 0 = 0"
    using inv by (simp_all add: log_inv_def)
  note hd = held_data [OF v(1) h]
  have i: "i < NBUF" "busy (bufs s ! i)" "b_blockno (bufs s ! i) = b" using h by (simp_all add: held_def)
  define x where "x = (bufs s ! i)\<lparr>b_flags := b_flags (bufs s ! i) OR B_DIRTY\<rparr>"
  define g where "g = (lg s)\<lparr>lg_lh := add_block (lg_lh (lg s)) b\<rparr>"
  define u where "u = s\<lparr>bufs := (bufs s)[i := x]\<rparr>"
  define t where "t = u\<lparr>lg := g\<rparr>"
  have xs: "b_next x = b_next (bufs s ! i)" "b_prev x = b_prev (bufs s ! i)" "b_dev x = 1" "b_blockno x = b"
    "busy x" "valid x" "length (b_data x) = BSIZE" and dx: "dirty x" "b_data x = vw s b"
    using hd i by (simp_all add: x_def flag_simps)
  note c = bc_touch [OF v(1) h xs u_def]
  have l30: "length (lh_block (lg_lh (lg s))) = 30" using v(2) by (simp add: log_geom_def)
  have n30: "lh_n (lg_lh (lg s)) < 30" using room(1) by simp
  note ab = add_block_logged [OF l30 v(3) n30, of b, folded logged_def]
  have run: "log_write i s = Inr ((), t)"
    using log_write_run [OF bc_invD(1) [OF v(1)], of i] i bc_invD(2) [OF v(1)] room out
    by (simp add: t_def u_def x_def g_def)
  have lgt: "logged (lg t) = (if b \<in> dset s then logged (lg s) else logged (lg s) @ [b])"
    using ab(1) v(5) by (simp add: t_def g_def logged_def)
  have "vw t = vw s" using c(2) dx(2) by (simp add: t_def fun_eq_iff)
  moreover have "log_geom t" using v(2) ab(3) by (simp add: log_geom_def t_def u_def g_def)
  moreover have "0 \<le> lh_n (lg_lh (lg t)) \<and> lh_n (lg_lh (lg t)) < LOGSIZE"
    using ab(2) v(3) room(1) by (simp add: t_def g_def)
  moreover have "dset t = insert b (dset s)" using c(4) dx(1) by (simp add: t_def)
  moreover have "distinct (logged (lg t))" "set (logged (lg t)) = insert b (dset s)" using lgt v(4,5) by auto
  moreover have "t = s\<lparr>lg := (lg s)\<lparr>lg_lh := add_block (lg_lh (lg s)) b\<rparr>, bufs := (bufs s)[i := x]\<rparr>"
    by (simp add: t_def u_def g_def)
  then have "\<exists>bs hd. t = s\<lparr>lg := (lg s)\<lparr>lg_lh := hd\<rparr>, bufs := bs\<rparr>" by blast
  moreover have "bc_inv t" "hset t = hset s" "\<forall>j k. held t j k \<longleftrightarrow> held s j k" "memdisk t = memdisk s"
    "dwrites t = dwrites s" "lg_start (lg t) = lg_start (lg s)"
    using c(1,3,5) by (simp_all add: t_def) (simp_all add: u_def g_def)
  moreover have "insert b (dset s) \<inter> log_area (lg_start (lg s)) = {}" using v(6) area by simp
  ultimately show ?thesis
    using v(7) lgt unfolding ok_def run log_inv_def by simp
qed

section \<open>\<open>end_op\<close>\<close>

lemma commit_idle:
  assumes ready: "log_ready s"
  shows "ok commit s (\<lambda>_ t. log_ready t \<and> lg t = lg_empty (lg s) \<and> dset t = {} \<and> vw t = memdisk t
    \<and> (\<forall>b. b \<notin> log_area (lg_start (lg s)) \<longrightarrow> memdisk t b = vw s b) \<and> disksize t = disksize s)"
proof -
  note r = log_readyD [OF ready]
  show ?thesis
  proof (cases "0 < lh_n (lg_lh (lg s))")
    case True
    let ?s = "s\<lparr>lg := lg_empty (lg s)\<rparr>"
    show ?thesis
    proof (rule ok_mono [OF commit_ok [OF ready True]])
      fix t assume w: "wrote ?s (commit_writes s) t"
      note ws = wrote_sel [OF w] and lt = wrote_lg [OF w]
      define D where "D = apply_writes (memdisk s) (commit_writes s)"
      let ?st = "lg_start (lg s)"
      have mt: "memdisk t = D" using ws(7) by (simp add: D_def)
      have "dset s \<subseteq> fst ` set (commit_writes s)"
        unfolding r(7) [symmetric] commit_writes_def Let_def home_writes_def by force
      then have dt: "dset t = {}" using ws(5) by auto
      note ca = crash_after [OF ready D_def refl]
      have hz: "header_n (D ?st) = 0"
        using header_view [OF ready] by (intro conjunct1 [OF header_empty]) (simp add: D_def commit_writes_def Let_def BSIZE_def)
      have z: "get32 (D ?st) 0 = 0"
        using header_view [OF ready] by (simp add: D_def commit_writes_def Let_def BSIZE_def)
      have "memdisk t b = vw s b" if "b \<notin> log_area ?st" for b
        using ca(2) [OF that] that hz log_area_member [of 0 ?st] mt
        by (cases "b = ?st") (auto simp: recovery_writes_def)
      moreover have "log_geom t" using r(3) bframe_sel(1) [OF ws(4)] lt by (simp add: log_geom_def lg_empty_def)
      moreover have "vw t = memdisk t" using boot_view [OF ws(1)] ws(3) r(2) dt by simp
      ultimately show "log_ready t \<and> lg t = lg_empty (lg s) \<and> dset t = {} \<and> vw t = memdisk t
        \<and> (\<forall>b. b \<notin> log_area ?st \<longrightarrow> memdisk t b = vw s b) \<and> disksize t = disksize s"
        using ws(1,3) r(2) lt dt z mt bframe_sel(1) [OF ws(4)]
        by (auto simp: log_ready_def lg_empty_def logged_def)
    qed
  next
    case False
    then have z: "lh_n (lg_lh (lg s)) = 0" using ready by (simp add: log_ready_def)
    then have d: "dset s = {}" using r(7) by (simp add: logged_def)
    then have "vw s = memdisk s" using boot_view [OF r(1,2)] by simp
    moreover have "lg s = lg_empty (lg s)" using z by (simp add: lg_empty_def)
    ultimately show ?thesis using z d ready by (simp add: commit_def ok_bnd)
  qed
qed

definition set_committing :: "bool \<Rightarrow> int \<Rightarrow> log \<Rightarrow> log" where
  "set_committing c n l = l\<lparr>lg_outstanding := n, lg_committing := c\<rparr>"

lemma log_ready_committing: "log_ready (s\<lparr>lg := set_committing c n (lg s)\<rparr>) = log_ready s"
  by (simp add: log_ready_def log_geom_def set_committing_def logged_def)

lemma log_ready_procs: "log_ready (s\<lparr>procs := ps\<rparr>) = log_ready s"
  by (simp add: log_ready_def log_geom_def bc_inv_procs [OF refl])

text \<open>The last system call of a transaction commits it.\<close>

lemma end_op_ok:
  assumes ready: "log_ready s" and out: "lg_outstanding (lg s) = 1" and com: "\<not> lg_committing (lg s)"
  shows "ok end_op s (\<lambda>_ t. log_idle t (lg_start (lg s)) \<and> lg t = set_committing False 0 (lg_empty (lg s))
    \<and> (\<forall>b. b \<notin> log_area (lg_start (lg s)) \<longrightarrow> memdisk t b = vw s b) \<and> vw t = memdisk t \<and> disksize t = disksize s)"
proof -
  note nl = bc_invD(1) [OF log_readyD(1) [OF ready]]
  define u where "u = s\<lparr>lg := set_committing True 0 (lg s)\<rparr>"
  have ru: "log_ready u" using ready by (simp add: u_def log_ready_committing)
  have "end_op s = bnd commit (\<lambda>_. bnd (acquire Lk_log) (\<lambda>_. bnd (set_lg (\<lambda>l. l\<lparr>lg_committing := False\<rparr>)) (\<lambda>_.
      bnd (wakeup ChLog) (\<lambda>_. release Lk_log)))) u"
    using nl out com
    by (simp add: end_op_def run bnd_def acquire_run release_take set_lg_def u_def set_committing_def)
  moreover have "ok (bnd commit (\<lambda>_. bnd (acquire Lk_log) (\<lambda>_. bnd (set_lg (\<lambda>l. l\<lparr>lg_committing := False\<rparr>)) (\<lambda>_.
      bnd (wakeup ChLog) (\<lambda>_. release Lk_log))))) u
    (\<lambda>_ t. log_idle t (lg_start (lg s)) \<and> lg t = set_committing False 0 (lg_empty (lg s))
    \<and> (\<forall>b. b \<notin> log_area (lg_start (lg s)) \<longrightarrow> memdisk t b = vw s b) \<and> vw t = memdisk t \<and> disksize t = disksize s)"
  proof (rule ok_bndI [OF commit_idle [OF ru]], elim conjE)
    fix t
    assume t: "log_ready t" "lg t = lg_empty (lg u)" "dset t = {}" "vw t = memdisk t"
      "\<forall>b. b \<notin> log_area (lg_start (lg u)) \<longrightarrow> memdisk t b = vw u b" "disksize t = disksize u"
    define w where "w = t\<lparr>lg := (lg t)\<lparr>lg_committing := False\<rparr>, procs := map (wake ChLog) (procs t)\<rparr>"
    have nt: "no_locks t" by (rule bc_invD(1) [OF log_readyD(1) [OF t(1)]])
    have "bnd (acquire Lk_log) (\<lambda>_. bnd (set_lg (\<lambda>l. l\<lparr>lg_committing := False\<rparr>)) (\<lambda>_.
      bnd (wakeup ChLog) (\<lambda>_. release Lk_log))) t = Inr ((), w)"
      using nt by (simp add: run bnd_def acquire_run release_take set_lg_def wakeup_run w_def)
    moreover have lw: "lg w = set_committing False 0 (lg_empty (lg s))"
      using t(2) by (simp add: w_def u_def set_committing_def lg_empty_def)
    have "w = (t\<lparr>lg := set_committing False 0 (lg t)\<rparr>)\<lparr>procs := map (wake ChLog) (procs t)\<rparr>"
      using t(2) by (simp add: w_def u_def set_committing_def lg_empty_def)
    then have "log_ready w" "dset w = {}" "vw w = memdisk w"
      using t(1,3,4) by (simp_all add: log_ready_procs log_ready_committing bc_inv_procs [OF refl])
    then have "log_idle w (lg_start (lg s))" using lw by (simp add: log_idle_def set_committing_def lg_empty_def)
    ultimately show "ok (bnd (acquire Lk_log) (\<lambda>_. bnd (set_lg (\<lambda>l. l\<lparr>lg_committing := False\<rparr>)) (\<lambda>_.
      bnd (wakeup ChLog) (\<lambda>_. release Lk_log)))) t
      (\<lambda>_ t. log_idle t (lg_start (lg s)) \<and> lg t = set_committing False 0 (lg_empty (lg s))
      \<and> (\<forall>b. b \<notin> log_area (lg_start (lg s)) \<longrightarrow> memdisk t b = vw s b) \<and> vw t = memdisk t \<and> disksize t = disksize s)"
      using t(5,6) lw \<open>vw w = memdisk w\<close> by (simp add: ok_def w_def u_def set_committing_def)
  qed
  ultimately show ?thesis by (simp add: ok_def)
qed

lemma end_op_more:
  assumes "no_locks s" and "lg_outstanding (lg s) \<noteq> 1" and "\<not> lg_committing (lg s)"
  shows "end_op s = Inr ((), s\<lparr>lg := (lg s)\<lparr>lg_outstanding := lg_outstanding (lg s) - 1\<rparr>,
    procs := map (wake ChLog) (procs s)\<rparr>)"
  using assms
  by (simp add: end_op_def run bnd_def acquire_run release_take set_lg_def wakeup_run)

end
