(* ===== verification/Bio_Props.thy ===== *)
theory Bio_Props
  imports Bio_Cache
begin

text \<open>
  Start of the buffer cache (\<open>binit\<close>), and the properties of the cache on the model's own states.
\<close>

section \<open>\<open>binit\<close>\<close>

text \<open>\<open>binit\<close> puts one buffer after the other in front of the list.\<close>

definition partial_ring :: "buf list \<Rightarrow> nat list \<Rightarrow> bool" where
  "partial_ring bs xs \<longleftrightarrow> length bs = NBUF + 1 \<and> distinct xs \<and> NBUF \<notin> set xs
     \<and> dl (nxt bs) (prv bs) (NBUF # xs @ [NBUF])"

definition link_buf :: "nat \<Rightarrow> buf list \<Rightarrow> buf list" where
  "link_buf i bs =
     (let bs1 = set_next bs i (nxt bs NBUF);
          bs2 = set_prev bs1 i NBUF;
          bs3 = bs2[i := (bs2 ! i)\<lparr>b_dev := - 1\<rparr>];
          bs4 = set_prev bs3 (nxt bs3 NBUF) i
      in set_next bs4 NBUF i)"

lemma binit_link_run: "binit_link i s = Inr ((), s\<lparr>bufs := link_buf i (bufs s)\<rparr>)"
  by (simp add: binit_link_def run upd_bufs_def set_buf_def link_buf_def Let_def nxt_def)

lemma links_dev: "nxt (bs[i := (bs ! i)\<lparr>b_dev := d\<rparr>]) = nxt bs" "prv (bs[i := (bs ! i)\<lparr>b_dev := d\<rparr>]) = prv bs"
  by (auto simp: fun_eq_iff nxt_def prv_def nth_update_if)

lemma partial_ring_link:
  assumes "partial_ring bs xs" and "i < NBUF" and "i \<notin> set xs" and "set xs \<subseteq> {..<NBUF}"
  shows "partial_ring (link_buf i bs) (i # xs)"
proof -
  have len: "length bs = NBUF + 1" and dis: "distinct xs" "NBUF \<notin> set xs"
    and dl: "dl (nxt bs) (prv bs) (NBUF # xs @ [NBUF])"
    using assms(1) by (simp_all add: partial_ring_def)
  obtain x ws where x: "xs @ [NBUF] = x # ws" by (cases "xs @ [NBUF]") auto
  have d: "dl (nxt bs) (prv bs) (NBUF # x # ws)" using dl x by simp
  then have nx: "nxt bs NBUF = x" by simp
  have "x \<in> set (xs @ [NBUF])" unfolding x by simp
  then have lx: "x < length bs" using assms(4) len by auto
  have bl: "butlast (x # ws) = xs" using arg_cong [OF x, of butlast] by simp
  have dw: "distinct (x # ws)" "i \<notin> set (x # ws)" unfolding x [symmetric] using dis assms(2,3) by simp_all
  have "dl ((nxt bs)(i := x, NBUF := i)) ((prv bs)(i := NBUF, x := i)) (NBUF # i # x # ws)"
    by (rule dl_insert [OF d]) (use dw dis assms(2) bl in simp_all)
  moreover have "nxt (link_buf i bs) = (nxt bs)(i := x, NBUF := i)" "prv (link_buf i bs) = (prv bs)(i := NBUF, x := i)"
    using nx lx len assms(2) by (simp_all add: link_buf_def Let_def links_dev)
  moreover have "length (link_buf i bs) = NBUF + 1" using len by (simp add: link_buf_def Let_def)
  ultimately show ?thesis
    using dis assms(2,3) x by (auto simp: partial_ring_def)
qed

lemma link_buf_payload:
  "j \<noteq> i \<Longrightarrow> same_payload (link_buf i bs ! j) (bs ! j)"
  "i < length bs \<Longrightarrow> b_dev (link_buf i bs ! i) = - 1 \<and> b_flags (link_buf i bs ! i) = b_flags (bs ! i)
     \<and> b_data (link_buf i bs ! i) = b_data (bs ! i)"
  by (auto simp: link_buf_def Let_def set_next_def set_prev_def nth_update_if same_payload_def)

lemma foreach_links:
  "foreach is binit_link s = Inr ((), s\<lparr>bufs := fold link_buf is (bufs s)\<rparr>)"
  by (induction "is" arbitrary: s) (simp_all add: run bnd_def binit_link_run)

lemma fold_links:
  assumes "partial_ring bs []" and "k \<le> NBUF"
  shows "partial_ring (fold link_buf [0..<k] bs) (rev [0..<k]) \<and>
    (\<forall>j < k. b_dev (fold link_buf [0..<k] bs ! j) = - 1) \<and>
    (\<forall>j. b_flags (fold link_buf [0..<k] bs ! j) = b_flags (bs ! j) \<and> b_data (fold link_buf [0..<k] bs ! j) = b_data (bs ! j))"
  using assms(2)
proof (induction k)
  case 0
  then show ?case using assms(1) by simp
next
  case (Suc k)
  let ?b = "fold link_buf [0..<k] bs"
  have IH: "partial_ring ?b (rev [0..<k])" "\<forall>j < k. b_dev (?b ! j) = - 1"
    "\<forall>j. b_flags (?b ! j) = b_flags (bs ! j) \<and> b_data (?b ! j) = b_data (bs ! j)"
    using Suc by simp_all
  have len: "length ?b = NBUF + 1" using IH(1) by (simp add: partial_ring_def)
  have "partial_ring (link_buf k ?b) (k # rev [0..<k])"
    using IH(1) Suc.prems by (intro partial_ring_link) auto
  moreover have "b_dev (link_buf k ?b ! j) = - 1" if "j < Suc k" for j
    using IH(2) that link_buf_payload(1) [of j k ?b] link_buf_payload(2) [of k ?b] len Suc.prems
    by (cases "j = k") (auto simp: same_payload_def)
  moreover have "b_flags (link_buf k ?b ! j) = b_flags (bs ! j) \<and> b_data (link_buf k ?b ! j) = b_data (bs ! j)" for j
    using IH(3) link_buf_payload(1) [of j k ?b] link_buf_payload(2) [of k ?b] len Suc.prems
    by (cases "j = k") (auto simp: same_payload_def)
  ultimately show ?case by simp
qed

text \<open>The buffers as the loader leaves them: zero, of the right size.\<close>

definition zeroed_bufs :: "'a bstate_scheme \<Rightarrow> bool" where
  "zeroed_bufs s \<longleftrightarrow> no_locks s \<and> length (bufs s) = NBUF + 1
     \<and> (\<forall>j \<le> NBUF. b_flags (bufs s ! j) = 0 \<and> length (b_data (bufs s ! j)) = BSIZE)
     \<and> (\<forall>b < disksize s. length (memdisk s b) = BSIZE)"

lemma no_locks_initlock_bstate:
  "no_locks s \<Longrightarrow> no_locks (s\<lparr>mlocks := (mlocks s)(lk := (mlocks s lk)\<lparr>lkname := n, locked := 0, lkcpu := None\<rparr>)\<rparr>)"
  by (auto simp: no_locks_def lk_free_def simp del: no_locks_free no_locks_cli)

lemma binit_ok:
  assumes z: "zeroed_bufs s"
  shows "ok binit s (\<lambda>_ t. bc_inv t \<and> hset t = {} \<and> dset t = {} \<and> vw t = memdisk s \<and> memdisk t = memdisk s)"
proof -
  define s1 where "s1 = s\<lparr>mlocks := (mlocks s)(Lk_bcache := (mlocks s Lk_bcache)\<lparr>lkname := ''bcache'', locked := 0, lkcpu := None\<rparr>)\<rparr>"
  define b0 where "b0 = set_next (set_prev (bufs s) NBUF NBUF) NBUF NBUF"
  define bs where "bs = fold link_buf [0..<NBUF] b0"
  define t where "t = s1\<lparr>bufs := bs\<rparr>"
  have len: "length (bufs s) = NBUF + 1" using z by (simp add: zeroed_bufs_def)
  have pr: "partial_ring b0 []" using len by (simp add: partial_ring_def b0_def)
  have pl: "same_payload (b0 ! j) (bufs s ! j)" for j
    unfolding b0_def using same_payload_set same_payload_trans by blast
  note fl = fold_links [OF pr order_refl, folded bs_def]
  have ring: "ring bs (rev [0..<NBUF])" using fl by (auto simp: partial_ring_def ring_def)
  have dev: "b_dev (bs ! j) = - 1" "b_flags (bs ! j) = 0" "length (b_data (bs ! j)) = BSIZE" if "j < NBUF" for j
    using fl that pl [of j] z by (simp_all add: same_payload_def zeroed_bufs_def)
  have nl: "no_locks s1" using z unfolding s1_def zeroed_bufs_def by (simp add: no_locks_initlock_bstate)
  have inv: "bc_inv t"
    unfolding bc_inv_def
  proof (intro conjI)
    show "\<exists>xs. ring (bufs t) xs" using ring by (auto simp: t_def)
    show "one_copy (bufs t)" using dev by (simp add: one_copy_def t_def)
    show "\<forall>i < NBUF. buf_ok (memdisk t) (disksize t) (bufs t ! i)" using dev by (simp add: buf_ok_def t_def)
    show "\<forall>b < disksize t. length (memdisk t b) = BSIZE" using z by (simp add: zeroed_bufs_def t_def s1_def)
  qed (simp add: t_def nl)
  have e: "hset t = {}" "dset t = {}" using dev by (simp_all add: hset_def dset_def t_def)
  have "vw t = memdisk t"
  proof
    fix b
    have "\<forall>i < NBUF. \<not> matches b (bufs t ! i)" using dev by (simp add: t_def)
    then show "vw t b = memdisk t b" using cview_miss [OF bc_invD(2) [OF inv]] by (simp add: vw_def)
  qed
  moreover have "binit s = Inr ((), t)"
    by (simp add: binit_def run bnd_def initlock_def upd_bufs_def foreach_links t_def s1_def bs_def b0_def)
  ultimately show ?thesis using inv e by (simp add: ok_def t_def s1_def)
qed

section \<open>Concrete caches\<close>

text \<open>The buffers \<open>binit\<close> leaves behind, and the same with block \<open>b\<close> pinned in buffer 0.\<close>

definition zero_buf :: buf where
  "zero_buf = \<lparr>b_flags = 0, b_dev = 0, b_blockno = 0, b_prev = 0, b_next = 0, b_qnext = None, b_data = replicate BSIZE 0\<rparr>"

definition idle_bufs :: "buf list" where
  "idle_bufs = fold link_buf [0..<NBUF] (set_next (set_prev (replicate (NBUF + 1) zero_buf) NBUF NBUF) NBUF NBUF)"

definition one_buf :: "u32 \<Rightarrow> u32 \<Rightarrow> u8 list \<Rightarrow> buf list" where
  "one_buf f b d = idle_bufs[0 := (idle_bufs ! 0)\<lparr>b_flags := f, b_dev := 1, b_blockno := b, b_data := d\<rparr>]"

lemma idle_bufs_sel:
  "ring idle_bufs (rev [0..<NBUF])" "length idle_bufs = NBUF + 1"
  "j < NBUF \<Longrightarrow> b_dev (idle_bufs ! j) = - 1 \<and> b_flags (idle_bufs ! j) = 0 \<and> length (b_data (idle_bufs ! j)) = BSIZE"
proof -
  let ?z = "replicate (NBUF + 1) zero_buf"
  let ?b = "set_next (set_prev ?z NBUF NBUF) NBUF NBUF"
  have pr: "partial_ring ?b []" by (simp add: partial_ring_def)
  have pl: "same_payload (?b ! j) (?z ! j)" for j
    using same_payload_set same_payload_trans by blast
  note fl = fold_links [OF pr order_refl, folded idle_bufs_def]
  then show r: "ring idle_bufs (rev [0..<NBUF])" by (auto simp: partial_ring_def ring_def)
  then show "length idle_bufs = NBUF + 1" by (simp add: ring_def)
  show "j < NBUF \<Longrightarrow> b_dev (idle_bufs ! j) = - 1 \<and> b_flags (idle_bufs ! j) = 0 \<and> length (b_data (idle_bufs ! j)) = BSIZE"
    using fl pl [of j] by (simp add: same_payload_def zero_buf_def del: replicate_Suc)
qed

lemma idle_cache:
  assumes "no_locks s" and "bufs s = idle_bufs" and "\<forall>b < disksize s. length (memdisk s b) = BSIZE"
  shows "bc_inv s" "hset s = {}" "dset s = {}" "vw s = memdisk s"
proof -
  note ib = idle_bufs_sel
  show inv: "bc_inv s"
    unfolding bc_inv_def using assms ib by (auto simp: one_copy_def buf_ok_def)
  show "hset s = {}" "dset s = {}" using ib(3) assms(2) by (simp_all add: hset_def dset_def)
  show "vw s = memdisk s"
  proof
    fix b
    have "\<forall>i < NBUF. \<not> matches b (bufs s ! i)" using ib(3) assms(2) by simp
    then show "vw s b = memdisk s b" using cview_miss [OF bc_invD(2) [OF inv]] by (simp add: vw_def)
  qed
qed

lemma one_cached:
  assumes "no_locks s" and "bufs s = one_buf f b d" and "\<forall>b < disksize s. length (memdisk s b) = BSIZE"
    and "b < disksize s" and "length d = BSIZE" and f: "f = 3 \<or> f = 6"
  shows "bc_inv s" "hset s = (if f = 3 then {b} else {})" "dset s = (if f = 6 then {b} else {})"
    "vw s = (memdisk s)(b := d)" "held s 0 b \<longleftrightarrow> f = 3"
proof -
  define u where "u = s\<lparr>bufs := idle_bufs\<rparr>"
  have iu: "bc_inv u" "vw u = memdisk u" using idle_cache [of u] assms(1,3) by (simp_all add: u_def)
  define x where "x = (idle_bufs ! 0)\<lparr>b_flags := f, b_dev := 1, b_blockno := b, b_data := d\<rparr>"
  have nb: "(0::nat) < NBUF" by (simp add: NBUF_def)
  have s: "s = u\<lparr>bufs := (bufs u)[0 := x]\<rparr>" using assms(2) by (simp add: u_def one_buf_def x_def)
  have fl: "busy x \<longleftrightarrow> f = 3" "dirty x \<longleftrightarrow> f = 6" "valid x" using f by (auto simp: x_def)
  have oth: "\<not> matches c (bufs u ! j)" if "j < NBUF" for j c using idle_bufs_sel(3) [OF that] by (simp add: u_def)
  show inv: "bc_inv s"
    unfolding s
    by (rule bc_inv_update [OF iu(1) nb])
      (use oth assms(4,5) f fl in \<open>auto simp: buf_ok_def x_def u_def\<close>)
  have nob: "\<not> busy (idle_bufs ! j)" "\<not> dirty (idle_bufs ! j)" if "j < NBUF" for j
    using idle_bufs_sel(3) [OF that] by simp_all
  show "hset s = (if f = 3 then {b} else {})"
    unfolding s hset_update [OF iu(1) nb] using fl nob by (auto simp: u_def x_def)
  show "dset s = (if f = 6 then {b} else {})"
    unfolding s dset_update [OF iu(1) nb] using fl nob by (auto simp: u_def x_def)
  show "vw s = (memdisk s)(b := d)"
    using cview_update [OF bc_invD(3,2) [OF iu(1)] nb, of x "memdisk s"] oth iu(2) oth [OF nb] s
    by (auto simp: vw_def x_def fun_eq_iff)
  have "length idle_bufs > 0" using idle_bufs_sel(2) by simp
  then show "held s 0 b \<longleftrightarrow> f = 3"
    using fl(1) nb assms(2) by (simp add: held_def one_buf_def x_def)
qed

text \<open>A machine with one CPU that holds no lock, a disk of 100 zeroed blocks, and the buffers \<open>bs\<close>.\<close>

definition disk0 :: "buf list \<Rightarrow> bstate" where
  "disk0 bs = \<lparr>mcpu = \<lparr>cid = 0, iflag = True, ncli = 0, intena = True\<rparr>,
     mlocks = \<lambda>_. \<lparr>locked = 0, lkname = [], lkcpu = None\<rparr>,
     kmem_bytes = \<lambda>_. 0, kend = 0, use_lock = True, freelist = 0,
     procs = [], curproc = None, initproc = None, nextpid = 1,
     memdisk = \<lambda>_. replicate BSIZE 0, disksize = 100, dwrites = [], bufs = bs\<rparr>"

lemma disk0_sel [simp]:
  "no_locks (disk0 bs)" "bufs (disk0 bs) = bs" "disksize (disk0 bs) = 100" "memdisk (disk0 bs) b = replicate BSIZE 0"
  by (simp_all add: disk0_def no_locks_def cli_ok_def lk_free_def del: no_locks_free no_locks_cli)

lemmas disk0_idle = idle_cache [of "disk0 idle_bufs", simplified]
lemmas disk0_held = one_cached [of "disk0 (one_buf 3 50 (replicate BSIZE 0))" 3 50 "replicate BSIZE 0", simplified]

section \<open>Properties\<close>

lemma find_append_k: "find P (ys @ k # zs) = (case find P ys of None \<Rightarrow> if P k then Some k else find P zs | Some x \<Rightarrow> Some x)"
  by (induction ys) auto

text \<open>
  C26. \<open>bread\<close> returns a locked buffer that holds the block: with the block not locked by anybody and
  a buffer to spare, it returns (no panic, no wait), the caller holds the block, the buffer has the
  contents every user sees for that block, and the contents of no block change, neither as seen
  through the cache nor on disk.
\<close>

theorem bread_returns_block:
  assumes "bc_inv s" and "bno < disksize s" and "bno \<notin> hset s" and "card (hset s \<union> dset s) < NBUF"
  shows "ok (bread 1 bno) s (\<lambda>i t. bc_inv t \<and> held t i bno \<and> b_data (bufs t ! i) = vw s bno
    \<and> vw t = vw s \<and> memdisk t = memdisk s \<and> dset t = dset s \<and> hset t = insert bno (hset s))"
proof -
  have c: "bno \<in> dset s \<or> card (hset s \<union> dset s) < NBUF" using assms(4) by simp
  have d: "b_data (bufs t ! i) = vw t bno" if "bc_inv t" "\<forall>j c. held t j c \<longleftrightarrow> held s j c \<or> j = i \<and> c = bno" for i t
    by (rule held_data(1) [OF that(1)]) (simp add: that(2))
  show ?thesis by (rule ok_mono [OF bcache.rd_law [OF assms(1-3) c]]) (auto simp: d)
qed

theorem bread_returns_block_witness:
  "ok (bread 1 50) (disk0 idle_bufs) (\<lambda>i t. b_data (bufs t ! i) = replicate BSIZE 0)"
  by (rule ok_mono [OF bread_returns_block [where bno = 50]]) (simp_all add: disk0_idle NBUF_def)

text \<open>
  C3. A written block stays written: a holder that changes the data, writes and releases the block has
  changed that block and no other on disk, and the next \<open>bread\<close> of any block, in this or another
  process, returns the contents of the disk as changed.
\<close>

theorem bwrite_brelse_bread:
  assumes "bc_inv s" and "held s i b" and "length d = BSIZE" and "hset s = {b}" and "dset s = {}"
    and "c < disksize s"
  shows "ok (bnd (set_buf i (\<lambda>x. x\<lparr>b_data := d\<rparr>)) (\<lambda>_. bnd (bwrite i) (\<lambda>_. bnd (brelse i) (\<lambda>_. bread 1 c)))) s
    (\<lambda>j t. memdisk t = (memdisk s)(b := d) \<and> b_data (bufs t ! j) = (if c = b then d else memdisk s c))"
proof -
  define t where "t = s\<lparr>bufs := (bufs s)[i := (bufs s ! i)\<lparr>b_data := d\<rparr>]\<rparr>"
  note c = set_data_post [OF assms(1-3) t_def]
  have ht: "held t i b" using c(5) assms(2) by simp
  have base: "vw s e = memdisk s e" if "e \<noteq> b" for e
  proof (cases "\<exists>k < NBUF. matches e (bufs s ! k)")
    case True
    then obtain k where k: "k < NBUF" "matches e (bufs s ! k)" by blast
    then have "\<not> busy (bufs s ! k)" "\<not> dirty (bufs s ! k)"
      using that assms(4,5) unfolding hset_def dset_def by blast+
    with k bc_invD(4) [OF assms(1) k(1)] cview_hit [OF bc_invD(3,2) [OF assms(1)] k] show ?thesis
      by (simp add: buf_ok_def vw_def)
  next
    case False
    then show ?thesis using cview_miss [OF bc_invD(2) [OF assms(1)], of e] by (simp add: vw_def)
  qed
  have "ok (bwrite i) t (\<lambda>_ u. ok (brelse i) u (\<lambda>_ v. ok (bread 1 c) v
    (\<lambda>j t. memdisk t = (memdisk s)(b := d) \<and> b_data (bufs t ! j) = (if c = b then d else memdisk s c))))"
  proof (rule ok_mono [OF bcache.wr_law [OF c(1) ht]], elim conjE)
    fix u assume u: "bc_inv u" "vw u = vw t" "memdisk u = (memdisk t)(b := vw t b)" "disksize u = disksize t"
      "hset u = hset t" "dset u = dset t - {b}" "\<forall>j c. held u j c \<longleftrightarrow> held t j c"
    then have hu: "held u i b" "b \<in> dset u \<or> vw u b = memdisk u b" using ht by auto
    show "ok (brelse i) u (\<lambda>_ v. ok (bread 1 c) v
      (\<lambda>j t. memdisk t = (memdisk s)(b := d) \<and> b_data (bufs t ! j) = (if c = b then d else memdisk s c)))"
    proof (rule ok_mono [OF bcache.rel_law [OF u(1) hu]], elim conjE)
      fix v assume v: "bc_inv v" "vw v = vw u" "memdisk v = memdisk u" "disksize v = disksize u"
        "hset v = hset u - {b}" "dset v = dset u"
      have pre: "c < disksize v" "c \<notin> hset v" "c \<in> dset v \<or> card (hset v \<union> dset v) < NBUF"
        using v u c assms(4-6) by (simp_all add: NBUF_def)
      show "ok (bread 1 c) v (\<lambda>j t. memdisk t = (memdisk s)(b := d) \<and> b_data (bufs t ! j) = (if c = b then d else memdisk s c))"
      proof (rule ok_mono [OF bcache.rd_law [OF v(1) pre]], elim conjE)
        fix j w assume w: "bc_inv w" "vw w = vw v" "memdisk w = memdisk v"
          "\<forall>k e. held w k e \<longleftrightarrow> held v k e \<or> k = j \<and> e = c"
        have "b_data (bufs w ! j) = vw w c" by (rule held_data(1) [OF w(1)]) (simp add: w(4))
        then show "memdisk w = (memdisk s)(b := d) \<and> b_data (bufs w ! j) = (if c = b then d else memdisk s c)"
          using w(2,3) v(2,3) u(2,3) c base by auto
      qed
    qed
  qed
  then show ?thesis by (simp add: ok_bnd set_buf_def t_def)
qed

theorem bwrite_brelse_bread_witness:
  "ok (bnd (set_buf 0 (\<lambda>x. x\<lparr>b_data := replicate BSIZE 7\<rparr>)) (\<lambda>_. bnd (bwrite 0) (\<lambda>_. bnd (brelse 0) (\<lambda>_. bread 1 50))))
     (disk0 (one_buf 3 50 (replicate BSIZE 0))) (\<lambda>j t. b_data (bufs t ! j) = replicate BSIZE 7)"
  by (rule ok_mono [OF bwrite_brelse_bread [where b = 50 and c = 50 and i = 0 and d = "replicate BSIZE 7"]]) (simp_all add: disk0_held)

text \<open>
  C27. Replacement is least recently used: a released buffer moves to the front of the list, and a
  block that is not cached takes the clean idle buffer that is nearest to the back.
\<close>

theorem brelse_lru:
  assumes "bc_inv s" and "ring (bufs s) xs" and "held s i b" and "\<forall>j < NBUF. \<not> matches c (bufs s ! j)"
    and "rev (i # remove1 i xs) = ys @ k # zs" and "\<forall>j \<in> set ys. busy (bufs s ! j) \<or> dirty (bufs s ! j)"
    and "k \<noteq> i" and "\<not> busy (bufs s ! k)" and "\<not> dirty (bufs s ! k)"
  shows "ok (brelse i) s (\<lambda>_ t. ring (bufs t) (i # remove1 i xs) \<and> ok (bget 1 c) t (\<lambda>j _. j = k))"
proof -
  have i: "i < NBUF" using assms(3) by (simp add: held_def)
  define m where "m = mtf (bufs s) i"
  have ring: "ring m (i # remove1 i xs)" unfolding m_def by (rule ring_mtf [OF assms(2) i])
  define bs where "bs = m[i := (m ! i)\<lparr>b_flags := b_flags (m ! i) AND NOT B_BUSY\<rparr>]"
  define t where "t = s\<lparr>procs := map (wake (ChBuf i)) (procs s), bufs := bs\<rparr>"
  have rt: "ring (bufs t) (i # remove1 i xs)" unfolding t_def bs_def using ring_update [OF ring] by simp
  have pay: "b_dev (bs ! j) = b_dev (bufs s ! j)" "b_blockno (bs ! j) = b_blockno (bufs s ! j)"
    "j \<noteq> i \<Longrightarrow> b_flags (bs ! j) = b_flags (bufs s ! j)" for j
    using same_payload_mtf [of "bufs s" i j] by (auto simp: bs_def m_def same_payload_def nth_update_if)
  have dis: "distinct (i # remove1 i xs)" and se: "set (i # remove1 i xs) = {..<NBUF}"
    using rt by (simp_all add: ring_def)
  have "distinct (ys @ k # zs)" unfolding assms(5) [symmetric] using dis by simp
  moreover have last: "i \<in> set zs"
    using assms(5,7) by (cases zs rule: rev_cases) auto
  ultimately have nys: "i \<notin> set ys" by auto
  let ?P = "\<lambda>j. \<not> busy (bs ! j) \<and> \<not> dirty (bs ! j)"
  have "busy (bs ! j) \<or> dirty (bs ! j)" if j: "j \<in> set ys" for j
  proof -
    have "j \<noteq> i" using j nys by blast
    then show ?thesis using bspec [OF assms(6) j] pay(3) by simp
  qed
  then have none_ys: "find ?P ys = None" by (auto simp: find_None_iff)
  have fnd: "find ?P (rev (i # remove1 i xs)) = Some k"
    unfolding assms(5) find_append_k none_ys using assms(8,9) pay(3) [OF assms(7)] by simp
  have none: "find (\<lambda>j. matches c (bs ! j)) (i # remove1 i xs) = None"
    unfolding find_None_iff se using assms(4) pay by auto
  have nt: "no_locks t" using bc_invD(1) [OF assms(1)] by (simp add: t_def)
  have k: "k < NBUF" using se assms(5) by (metis in_set_conv_decomp lessThan_iff set_rev)
  have len: "length bs = NBUF + 1" using rt by (simp add: t_def ring_def)
  have "bget 1 c t = Inr (k, t\<lparr>bufs := bs[k := (bs ! k)\<lparr>b_dev := 1, b_blockno := c, b_flags := B_BUSY\<rparr>]\<rparr>)"
    using nt bget_cached_ring [of "lk_take Lk_bcache t" "i # remove1 i xs" 1 c]
      bget_recycle_ring [of "lk_take Lk_bcache t" "i # remove1 i xs"] rt none fnd k len
    by (simp add: bget_def bget_loop_def bnd_def run get_buf_def set_buf_def acquire_run release_take t_def)
  then show ?thesis
    using rt brelse_run [OF assms(1,3)] by (simp add: ok_def t_def bs_def m_def)
qed

theorem brelse_lru_witness:
  "ok (brelse 0) (disk0 (one_buf 3 50 (replicate BSIZE 0))) (\<lambda>_ t. ok (bget 1 7) t (\<lambda>j _. j = 1))"
proof -
  let ?s = "disk0 (one_buf 3 50 (replicate BSIZE 0))"
  have r: "ring (bufs ?s) (rev [0..<NBUF])"
    using ring_update [OF idle_bufs_sel(1)] by (simp add: one_buf_def)
  have u: "[0..<NBUF] = 0 # 1 # [2..<NBUF]" by (simp add: NBUF_def upt_rec)
  have m: "\<not> matches 7 (bufs ?s ! j)" if "j < NBUF" for j
    using idle_bufs_sel(2,3) that by (simp add: one_buf_def nth_update_if)
  have k: "\<not> busy (bufs ?s ! 1)" "\<not> dirty (bufs ?s ! 1)"
    using idle_bufs_sel(3) [of 1] by (simp_all add: one_buf_def NBUF_def)
  have e: "rev (0 # remove1 0 (rev [0..<NBUF])) = [] @ 1 # ([2..<NBUF] @ [0])"
    by (simp add: u remove1_append)
  show ?thesis
    by (rule ok_mono [OF brelse_lru [where b = 50 and c = 7, OF disk0_held(1) r _ _ e]]) (use m k in \<open>simp_all add: disk0_held\<close>)
qed

end
