(* ===== verification/Log_Props.thy ===== *)
theory Log_Props
  imports Log_Trans Bio_Props
begin

text \<open>
  The properties of the log: a transaction that is cut off by a crash happens completely or not at
  all, recovery can itself be cut off and started again, and the bookkeeping of \<open>begin_op\<close>,
  \<open>log_write\<close> and \<open>end_op\<close>.
\<close>

section \<open>Prefixes of the write sequences\<close>

lemma take_home_writes: "take j (home_writes v L) = home_writes v (take j L)"
  by (simp add: home_writes_def take_map)

lemma apply_writes_overwrite:
  "fst ` set V \<subseteq> fst ` set W \<Longrightarrow> apply_writes (apply_writes D V) W = apply_writes D W"
proof (induction W rule: rev_induct)
  case (snoc w W)
  show ?case
  proof
    fix b
    obtain c d where w: "w = (c, d)" by fastforce
    have "b = c \<or> apply_writes (apply_writes D V) W b = apply_writes D W b"
    proof (cases "b \<in> fst ` set W")
      case True
      have "apply_writes (apply_writes E V) W b = apply_writes E W b" for E
        using True
      proof (induction W arbitrary: E rule: rev_induct)
        case (snoc x xs)
        then show ?case by (cases x) auto
      qed simp
      then show ?thesis by simp
    next
      case False
      then have "b = c \<or> b \<notin> fst ` set V" using snoc.prems w by auto
      with False show ?thesis by (auto simp: apply_writes_other)
    qed
    then show "apply_writes (apply_writes D V) (W @ [w]) b = apply_writes D (W @ [w]) b"
      by (auto simp: w)
  qed
qed simp

lemma commit_prefix:
  assumes ready: "log_ready s" and k: "k \<le> length (commit_writes s)"
  defines "n \<equiv> nat (lh_n (lg_lh (lg s)))" and "st \<equiv> lg_start (lg s)"
    and "D \<equiv> apply_writes (memdisk s) (take k (commit_writes s))"
  shows "header_ok st (disksize s) D"
    and "b \<notin> log_area st \<Longrightarrow> apply_writes D (recovery_writes st D) b = (if k \<le> n then memdisk s b else vw s b)"
proof -
  let ?W = "to_log (vw s) (lg s) [0..<n]"
  let ?H = "head_bytes (vw s st) (lg_lh (lg s))"
  have cw: "commit_writes s = ?W @ [(st, ?H)] @ home_writes (vw s) (logged (lg s)) @ [(st, put32 ?H 0 0)]"
    by (simp add: commit_writes_def Let_def n_def st_def)
  have lens: "length ?W = n" "length (home_writes (vw s) (logged (lg s))) = n"
    using length_logged [OF ready] by (simp_all add: to_log_def home_writes_def n_def)
  consider "k \<le> n" | "n < k" "k \<le> 2 * n + 1" | "k = 2 * n + 2" using k lens by (fastforce simp: cw)
  then have "header_ok st (disksize s) D \<and> (b \<notin> log_area st \<longrightarrow>
    apply_writes D (recovery_writes st D) b = (if k \<le> n then memdisk s b else vw s b))"
  proof cases
    case 1
    then have D: "D = apply_writes (memdisk s) (take k (to_log (vw s) (lg s) [0..<nat (lh_n (lg_lh (lg s)))]))"
      using lens by (simp add: D_def cw n_def)
    show ?thesis using crash_before [OF ready D st_def [THEN meta_eq_to_obj_eq]] 1 by simp
  next
    case 2
    then have D: "D = apply_writes (memdisk s) (to_log (vw s) (lg s) [0..<nat (lh_n (lg_lh (lg s)))] @ [(st, ?H)]
        @ home_writes (vw s) (take (k - n - 1) (logged (lg s))))"
      using lens by (simp add: D_def cw n_def take_Cons' take_home_writes)
    show ?thesis using crash_between [OF ready st_def [THEN meta_eq_to_obj_eq] refl D] 2 by simp
  next
    case 3
    then have D: "D = apply_writes (memdisk s) (commit_writes s)" using lens by (simp add: D_def cw)
    show ?thesis using crash_after [OF ready D st_def [THEN meta_eq_to_obj_eq]] 3 by simp
  qed
  then show "header_ok st (disksize s) D"
    "b \<notin> log_area st \<Longrightarrow> apply_writes D (recovery_writes st D) b = (if k \<le> n then memdisk s b else vw s b)"
    by blast+
qed

section \<open>Recovery that is cut off\<close>

lemma recovery_prefix:
  assumes ho: "header_ok st sz D" and D': "D' = apply_writes D (take j (recovery_writes st D))"
    and len: "length (D st) = BSIZE"
  shows "header_ok st sz D'"
    and "b \<notin> log_area st \<Longrightarrow> apply_writes D' (recovery_writes st D') b = apply_writes D (recovery_writes st D) b"
proof -
  let ?n = "header_n (D st)"
  let ?M = "map (\<lambda>k. (get32 (D st) (4 + 4 * k), D (st + of_nat (Suc k)))) [0..<?n]"
  have rw: "recovery_writes st D = ?M @ [(st, put32 (D st) 0 0)]" by (simp add: recovery_writes_def)
  have stA: "st \<in> log_area st" using log_area_member [of 0 st] by simp
  have notin: "fst ` set (take i ?M) \<inter> log_area st = {}" for i
  proof -
    have "fst ` set ?M \<inter> log_area st = {}" using ho by (auto simp: header_ok_def)
    then show ?thesis using set_take_subset [of i ?M] by blast
  qed
  have "header_ok st sz D' \<and> (b \<notin> log_area st \<longrightarrow>
    apply_writes D' (recovery_writes st D') b = apply_writes D (recovery_writes st D) b)"
  proof (cases "j \<le> ?n")
    case True
    then have e: "D' = apply_writes D (take j ?M)" by (simp add: D' rw)
    have same: "D' c = D c" if "c \<in> log_area st" for c
      unfolding e using notin [of j] that by (intro apply_writes_other) blast
    have area: "st + of_nat (Suc k) \<in> log_area st" if "k < ?n" for k
      using that ho by (intro log_area_member) (simp add: header_ok_def)
    have "recovery_writes st D' = recovery_writes st D"
      using same [OF stA] same [OF area] by (simp add: recovery_writes_def del: of_nat_Suc)
    moreover have "fst ` set (take j ?M) \<subseteq> fst ` set (recovery_writes st D)"
      unfolding rw using set_take_subset [of j ?M] by auto
    ultimately show ?thesis using same [OF stA] ho apply_writes_overwrite unfolding e
      by (simp add: header_ok_def)
  next
    case False
    then have e: "D' = apply_writes D (recovery_writes st D)" by (simp add: D' rw)
    have z: "get32 (D' st) 0 = 0" unfolding e rw using len by (simp add: BSIZE_def)
    then have "recovery_writes st D' = [(st, put32 (D' st) 0 0)]"
      using header_empty [OF z] by (simp add: recovery_writes_def)
    then show ?thesis using header_empty [OF z] stA e by (auto simp: header_ok_def)
  qed
  then show "header_ok st sz D'"
    "b \<notin> log_area st \<Longrightarrow> apply_writes D' (recovery_writes st D') b = apply_writes D (recovery_writes st D) b"
    by blast+
qed

section \<open>A concrete log\<close>

text \<open>
  A file system image of 100 blocks whose super block places the log at block 2, and the running
  system with the log header \<open>h\<close> and the buffers \<open>bs\<close>.
\<close>

definition image0 :: "u32 \<Rightarrow> u8 list" where
  "image0 b = (if b = 1 then put32 (put32 (replicate BSIZE 0) 12 30) 16 2 else replicate BSIZE 0)"

definition log0 :: "logheader \<Rightarrow> int \<Rightarrow> log" where
  "log0 h n = \<lparr>lg_start = 2, lg_size = 30, lg_outstanding = n, lg_committing = False, lg_dev = 1, lg_lh = h\<rparr>"

definition sys0 :: "buf list \<Rightarrow> (u32 \<Rightarrow> u8 list) \<Rightarrow> logheader \<Rightarrow> int \<Rightarrow> lstate" where
  "sys0 bs D h n = bstate.extend (disk0 bs \<lparr>memdisk := D\<rparr>) \<lparr>lg = log0 h n\<rparr>"

lemma sys0_sel [simp]:
  "no_locks (sys0 bs D h n)" "bufs (sys0 bs D h n) = bs" "disksize (sys0 bs D h n) = 100" "memdisk (sys0 bs D h n) = D"
  "lg (sys0 bs D h n) = log0 h n" "ncli (mcpu (sys0 bs D h n)) = 0" "procs (sys0 bs D h n) = []"
  by (simp_all add: sys0_def bstate.defs disk0_def no_locks_def cli_ok_def lk_free_def del: no_locks_free no_locks_cli)

lemma image0_sel [simp]:
  "length (image0 b) = BSIZE" "b \<noteq> 1 \<Longrightarrow> image0 b = replicate BSIZE 0" "sb_logstart (sb_of (image0 1)) = 2"
  by (simp_all add: image0_def sb_of_def BSIZE_def)

definition head0 :: "int \<Rightarrow> u32 \<Rightarrow> logheader" where
  "head0 n b = \<lparr>lh_n = n, lh_block = b # replicate 29 0\<rparr>"

lemma area0: "b \<in> log_area 2 \<Longrightarrow> b < 100" "b \<in> log_area 2 \<Longrightarrow> b < 32" "b \<in> log_area 2 \<Longrightarrow> b \<noteq> 1"
proof -
  assume "b \<in> log_area 2"
  then obtain k where "k < 30" "b = 2 + of_nat k" by (auto simp: log_area_def)
  then have "unat b = 2 + k" by (simp add: unat_of_nat32 unat_word_ariths)
  then show "b < 32" "b < 100" "b \<noteq> 1" using \<open>k < 30\<close> by (auto simp: word_less_nat_alt)
qed

lemma boot0: "fs_boot (sys0 idle_bufs D h n) 2"
  if "\<forall>b < 100. length (D b) = BSIZE" "D 1 = image0 1" "length (lh_block h) = 30"
  using idle_cache [of "sys0 idle_bufs D h n"] that area0(1) by (simp add: fs_boot_def log0_def)

lemma ready0: "log_ready (sys0 (one_buf 6 50 (replicate BSIZE 7)) image0 (head0 1 50) n)"
proof -
  let ?s = "sys0 (one_buf 6 50 (replicate BSIZE 7)) image0 (head0 1 50) n"
  have "bc_inv ?s" "hset ?s = {}" "dset ?s = {50}"
    using one_cached [of ?s 6 50 "replicate BSIZE 7"] by simp_all
  moreover have "(50::u32) \<notin> log_area 2" using area0(2) [of 50] by auto
  ultimately show ?thesis using area0(1)
    by (simp add: log_ready_def log_geom_def log0_def head0_def logged_def BSIZE_def get32_def)
qed

section \<open>Properties\<close>

text \<open>
  C1. Transactions are atomic. \<open>commit\<close> finishes and performs the block writes \<open>commit_writes\<close>. If
  the machine stops after any number \<open>k\<close> of these writes and boots again, \<open>initlog\<close> finishes, leaves an
  empty log, and every block outside the log has either its old contents, for all blocks alike (the
  header was not yet written), or the contents the transaction gave it, for all blocks alike.
\<close>

theorem commit_crash_atomic:
  assumes "log_ready s" and "0 < lh_n (lg_lh (lg s))" and "k \<le> length (commit_writes s)"
    and "fs_boot u (lg_start (lg s))" and "disksize u = disksize s"
    and "memdisk u = apply_writes (memdisk s) (take k (commit_writes s))"
  shows "ok commit s (\<lambda>_ t. dwrites t = dwrites s @ commit_writes s)
    \<and> ok (initlog 1) u (\<lambda>_ v. log_idle v (lg_start (lg s)) \<and> (\<forall>b. b \<notin> log_area (lg_start (lg s)) \<longrightarrow>
        memdisk v b = (if k \<le> nat (lh_n (lg_lh (lg s))) then memdisk s b else vw s b)))"
proof
  show "ok commit s (\<lambda>_ t. dwrites t = dwrites s @ commit_writes s)"
    by (rule ok_mono [OF commit_ok [OF assms(1,2)]]) (simp add: wrote_def)
  note cp = commit_prefix [OF assms(1,3), folded assms(5,6)]
  show "ok (initlog 1) u (\<lambda>_ v. log_idle v (lg_start (lg s)) \<and> (\<forall>b. b \<notin> log_area (lg_start (lg s)) \<longrightarrow>
      memdisk v b = (if k \<le> nat (lh_n (lg_lh (lg s))) then memdisk s b else vw s b)))"
    by (rule ok_mono [OF initlog_ok [OF assms(4) cp(1)]]) (use cp(2) in auto)
qed

theorem commit_crash_atomic_witness:
  "let s = sys0 (one_buf 6 50 (replicate BSIZE 7)) image0 (head0 1 50) 1;
       u = sys0 idle_bufs (apply_writes image0 (take 2 (commit_writes s))) (head0 0 0) 0
   in ok (initlog 1) u (\<lambda>_ v. memdisk v 50 = replicate BSIZE 7)"
proof -
  define s where "s = sys0 (one_buf 6 50 (replicate BSIZE 7)) image0 (head0 1 50) 1"
  define D where "D = apply_writes image0 (take 2 (commit_writes s))"
  have v: "vw s = image0(50 := replicate BSIZE 7)"
    using one_cached(4) [of s 6 50 "replicate BSIZE 7"] by (simp add: s_def)
  have ls: "lg s = log0 (head0 1 50) 1" by (simp add: s_def)
  have cw: "commit_writes s = [(3, replicate BSIZE 7), (2, head_bytes (image0 2) (head0 1 50)),
      (50, replicate BSIZE 7), (2, put32 (head_bytes (image0 2) (head0 1 50)) 0 0)]"
    using v ls by (simp add: commit_writes_def Let_def log0_def head0_def to_log_def home_writes_def logged_def)
  have "length (head_bytes (image0 2) (head0 1 50)) = BSIZE" by (simp add: head_bytes_def head0_def)
  then have "\<forall>b < 100. length (D b) = BSIZE" "D 1 = image0 1" by (simp_all add: D_def cw numeral_2_eq_2)
  then have b: "fs_boot (sys0 idle_bufs D (head0 0 0) 0) (lg_start (lg s))"
    using boot0 [of D "head0 0 0" 0] by (simp add: head0_def s_def log0_def)
  have n50: "(50::u32) \<notin> log_area (lg_start (lg s))" using area0(2) [of 50] by (auto simp: ls log0_def)
  have m: "disksize (sys0 idle_bufs D (head0 0 0) 0) = disksize s"
    "memdisk (sys0 idle_bufs D (head0 0 0) 0) = apply_writes (memdisk s) (take 2 (commit_writes s))"
    by (simp_all add: s_def D_def)
  have n: "0 < lh_n (lg_lh (lg s))" "2 \<le> length (commit_writes s)" "\<not> 2 \<le> nat (lh_n (lg_lh (lg s)))"
    by (simp_all add: ls log0_def head0_def cw)
  note c = commit_crash_atomic [OF ready0 [of 1, folded s_def] n(1,2) b m, THEN conjunct2]
  have "ok (initlog 1) (sys0 idle_bufs D (head0 0 0) 0) (\<lambda>_ v. memdisk v 50 = replicate BSIZE 7)"
    by (rule ok_mono [OF c]) (use n50 n(3) v in simp)
  then show ?thesis by (simp add: Let_def D_def s_def)
qed

text \<open>
  C6. Recovery can be cut off as well. Let \<open>W\<close> be the block writes that \<open>initlog\<close> performs, as the disk has recorded
  them. If the machine stops after any number \<open>j\<close> of them and boots again, the second \<open>initlog\<close> finishes, leaves an
  empty log, and leaves the same disk, outside the log, as the recovery that was not cut off.
\<close>

theorem recovery_restarts:
  assumes "fs_boot s st" and "header_ok st (disksize s) (memdisk s)"
  shows "ok (initlog 1) s (\<lambda>_ t. \<exists>W. dwrites t = dwrites s @ W \<and> memdisk t = apply_writes (memdisk s) W
    \<and> (\<forall>j u. fs_boot u st \<longrightarrow> disksize u = disksize s \<longrightarrow> memdisk u = apply_writes (memdisk s) (take j W) \<longrightarrow>
         ok (initlog 1) u (\<lambda>_ v. log_idle v st \<and> (\<forall>b. b \<notin> log_area st \<longrightarrow> memdisk v b = memdisk t b))))"
proof (rule ok_mono [OF initlog_ok [OF assms]], elim conjE)
  let ?W = "recovery_writes st (memdisk s)"
  have len: "length (memdisk s st) = BSIZE"
    using assms(1) log_area_member [of 0 st] by (auto simp: fs_boot_def bc_inv_def)
  fix t
  assume t: "memdisk t = apply_writes (memdisk s) ?W" "dwrites t = dwrites s @ ?W"
  have "ok (initlog 1) u (\<lambda>_ v. log_idle v st \<and> (\<forall>b. b \<notin> log_area st \<longrightarrow> memdisk v b = memdisk t b))"
    if u: "fs_boot u st" "disksize u = disksize s" "memdisk u = apply_writes (memdisk s) (take j ?W)" for j u
  proof -
    note rp = recovery_prefix [OF assms(2) u(3) len]
    show ?thesis by (rule ok_mono [OF initlog_ok [OF u(1) rp(1) [folded u(2)]]]) (use rp(2) t(1) in simp)
  qed
  with t show "\<exists>W. dwrites t = dwrites s @ W \<and> memdisk t = apply_writes (memdisk s) W
    \<and> (\<forall>j u. fs_boot u st \<longrightarrow> disksize u = disksize s \<longrightarrow> memdisk u = apply_writes (memdisk s) (take j W) \<longrightarrow>
         ok (initlog 1) u (\<lambda>_ v. log_idle v st \<and> (\<forall>b. b \<notin> log_area st \<longrightarrow> memdisk v b = memdisk t b)))"
    by blast
qed

text \<open>A log with one block; the machine stops after the first write of the recovery.\<close>

theorem recovery_restarts_witness:
  "let D = image0(2 := put32 (put32 (replicate BSIZE 0) 0 1) 4 50, 3 := replicate BSIZE 7) in
   ok (initlog 1) (sys0 idle_bufs D (head0 0 0) 0) (\<lambda>_ t. memdisk t 50 = replicate BSIZE 7
    \<and> ok (initlog 1) (sys0 idle_bufs (D(50 := replicate BSIZE 7)) (head0 0 0) 0) (\<lambda>_ v. memdisk v 50 = replicate BSIZE 7))"
proof -
  define d where "d = put32 (put32 (replicate BSIZE (0::u8)) 0 1) 4 50"
  define D where "D = image0(2 := d, 3 := replicate BSIZE 7)"
  define s where "s = sys0 idle_bufs D (head0 0 0) 0"
  define u where "u = sys0 idle_bufs (D(50 := replicate BSIZE 7)) (head0 0 0) 0"
  have len: "length d = BSIZE" "\<forall>b < 100. length (D b) = BSIZE" "D 1 = image0 1"
    by (simp_all add: D_def d_def)
  have g: "get32 d 0 = 1" "get32 d 4 = 50" by (simp_all add: d_def BSIZE_def)
  have h: "header_n d = 1" by (simp add: header_n_def g)
  have n50: "(50::u32) \<notin> log_area 2" using area0(2) [of 50] by auto
  then have ho: "header_ok 2 (disksize s) (memdisk s)" by (simp add: header_ok_def s_def D_def h g)
  have b: "fs_boot s 2" "fs_boot u 2" unfolding s_def u_def using len boot0 [of _ "head0 0 0"] by (simp_all add: head0_def)
  have m: "memdisk s = D" "memdisk u = D(50 := replicate BSIZE 7)" "disksize u = disksize s" by (simp_all add: s_def u_def)
  have rw: "recovery_writes 2 D = [(50, replicate BSIZE 7), (2, put32 d 0 0)]"
    by (simp add: recovery_writes_def D_def h g)
  obtain t where t: "initlog 1 s = Inr ((), t)" "dwrites t = dwrites s @ [(50, replicate BSIZE 7), (2, put32 d 0 0)]"
    "memdisk t 50 = replicate BSIZE 7"
    using initlog_ok [OF b(1) ho] rw m(1) by (auto simp: ok_iff)
  have "memdisk u = apply_writes (memdisk s) (take 1 [(50, replicate BSIZE 7), (2, put32 d 0 0)])" by (simp add: m)
  then have "ok (initlog 1) u (\<lambda>_ v. log_idle v 2 \<and> (\<forall>b. b \<notin> log_area 2 \<longrightarrow> memdisk v b = memdisk t b))"
    using recovery_restarts [OF b(1) ho] t(1,2) b(2) m(3) unfolding ok_def by (simp del: take_Suc_Cons) blast
  then have "ok (initlog 1) u (\<lambda>_ v. memdisk v 50 = replicate BSIZE 7)" by (rule ok_mono) (use n50 t(3) in simp)
  then have "ok (initlog 1) s (\<lambda>_ t. memdisk t 50 = replicate BSIZE 7 \<and> ok (initlog 1) u (\<lambda>_ v. memdisk v 50 = replicate BSIZE 7))"
    using t by (simp add: ok_def)
  then show ?thesis unfolding s_def u_def D_def d_def Let_def .
qed

text \<open>
  C7. A transaction of one block, as the system calls run it: reserve space, read the block, change it,
  log it, release it, end the transaction. It returns without waiting, the block on disk has the new
  contents, no other block outside the log has changed, and the log is empty again.
\<close>

theorem transaction_writes_block:
  assumes "log_idle s st" and "lg_outstanding (lg s) = 0" and "\<not> lg_committing (lg s)" and "1 < lg_size (lg s)"
    and "b < disksize s" and "b \<notin> log_area st" and "length d = BSIZE"
  shows "ok (bnd begin_op (\<lambda>_. bnd (bread 1 b) (\<lambda>i. bnd (put_data i (\<lambda>_. d)) (\<lambda>_. bnd (log_write i) (\<lambda>_.
      bnd (brelse i) (\<lambda>_. end_op)))))) s
    (\<lambda>_ t. log_idle t st \<and> (\<forall>c. c \<notin> log_area st \<longrightarrow> memdisk t c = ((memdisk s)(b := d)) c))"
proof -
  have s: "log_ready s" "lg_start (lg s) = st" "lh_n (lg_lh (lg s)) = 0" "dset s = {}"
    using assms(1) by (simp_all add: log_idle_def)
  note r = log_readyD [OF s(1)]
  define u where "u = s\<lparr>lg := (lg s)\<lparr>lg_outstanding := 1\<rparr>\<rparr>"
  have b: "begin_op s = Inr ((), u)"
    using begin_op_enters [OF bc_invD(1) [OF r(1)] assms(3)] s(3) assms(2)
    by (simp add: u_def LOGSIZE_def MAXOPBLOCKS_def del: LOGSIZE_nat)
  have iu: "log_inv u" using s(1) by (simp add: u_def log_ready_iff log_inv_def log_geom_def logged_def)
  have u: "bc_inv u" "hset u = {}" "dset u = {}" "vw u = memdisk s" "memdisk u = memdisk s" "disksize u = disksize s"
    using r(1,2) s(4) boot_view [OF r(1,2)] by (simp_all add: u_def)
  have pre: "b < disksize u" "b \<notin> hset u" "b \<in> dset u \<or> card (hset u \<union> dset u) < NBUF"
    using u assms(5) by (simp_all add: NBUF_def)
  let ?Q = "\<lambda>_ t. log_idle t st \<and> (\<forall>c. c \<notin> log_area st \<longrightarrow> memdisk t c = ((memdisk s)(b := d)) c)"
  have "ok (bnd (bread 1 b) (\<lambda>i. bnd (put_data i (\<lambda>_. d)) (\<lambda>_. bnd (log_write i) (\<lambda>_. bnd (brelse i) (\<lambda>_. end_op))))) u ?Q"
  proof (rule ok_bndI [OF bcache.rd_law [OF u(1) pre]], elim conjE)
    fix i v assume v: "bc_inv v" "bframe u v" "vw v = vw u" "memdisk v = memdisk u" "hset v = insert b (hset u)"
      "dset v = dset u" "\<forall>j c. held v j c \<longleftrightarrow> held u j c \<or> j = i \<and> c = b"
    have hv: "held v i b" using v(7) by simp
    define w where "w = v\<lparr>bufs := (bufs v)[i := (bufs v ! i)\<lparr>b_data := d\<rparr>]\<rparr>"
    note sd = set_data_post [OF v(1) hv assms(7) w_def]
    note fr = bframe_trans [OF v(2) sd(6)]
    have lw: "lg w = lg u" by (rule bframe_lg [OF fr])
    have iw: "log_inv w"
      using iu sd lw v(4,6) log_geom_cong [OF fr] unfolding log_inv_def by simp
    have run: "put_data i (\<lambda>_. d) v = Inr ((), w)" by (simp add: put_data_def set_buf_def run w_def)
    have hw: "held w i b" and aw: "b \<notin> log_area (lg_start (lg w))"
      using sd(5) hv assms(6) s(2) by (simp_all add: lw u_def)
    have room: "lh_n (lg_lh (lg w)) < LOGSIZE - 1" "lh_n (lg_lh (lg w)) < lg_size (lg w) - 1" "1 \<le> lg_outstanding (lg w)"
      using lw s(3) assms(4) by (simp_all add: u_def)
    have "ok (bnd (log_write i) (\<lambda>_. bnd (brelse i) (\<lambda>_. end_op))) w ?Q"
    proof (rule ok_bndI [OF log_write_ok [OF iw hw aw room]], elim conjE exE)
      fix x bs hd assume x: "log_inv x" "vw x = vw w" "memdisk x = memdisk w" "hset x = hset w"
        "\<forall>j c. held x j c \<longleftrightarrow> held w j c" "dset x = insert b (dset w)" "x = w\<lparr>lg := (lg w)\<lparr>lg_lh := hd\<rparr>, bufs := bs\<rparr>"
      have hx: "bc_inv x" "held x i b" "b \<in> dset x \<or> vw x b = memdisk x b"
        using x hw by (simp_all add: log_inv_def)
      show "ok (bnd (brelse i) (\<lambda>_. end_op)) x ?Q"
      proof (rule ok_bndI [OF bcache.rel_law [OF hx]], elim conjE)
        fix y assume y: "bc_inv y" "bframe x y" "vw y = vw x" "memdisk y = memdisk x" "hset y = hset x - {b}" "dset y = dset x"
        have ly: "lg y = lg x" by (rule bframe_lg [OF y(2)])
        have lx: "lg x = (lg w)\<lparr>lg_lh := hd\<rparr>" using x(7) by simp
        have hy: "hset y = {}" using y(5) x(4) sd(3) v(5) u(2) by simp
        have "log_inv y" using x(1) y(1,4,6) ly log_geom_cong [OF y(2)] by (simp add: log_inv_def)
        then have ry: "log_ready y" using hy by (simp add: log_ready_iff)
        have oy: "lg_outstanding (lg y) = 1" "\<not> lg_committing (lg y)" "lg_start (lg y) = st"
          using ly lx lw assms(3) s(2) by (simp_all add: u_def)
        have vy: "vw y = (memdisk s)(b := d)" using y(3) x(2) sd(2) v(3) u(4) by simp
        show "ok end_op y ?Q"
          by (rule ok_mono [OF end_op_ok [OF ry oy(1,2)]]) (use oy(3) vy in simp)
      qed
    qed
    then show "ok (bnd (put_data i (\<lambda>_. d)) (\<lambda>_. bnd (log_write i) (\<lambda>_. bnd (brelse i) (\<lambda>_. end_op)))) v ?Q"
      by (simp only: ok_def bnd_Inr [where m = "put_data i (\<lambda>_. d)" and s = v, OF run])
  qed
  then show ?thesis by (simp only: ok_def bnd_Inr [where m = begin_op and s = s, OF b])
qed

theorem transaction_writes_block_witness:
  "ok (bnd begin_op (\<lambda>_. bnd (bread 1 50) (\<lambda>i. bnd (put_data i (\<lambda>_. replicate BSIZE 7)) (\<lambda>_. bnd (log_write i) (\<lambda>_.
      bnd (brelse i) (\<lambda>_. end_op)))))) (sys0 idle_bufs image0 (head0 0 0) 0) (\<lambda>_ t. memdisk t 50 = replicate BSIZE 7)"
proof -
  have n: "(50::u32) \<notin> log_area 2" using area0(2) [of 50] by auto
  have i: "log_idle (sys0 idle_bufs image0 (head0 0 0) 0) 2"
    using idle_cache [of "sys0 idle_bufs image0 (head0 0 0) 0"] area0(1)
    by (simp add: log_idle_def log_ready_def log_geom_def log0_def head0_def logged_def BSIZE_def get32_def)
  show ?thesis
    by (rule ok_mono [OF transaction_writes_block [OF i, where b = 50 and d = "replicate BSIZE 7"]])
      (use n in \<open>simp_all add: log0_def\<close>)
qed

text \<open>
  C28. What \<open>begin_op\<close> promises and what \<open>log_write\<close> accepts. With the log \<open>mkfs\<close> makes (\<open>LOGSIZE\<close> blocks,
  one of them the header), \<open>begin_op\<close> admits an operation while \<open>n\<close> logged blocks and 10 blocks for
  each open operation fit into 30, but \<open>log_write\<close> takes a block only while \<open>n < 29\<close>: it returns
  exactly then, and otherwise stops with \<open>too big a transaction\<close>.
\<close>

theorem log_write_limit:
  assumes "no_locks s" and "i < length (bufs s)" and "lg_size (lg s) = LOGSIZE" and "1 \<le> lg_outstanding (lg s)"
  shows "(if lh_n (lg_lh (lg s)) < 29 then ok (log_write i) s (\<lambda>_ t. lg t = (lg s)\<lparr>lg_lh := add_block (lg_lh (lg s)) (b_blockno (bufs s ! i))\<rparr>)
      else log_write i s = Inl (Panic ''too big a transaction'', s))
    \<and> (\<not> lg_committing (lg s) \<and> lh_n (lg_lh (lg s)) + (lg_outstanding (lg s) + 1) * 10 \<le> 30 \<longrightarrow>
      ok begin_op s (\<lambda>_ t. lg t = (lg s)\<lparr>lg_outstanding := lg_outstanding (lg s) + 1\<rparr>))"
  using log_write_run [OF assms(1,2) _ _ assms(4)] begin_op_enters [OF assms(1)] assms(3)
  by (auto simp: ok_def log_write_def run bnd_def MAXOPBLOCKS_def)

theorem log_write_limit_witness:
  "log_write 0 (sys0 idle_bufs image0 (head0 29 50) 3) = Inl (Panic ''too big a transaction'', sys0 idle_bufs image0 (head0 29 50) 3)
   \<and> ok begin_op (sys0 idle_bufs image0 (head0 0 0) 2) (\<lambda>_ t. lg_outstanding (lg t) = 3)"
proof
  show "log_write 0 (sys0 idle_bufs image0 (head0 29 50) 3) = Inl (Panic ''too big a transaction'', sys0 idle_bufs image0 (head0 29 50) 3)"
    using log_write_limit [of "sys0 idle_bufs image0 (head0 29 50) 3" 0] idle_bufs_sel(2)
    by (simp add: log0_def head0_def)
  have "ok begin_op (sys0 idle_bufs image0 (head0 0 0) 2) (\<lambda>_ t. lg t = (log0 (head0 0 0) 2)\<lparr>lg_outstanding := 3\<rparr>)"
    using log_write_limit [of "sys0 idle_bufs image0 (head0 0 0) 2" 0] idle_bufs_sel(2)
    by (simp add: log0_def head0_def)
  then show "ok begin_op (sys0 idle_bufs image0 (head0 0 0) 2) (\<lambda>_ t. lg_outstanding (lg t) = 3)"
    by (rule ok_mono) simp
qed

end
