(* ===== verification/Sleep_Props.thy ===== *)
theory Sleep_Props
  imports Sched
begin

text \<open>
  Sleeping and waking on several CPUs. Every CPU has a list of statements to run; a step runs the next statement of
  one of them on the shared state, so all interleavings of the statements are runs. A statement that finds its lock
  taken spins: its CPU makes no step until the lock is free. An \<open>acquire\<close> is one step, since by the mutual exclusion
  shown in Spinlock its effect is that of its successful exchange.
\<close>

section \<open>Interleaving\<close>

record 'a par =
  sh :: "'a pstate_scheme"
  pcpu :: "nat \<Rightarrow> cpu"
  pcur :: "nat \<Rightarrow> nat option"
  pcode :: "nat \<Rightarrow> ('a pstate_scheme, unit) km list"

text \<open>The state as CPU \<open>j\<close> sees it, and the state after one of its statements. \<open>cpu\<close> and \<open>proc\<close> are per CPU.\<close>

definition pview :: "'a par \<Rightarrow> nat \<Rightarrow> 'a pstate_scheme" where
  "pview C j = (sh C)\<lparr>mcpu := pcpu C j, curproc := pcur C j\<rparr>"

definition pput :: "'a par \<Rightarrow> nat \<Rightarrow> 'a pstate_scheme \<Rightarrow> ('a pstate_scheme, unit) km list \<Rightarrow> 'a par" where
  "pput C j t cs = C\<lparr>sh := t\<lparr>mcpu := mcpu (sh C), curproc := curproc (sh C)\<rparr>, pcpu := (pcpu C)(j := mcpu t),
     pcur := (pcur C)(j := curproc t), pcode := (pcode C)(j := cs)\<rparr>"

text \<open>A switch to the scheduler goes on with the code of the scheduler, the rest of the list.\<close>

inductive par_step :: "'a par \<Rightarrow> 'a par \<Rightarrow> bool" where
  runs: "pcode C j = c # cs \<Longrightarrow> c (pview C j) = Inr ((), t) \<Longrightarrow> par_step C (pput C j t cs)"
| switches: "pcode C j = c # cs \<Longrightarrow> c (pview C j) = Inl (Swtch, t) \<Longrightarrow> par_step C (pput C j t cs)"

text \<open>
  What is left of a round of \<open>scheduler\<close> when the process it ran has switched back and no other is runnable: \<open>proc = 0\<close> and
  the release of the lock.
\<close>

definition sched_rest :: "('a pstate_scheme, unit) km" where
  "sched_rest = bnd (upd (\<lambda>s. s\<lparr>curproc := None\<rparr>)) (\<lambda>_. release Lk_ptable)"

text \<open>
  CPU 0 holds \<open>lk\<close>, has found that it must wait, and calls \<open>sleep\<close>. CPU 1 takes \<open>lk\<close>, changes what process \<open>i\<close> waits for, calls
  \<open>wakeup\<close> and gives \<open>lk\<close> back.
\<close>

definition sleeper :: "chan \<Rightarrow> lockid \<Rightarrow> nat \<Rightarrow> ('a pstate_scheme, unit) km list" where
  "sleeper ch lk i = sleep_code ch lk i @ [sched_rest]"

definition waker :: "chan \<Rightarrow> lockid \<Rightarrow> ('a pstate_scheme, unit) km list" where
  "waker ch lk = acquire lk # wakeup_code ch @ [release lk]"

definition par_start :: "chan \<Rightarrow> lockid \<Rightarrow> nat \<Rightarrow> cpu \<Rightarrow> 'a pstate_scheme \<Rightarrow> 'a par" where
  "par_start ch lk i c s = \<lparr>sh = s\<lparr>mlocks := mlocks (lk_take lk s)\<rparr>,
     pcpu = (\<lambda>j. if j = 0 then cli_push (mcpu s) else c), pcur = (\<lambda>j. if j = 0 then curproc s else None),
     pcode = (\<lambda>j. if j = 0 then sleeper ch lk i else if j = 1 then waker ch lk else [])\<rparr>"

section \<open>The states of a run\<close>

text \<open>\<open>a\<close> statements of CPU 0 and \<open>b\<close> statements of CPU 1 have run.\<close>

definition owned :: "spinlock \<Rightarrow> nat option \<Rightarrow> spinlock" where
  "owned l own = l\<lparr>locked := (if own = None then 0 else 1), lkcpu := own\<rparr>"

definition run_locks :: "lockid \<Rightarrow> (lockid \<Rightarrow> spinlock) \<Rightarrow> nat \<Rightarrow> nat \<Rightarrow> lockid \<Rightarrow> spinlock" where
  "run_locks lk L a b =
     L(lk := owned (L lk) (if a \<le> 1 then Some 0 else if 1 \<le> b \<and> b \<le> 4 then Some 1 else None),
       Lk_ptable := owned (L Lk_ptable) (if 1 \<le> a \<and> a \<le> 5 then Some 0 else if 2 \<le> b \<and> b \<le> 3 then Some 1 else None))"

definition run_procs :: "chan \<Rightarrow> nat \<Rightarrow> proc list \<Rightarrow> nat \<Rightarrow> nat \<Rightarrow> proc list" where
  "run_procs ch i ps a b =
     (let ps = (if a \<le> 2 then ps else if a = 3 then ps[i := (ps ! i)\<lparr>p_chan := ch\<rparr>]
                else ps[i := (ps ! i)\<lparr>p_chan := ch, p_state := SLEEPING\<rparr>])
      in if 3 \<le> b then map (wake ch) ps else ps)"

definition run_state :: "chan \<Rightarrow> lockid \<Rightarrow> nat \<Rightarrow> cpu \<Rightarrow> 'a pstate_scheme \<Rightarrow> nat \<Rightarrow> nat \<Rightarrow> 'a par" where
  "run_state ch lk i c s a b =
     \<lparr>sh = s\<lparr>mlocks := run_locks lk (mlocks s) a b, procs := run_procs ch i (procs s) a b\<rparr>,
      pcpu = (\<lambda>j. if j = 0 then (if a = 6 then mcpu s else if a = 1 then cli_push (cli_push (mcpu s)) else cli_push (mcpu s))
                  else if j = 1 then (if b = 0 \<or> b = 5 then c else if b = 1 \<or> b = 4 then cli_push c else cli_push (cli_push c)) else c),
      pcur = (\<lambda>j. if j = 0 \<and> a \<noteq> 6 then curproc s else None),
      pcode = (\<lambda>j. if j = 0 then drop a (sleeper ch lk i) else if j = 1 then drop b (waker ch lk) else [])\<rparr>"

text \<open>The pairs that the locks let happen.\<close>

definition run_ok :: "nat \<Rightarrow> nat \<Rightarrow> bool" where
  "run_ok a b \<longleftrightarrow> a \<le> 5 \<and> b = 0 \<or> 2 \<le> a \<and> a \<le> 5 \<and> b = 1 \<or> a = 6 \<and> b \<le> 5"

definition par_setup :: "'a pstate_scheme \<Rightarrow> cpu \<Rightarrow> lockid \<Rightarrow> nat \<Rightarrow> bool" where
  "par_setup s c lk i \<longleftrightarrow> no_locks s \<and> cid (mcpu s) = 0 \<and> ncli (mcpu s) = 0 \<and> curproc s = Some i
     \<and> i < length (procs s) \<and> lk \<noteq> Lk_ptable \<and> cid c = 1 \<and> cli_ok c"

lemma par_setupD:
  assumes "par_setup s c lk i"
  shows "cli_ok (mcpu s)" "cid (mcpu s) = 0" "ncli (mcpu s) = 0" "curproc s = Some i" "i < length (procs s)"
    "lk \<noteq> Lk_ptable" "Lk_ptable \<noteq> lk" "cid c = 1" "cli_ok c" "locked (mlocks s k) = 0" "lkcpu (mlocks s k) = None"
  using assms by (auto simp: par_setup_def no_locks_def lk_free_def)

lemma owned_free: "locked l = 0 \<Longrightarrow> lkcpu l = None \<Longrightarrow> owned l None = l"
  by (simp add: owned_def)

lemma par_start_state: "par_setup s c lk i \<Longrightarrow> par_start ch lk i c s = run_state ch lk i c s 0 0"
  by (auto simp: par_start_def run_state_def run_locks_def run_procs_def owned_def lk_take_def fun_eq_iff
      par_setupD [of s c lk i])

lemma sleeper_code:
  "lk \<noteq> Lk_ptable \<Longrightarrow> sleeper ch lk i = [acquire Lk_ptable, release lk, set_proc i (\<lambda>p. p\<lparr>p_chan := ch\<rparr>),
     set_proc i (\<lambda>p. p\<lparr>p_state := SLEEPING\<rparr>), sched, sched_rest]"
  by (simp add: sleeper_def sleep_code_def)

lemma waker_code: "waker ch lk = [acquire lk, acquire Lk_ptable, wakeup1 ch, release Lk_ptable, release lk]"
  by (simp add: waker_def wakeup_code_def)

lemma owned_swap: "l\<lparr>lkcpu := x, locked := y\<rparr> = l\<lparr>locked := y, lkcpu := x\<rparr>"
  by (cases l) simp

text \<open>The locking code on a state in which the owner of the lock is known.\<close>

lemma acquire_owned:
  "locked (mlocks v k) = 0 \<Longrightarrow> lkcpu (mlocks v k) = None \<Longrightarrow> acquire k v =
     Inr ((), v\<lparr>mcpu := cli_push (mcpu v), mlocks := (mlocks v)(k := owned (mlocks v k) (Some (cid (mcpu v))))\<rparr>)"
  by (simp add: acquire_run lk_free_def lk_take_def owned_def)

lemma acquire_spins:
  "locked (mlocks v k) \<noteq> 0 \<Longrightarrow> lkcpu (mlocks v k) \<noteq> Some (cid (mcpu v)) \<Longrightarrow> \<exists>t. acquire k v = Inl (Spins, t)"
  by (simp add: acquire_def acquire_enter_def holding_def xchg_def bnd_def run)

lemma release_owned:
  assumes "locked (mlocks v k) \<noteq> 0" and "lkcpu (mlocks v k) = Some (cid (mcpu v))" and "mcpu v = cli_push m" and "cli_ok m"
  shows "release k v = Inr ((), v\<lparr>mlocks := (mlocks v)(k := owned (mlocks v k) None), mcpu := m\<rparr>)"
proof -
  define w where "w = v\<lparr>mlocks := (mlocks v)(k := owned (mlocks v k) None)\<rparr>"
  have "release k v = popcli w"
    using assms(1,2) by (simp add: release_def release_enter_def holding_def xchg_def bnd_def run owned_def owned_swap w_def)
  also have "w = w\<lparr>mcpu := cli_push m\<rparr>" using assms(3) mstate.surjective [of w] by (simp add: w_def)
  finally show ?thesis using popcli_push [OF assms(4), of w] by (simp add: w_def)
qed

lemma owned_sel [simp]:
  "lkcpu (owned l own) = own" "locked (owned l own) = (if own = None then 0 else 1)" "owned (owned l x) own = owned l own"
  by (simp_all add: owned_def)

lemma pview_sel [simp]:
  "mcpu (pview (run_state ch lk i c s a b) j) = pcpu (run_state ch lk i c s a b) j"
  "curproc (pview (run_state ch lk i c s a b) j) = pcur (run_state ch lk i c s a b) j"
  "mlocks (pview (run_state ch lk i c s a b) j) = run_locks lk (mlocks s) a b"
  "procs (pview (run_state ch lk i c s a b) j) = run_procs ch i (procs s) a b"
  by (simp_all add: pview_def run_state_def)

text \<open>A statement takes one view to the next.\<close>

lemma pput_next:
  "pput (run_state ch lk i c s a b) 0 (pview (run_state ch lk i c s (Suc a) b) 0) (drop (Suc a) (sleeper ch lk i)) =
     run_state ch lk i c s (Suc a) b"
  "pput (run_state ch lk i c s a b) 1 (pview (run_state ch lk i c s a (Suc b)) 1) (drop (Suc b) (waker ch lk)) =
     run_state ch lk i c s a (Suc b)"
  by (auto simp: pput_def pview_def run_state_def fun_eq_iff intro!: pstate.equality)

lemma pview_step:
  assumes "m = pcpu (run_state ch lk i c s a' b') j" and "q = pcur (run_state ch lk i c s a' b') j"
    and "L = run_locks lk (mlocks s) a' b'" and "ps = run_procs ch i (procs s) a' b'"
  shows "(pview (run_state ch lk i c s a b) j)\<lparr>mcpu := m, curproc := q, mlocks := L, procs := ps\<rparr> =
    pview (run_state ch lk i c s a' b') j"
  using assms by (auto simp: pview_def run_state_def intro!: pstate.equality)

lemma upd_views:
  "(v :: 'a pstate_scheme)\<lparr>mcpu := m, mlocks := L\<rparr> = v\<lparr>mcpu := m, curproc := curproc v, mlocks := L, procs := procs v\<rparr>"
  "v\<lparr>mlocks := L, mcpu := m\<rparr> = v\<lparr>mcpu := m, curproc := curproc v, mlocks := L, procs := procs v\<rparr>"
  "v\<lparr>curproc := q, mlocks := L, mcpu := m\<rparr> = v\<lparr>mcpu := m, curproc := q, mlocks := L, procs := procs v\<rparr>"
  "v\<lparr>procs := ps\<rparr> = v\<lparr>mcpu := mcpu v, curproc := curproc v, mlocks := mlocks v, procs := ps\<rparr>"
  by (auto intro!: pstate.equality)

lemma acquire_view:
  fixes i ch c s lk
  defines "R \<equiv> run_state ch lk i c s"
  assumes "locked (run_locks lk (mlocks s) a b k) = 0" and "lkcpu (run_locks lk (mlocks s) a b k) = None"
    and "pcpu (R a' b') j = cli_push (pcpu (R a b) j)" and "pcur (R a' b') j = pcur (R a b) j"
    and "run_procs ch i (procs s) a' b' = run_procs ch i (procs s) a b"
    and "run_locks lk (mlocks s) a' b' =
      (run_locks lk (mlocks s) a b)(k := owned (run_locks lk (mlocks s) a b k) (Some (cid (pcpu (R a b) j))))"
  shows "acquire k (pview (R a b) j) = Inr ((), pview (R a' b') j)"
  using assms(2-) unfolding R_def
  by (simp add: acquire_owned upd_views(1) pview_step)

lemma release_view:
  fixes i ch c s lk
  defines "R \<equiv> run_state ch lk i c s"
  assumes "locked (run_locks lk (mlocks s) a b k) \<noteq> 0" and "lkcpu (run_locks lk (mlocks s) a b k) = Some (cid (pcpu (R a b) j))"
    and "pcpu (R a b) j = cli_push (pcpu (R a' b') j)" and "cli_ok (pcpu (R a' b') j)" and "pcur (R a' b') j = pcur (R a b) j"
    and "run_procs ch i (procs s) a' b' = run_procs ch i (procs s) a b"
    and "run_locks lk (mlocks s) a' b' = (run_locks lk (mlocks s) a b)(k := owned (run_locks lk (mlocks s) a b k) None)"
  shows "release k (pview (R a b) j) = Inr ((), pview (R a' b') j)"
proof -
  have "release k (pview (R a b) j) = Inr ((), (pview (R a b) j)
      \<lparr>mlocks := (mlocks (pview (R a b) j))(k := owned (mlocks (pview (R a b) j) k) None), mcpu := pcpu (R a' b') j\<rparr>)"
    by (rule release_owned) (use assms in simp_all)
  then show ?thesis using assms(6-8) unfolding R_def by (simp add: upd_views(2) pview_step)
qed

lemma procs_view:
  fixes i ch c s lk
  defines "R \<equiv> run_state ch lk i c s"
  assumes "pcpu (R a' b') j = pcpu (R a b) j" and "pcur (R a' b') j = pcur (R a b) j"
    and "run_locks lk (mlocks s) a' b' = run_locks lk (mlocks s) a b" and "run_procs ch i (procs s) a' b' = f (run_procs ch i (procs s) a b)"
  shows "upd (\<lambda>s. s\<lparr>procs := f (procs s)\<rparr>) (pview (R a b) j) = Inr ((), pview (R a' b') j)"
proof -
  have "(pview (R a b) j)\<lparr>procs := f (run_procs ch i (procs s) a b)\<rparr> = pview (R a' b') j"
    by (subst upd_views(4)) (use assms(2-) in \<open>simp add: R_def pview_step\<close>)
  then show ?thesis by (simp add: upd_apply R_def)
qed

lemmas state_sels = run_state_def run_locks_def run_procs_def pview_def

text \<open>CPU 0 never waits.\<close>

lemma sleeper_step:
  assumes h: "par_setup s c lk i" and ok: "run_ok a b" "a < 6"
  shows "(sleeper ch lk i ! a) (pview (run_state ch lk i c s a b) 0) =
    (if a = 4 then Inl (Swtch, pview (run_state ch lk i c s (Suc a) b) 0) else Inr ((), pview (run_state ch lk i c s (Suc a) b) 0))"
proof -
  note d = par_setupD [OF h]
  let ?v = "pview (run_state ch lk i c s a b) 0" and ?w = "pview (run_state ch lk i c s (Suc a) b) 0"
  have "a = 0 \<and> b = 0 \<or> a = 1 \<and> b = 0 \<or> (a = 2 \<or> a = 3 \<or> a = 4 \<or> a = 5) \<and> (b = 0 \<or> b = 1)"
    using ok unfolding run_ok_def by presburger
  then consider "a = 0" "b = 0" | "a = 1" "b = 0" | "a = 2" "b = 0 \<or> b = 1" | "a = 3" "b = 0 \<or> b = 1"
    | "a = 4" "b = 0 \<or> b = 1" | "a = 5" "b = 0 \<or> b = 1"
    by blast
  then show ?thesis
  proof cases
    case 1
    have "acquire Lk_ptable ?v = Inr ((), ?w)"
      by (rule acquire_view) (use 1 d in \<open>auto simp: state_sels owned_free\<close>)
    then show ?thesis using 1 d by (simp add: sleeper_code)
  next
    case 2
    have "release lk ?v = Inr ((), ?w)"
      by (rule release_view) (use 2 d in \<open>auto simp: state_sels owned_free\<close>)
    then show ?thesis using 2 d by (simp add: sleeper_code)
  next
    case 3
    have "set_proc i (\<lambda>p. p\<lparr>p_chan := ch\<rparr>) ?v = Inr ((), ?w)"
      unfolding set_proc_def by (rule procs_view) (use 3 d in \<open>auto simp: state_sels\<close>)
    then show ?thesis using 3 d by (simp add: sleeper_code)
  next
    case 4
    have "set_proc i (\<lambda>p. p\<lparr>p_state := SLEEPING\<rparr>) ?v = Inr ((), ?w)"
      unfolding set_proc_def by (rule procs_view) (use 4 d in \<open>auto simp: state_sels\<close>)
    then show ?thesis using 4 d by (simp add: sleeper_code)
  next
    case 5
    have eq: "?v = ?w" using 5 by (auto simp: pview_def state_sels)
    have f: "mcpu ?v = cli_push (mcpu s)" "mlocks ?v Lk_ptable = owned (mlocks s Lk_ptable) (Some 0)" "curproc ?v = Some i"
      "p_state (procs ?v ! i) = SLEEPING"
      using 5 d by (auto simp: state_sels)
    have "sched ?v = Inl (Swtch, ?v)"
      unfolding sched_def holding_def myproc_def bnd_run f using d(2,3) by (simp add: bnd_def gets_def stop_def ret_def f cli_push_def del: pview_sel)
    then have "sched ?v = Inl (Swtch, ?w)" using eq by simp
    then show ?thesis using 5 d by (simp add: sleeper_code)
  next
    case 6
    have f: "mcpu ?v = cli_push (mcpu s)" "mlocks ?v Lk_ptable = owned (mlocks s Lk_ptable) (Some 0)"
      using 6 d by (auto simp: state_sels)
    have "release Lk_ptable (?v\<lparr>curproc := None\<rparr>) = Inr ((), ?v\<lparr>curproc := None,
        mlocks := (mlocks ?v)(Lk_ptable := owned (mlocks ?v Lk_ptable) None), mcpu := mcpu s\<rparr>)"
      using release_owned [of "?v\<lparr>curproc := None\<rparr>" Lk_ptable "mcpu s"] f d by (simp del: pview_sel)
    moreover have "?v\<lparr>curproc := None, mlocks := (mlocks ?v)(Lk_ptable := owned (mlocks ?v Lk_ptable) None), mcpu := mcpu s\<rparr> = ?w"
      unfolding upd_views(3) by (rule pview_step) (use 6 d in \<open>auto simp: state_sels\<close>)
    ultimately have "sched_rest ?v = Inr ((), ?w)" by (simp add: sched_rest_def run)
    then show ?thesis using 6 d by (simp add: sleeper_code)
  qed
qed

text \<open>CPU 1 waits for \<open>lk\<close> until CPU 0 has released it, and for the lock of the table until the scheduler has.\<close>

lemma waker_step:
  assumes h: "par_setup s c lk i" and ok: "run_ok a b" "b < 5"
  shows "if run_ok a (Suc b) then (waker ch lk ! b) (pview (run_state ch lk i c s a b) 1) = Inr ((), pview (run_state ch lk i c s a (Suc b)) 1)
    else \<exists>t. (waker ch lk ! b) (pview (run_state ch lk i c s a b) 1) = Inl (Spins, t)"
proof -
  note d = par_setupD [OF h]
  let ?v = "pview (run_state ch lk i c s a b) 1" and ?w = "pview (run_state ch lk i c s a (Suc b)) 1"
  have "b = 0 \<and> a \<le> 1 \<or> b = 0 \<and> 2 \<le> a \<and> a \<le> 6 \<or> b = 1 \<and> 2 \<le> a \<and> a \<le> 5 \<or> a = 6 \<and> (b = 1 \<or> b = 2 \<or> b = 3 \<or> b = 4)"
    using ok unfolding run_ok_def by presburger
  then consider "b = 0" "a \<le> 1" | "b = 0" "2 \<le> a" "a \<le> 6" | "b = 1" "2 \<le> a" "a \<le> 5" | "a = 6" "b = 1" | "a = 6" "b = 2"
    | "a = 6" "b = 3" | "a = 6" "b = 4"
    by blast
  then show ?thesis
  proof cases
    case 1
    have "\<exists>t. acquire lk ?v = Inl (Spins, t)" by (rule acquire_spins) (use 1 d in \<open>auto simp: state_sels\<close>)
    then show ?thesis using 1 by (simp add: waker_code run_ok_def)
  next
    case 2
    have "acquire lk ?v = Inr ((), ?w)" by (rule acquire_view) (use 2 d in \<open>auto simp: state_sels\<close>)
    then show ?thesis using 2 by (auto simp: waker_code run_ok_def)
  next
    case 3
    have "\<exists>t. acquire Lk_ptable ?v = Inl (Spins, t)" by (rule acquire_spins) (use 3 d in \<open>auto simp: state_sels\<close>)
    then show ?thesis using 3 by (simp add: waker_code run_ok_def)
  next
    case 4
    have "acquire Lk_ptable ?v = Inr ((), ?w)" by (rule acquire_view) (use 4 d in \<open>auto simp: state_sels\<close>)
    then show ?thesis using 4 by (simp add: waker_code run_ok_def)
  next
    case 5
    have "wakeup1 ch ?v = Inr ((), ?w)"
      unfolding wakeup1_def by (rule procs_view) (use 5 d in \<open>auto simp: state_sels\<close>)
    then show ?thesis using 5 by (simp add: waker_code run_ok_def)
  next
    case 6
    have "release Lk_ptable ?v = Inr ((), ?w)" by (rule release_view) (use 6 d in \<open>auto simp: state_sels\<close>)
    then show ?thesis using 6 by (simp add: waker_code run_ok_def)
  next
    case 7
    have "release lk ?v = Inr ((), ?w)" by (rule release_view) (use 7 d in \<open>auto simp: state_sels\<close>)
    then show ?thesis using 7 by (simp add: waker_code run_ok_def)
  qed
qed

lemma pcode_run [simp]: "pcode (run_state ch lk i c s a b) j =
    (if j = 0 then drop a (sleeper ch lk i) else if j = 1 then drop b (waker ch lk) else [])"
  by (simp add: run_state_def)

lemma length_code: "lk \<noteq> Lk_ptable \<Longrightarrow> length (sleeper ch lk i) = 6" "length (waker ch lk) = 5"
  by (simp_all add: sleeper_code waker_code)

lemma drop_Cons_nth: "drop n xs = y # ys \<Longrightarrow> n < length xs \<and> y = xs ! n \<and> ys = drop (Suc n) xs"
  by (metis Cons_nth_drop_Suc drop_all list.distinct(1) list.inject not_less)

lemma run_next:
  assumes h: "par_setup s c lk i" and "run_ok a b" and "par_step (run_state ch lk i c s a b) D"
  shows "\<exists>a' b'. D = run_state ch lk i c s a' b' \<and> run_ok a' b' \<and> a' + b' = Suc (a + b)"
proof -
  let ?C = "run_state ch lk i c s a b"
  note len = length_code(1) [OF par_setupD(6) [OF h]] length_code(2)
  obtain j d cs t where st: "pcode ?C j = d # cs" "D = pput ?C j t cs" "d (pview ?C j) = Inr ((), t) \<or> d (pview ?C j) = Inl (Swtch, t)"
    using assms(3) by (cases rule: par_step.cases) auto
  show ?thesis
  proof (cases "j = 0")
    case True
    then have a: "a < 6" "d = sleeper ch lk i ! a" "cs = drop (Suc a) (sleeper ch lk i)"
      using drop_Cons_nth [of a "sleeper ch lk i" d cs] st(1) by (simp_all add: len)
    have "t = pview (run_state ch lk i c s (Suc a) b) 0"
      using sleeper_step [OF assms(1,2) a(1), of ch] st(3) a(2) True by (auto split: if_splits)
    then have "D = run_state ch lk i c s (Suc a) b" using st(2) True a(3) pput_next(1) by simp
    moreover have "run_ok (Suc a) b" using assms(2) a(1) unfolding run_ok_def by presburger
    ultimately show ?thesis by (intro exI [of _ "Suc a"] exI [of _ b]) simp
  next
    case False
    then have j: "j = 1" using st(1) by (simp split: if_splits)
    then have b: "b < 5" "d = waker ch lk ! b" "cs = drop (Suc b) (waker ch lk)"
      using drop_Cons_nth [of b "waker ch lk" d cs] st(1) by (simp_all add: len)
    have "run_ok a (Suc b)" "t = pview (run_state ch lk i c s a (Suc b)) 1"
      using waker_step [OF assms(1,2) b(1), of ch] st(3) b(2) j by (auto split: if_splits)
    moreover from this have "D = run_state ch lk i c s a (Suc b)" using st(2) j b(3) pput_next(2) by simp
    ultimately show ?thesis by (intro exI [of _ a] exI [of _ "Suc b"]) simp
  qed
qed

lemma run_reach:
  assumes h: "par_setup s c lk i" and "par_step\<^sup>*\<^sup>* (par_start ch lk i c s) C"
  shows "\<exists>a b. C = run_state ch lk i c s a b \<and> run_ok a b"
  using assms(2)
proof (induction rule: rtranclp_induct)
  case base
  show ?case using par_start_state [OF h] by (intro exI [of _ 0]) (simp add: run_ok_def)
next
  case (step C D)
  then show ?case using run_next [OF h] by blast
qed

lemma run_enabled:
  assumes h: "par_setup s c lk i" and "run_ok a b" and "\<not> (a = 6 \<and> b = 5)"
  shows "\<exists>D. par_step (run_state ch lk i c s a b) D"
proof (cases "a < 6")
  case True
  then have "pcode (run_state ch lk i c s a b) 0 = sleeper ch lk i ! a # drop (Suc a) (sleeper ch lk i)"
    by (simp add: length_code(1) [OF par_setupD(6) [OF h]] Cons_nth_drop_Suc)
  then show ?thesis
    using sleeper_step [OF assms(1,2) True, of ch] par_step.runs par_step.switches by (cases "a = 4") (simp_all del: pcode_run, blast+)
next
  case False
  then have b: "a = 6" "b < 5" "run_ok a (Suc b)" using assms(2,3) unfolding run_ok_def by presburger+
  then have "pcode (run_state ch lk i c s a b) 1 = waker ch lk ! b # drop (Suc b) (waker ch lk)"
    by (simp add: length_code(2) Cons_nth_drop_Suc)
  then show ?thesis
    using waker_step [OF assms(1,2) b(2), of ch] b(3) par_step.runs by (simp del: pcode_run) blast
qed

section \<open>Properties\<close>

text \<open>
  C8. No wake-up is lost. One CPU, holding \<open>lk\<close>, runs \<open>sleep\<close>, and another takes \<open>lk\<close>, runs \<open>wakeup\<close> on the same channel and
  releases \<open>lk\<close>; their statements interleave in any order the locks allow. Every step leaves fewer statements to run, a
  state in which no CPU can make a step is one in which both have finished, and then the process is runnable and all
  locks are free. So the process never stays asleep, wherever the wake-up falls.
\<close>

theorem sleep_wakeup:
  assumes "par_setup s c lk i" and "par_step\<^sup>*\<^sup>* (par_start ch lk i c s) C"
  shows "(\<forall>D. par_step C D \<longrightarrow> length (pcode D 0) + length (pcode D 1) < length (pcode C 0) + length (pcode C 1))
    \<and> ((\<exists>D. par_step C D) \<or> pcode C 0 = [] \<and> pcode C 1 = [] \<and> p_state (procs (sh C) ! i) = RUNNABLE \<and> (\<forall>k. lk_free k (sh C)))"
proof -
  note d = par_setupD [OF assms(1)]
  note len = length_code(1) [OF d(6), of ch i] length_code(2) [of ch lk]
  obtain a b where C: "C = run_state ch lk i c s a b" "run_ok a b" using run_reach [OF assms] by blast
  have "length (pcode D 0) + length (pcode D 1) < length (pcode C 0) + length (pcode C 1)" if st: "par_step C D" for D
  proof -
    obtain a' b' where D: "D = run_state ch lk i c s a' b'" "run_ok a' b'" "a' + b' = Suc (a + b)"
      using run_next [OF assms(1) C(2) st [unfolded C(1)]] by blast
    have "a' \<le> 6" "b' \<le> 5" using D(2) unfolding run_ok_def by presburger+
    then show ?thesis using D C(1) by (simp add: len)
  qed
  moreover have "pcode C 0 = [] \<and> pcode C 1 = [] \<and> p_state (procs (sh C) ! i) = RUNNABLE \<and> (\<forall>k. lk_free k (sh C))"
    if "\<nexists>D. par_step C D"
  proof -
    have ab: "a = 6" "b = 5" using run_enabled [OF assms(1) C(2), of ch] that C(1) by auto
    have "procs (sh C) ! i = (procs s ! i)\<lparr>p_chan := ch, p_state := RUNNABLE\<rparr>"
      using d(5) by (simp add: C(1) ab run_state_def run_procs_def wake_def)
    moreover have "lk_free k (sh C)" for k using d(10,11) by (simp add: C(1) ab run_state_def run_locks_def lk_free_def)
    ultimately show ?thesis by (simp add: C(1) ab len)
  qed
  ultimately show ?thesis by blast
qed

text \<open>One process on CPU 0 that sleeps on the log; CPU 1 has interrupts on.\<close>

definition cpu_idle :: cpu where "cpu_idle = \<lparr>cid = 1, iflag = True, ncli = 0, intena = True\<rparr>"

theorem sleep_wakeup_witness:
  "\<exists>C. par_step\<^sup>*\<^sup>* (par_start ChLog Lk_log 0 cpu_idle ps0) C \<and> pcode C 0 = [] \<and> pcode C 1 = [] \<and> p_state (procs (sh C) ! 0) = RUNNABLE"
proof -
  let ?S = "par_start ChLog Lk_log 0 cpu_idle ps0"
  let ?n = "\<lambda>C :: unit par. length (pcode C 0) + length (pcode C 1)"
  have h: "par_setup ps0 cpu_idle Lk_log 0"
    by (simp add: par_setup_def ps0_def km0_def kmstate.defs no_locks_def cli_ok_def lk_free_def cpu_idle_def del: no_locks_free no_locks_cli)
  obtain C where C: "par_step\<^sup>*\<^sup>* ?S C" "\<And>D. par_step\<^sup>*\<^sup>* ?S D \<Longrightarrow> ?n C \<le> ?n D"
    using ex_has_least_nat [of "par_step\<^sup>*\<^sup>* ?S" ?S ?n] by blast
  have "\<nexists>D. par_step C D"
    using sleep_wakeup [OF h C(1), THEN conjunct1] C(2) rtranclp.rtrancl_into_rtrancl [OF C(1)] by (meson not_le)
  with sleep_wakeup [OF h C(1)] C(1) show ?thesis by blast
qed

end
