(* ===== verification/Printf.thy ===== *)
theory Printf
  imports Strings
begin

text \<open>
  Formatted output of the user library (\<open>printf.c\<close>), and what it shares with the console's \<open>cprintf\<close>:
  arguments and the digits of \<open>printint\<close>. An argument that is a pointer to a string is given as the
  string (\<open>None\<close>: the null pointer). A format that takes an argument that is not there, or of the
  other kind, has no defined meaning in C; the result is then \<open>None\<close>. Strings are lists of bytes
  without their terminator.
\<close>

datatype parg = PInt u32 | PStr "u8 list option"

definition str :: "string \<Rightarrow> u8 list" where
  "str cs = map of_char cs"

lemma str_simps [simp]: "str [] = []" "str (c # cs) = of_char c # str cs" "length (str cs) = length cs"
  by (simp_all add: str_def)

section \<open>\<open>printint\<close>\<close>

text \<open>
  The do-while loop that fills \<open>buf\<close> from the last digit on. It is only called with base 10 and 16.
\<close>

function rdigits :: "nat \<Rightarrow> nat \<Rightarrow> nat list" where
  "rdigits base x = x mod base # (if x div base \<noteq> 0 \<and> 2 \<le> base then rdigits base (x div base) else [])"
  by pat_completeness auto
termination
proof (relation "measure snd", goal_cases)
  case (2 base x)
  then have "x \<noteq> 0" by (metis div_0)
  with 2 show ?case by simp
qed simp

declare rdigits.simps [simp del]

definition printint_buf :: "u8 list \<Rightarrow> u32 \<Rightarrow> nat \<Rightarrow> bool \<Rightarrow> u8 list" where
  "printint_buf digits xx base sg =
     (let neg = sg \<and> sint xx < 0;
          x = (if neg then - xx else xx);
          buf = map (\<lambda>d. digits ! d) (rdigits base (unat x))
      in if neg then buf @ [of_char CHR ''-''] else buf)"

text \<open>The last loop prints \<open>buf\<close> backwards.\<close>

definition printint :: "u32 \<Rightarrow> nat \<Rightarrow> bool \<Rightarrow> u8 list" where
  "printint xx base sg = rev (printint_buf (str ''0123456789ABCDEF'') xx base sg)"

section \<open>\<open>printf\<close>\<close>

text \<open>
  The loop over the format, with its \<open>state\<close> (\<open>True\<close>: after a \<open>%\<close>). The result is what \<open>putc\<close> writes to
  the file descriptor, in order.
\<close>

fun printf_loop :: "bool \<Rightarrow> u8 list \<Rightarrow> parg list \<Rightarrow> u8 list option" where
  "printf_loop state [] ap = Some []"
| "printf_loop False (c # fmt) ap =
     (if c = of_char CHR ''%'' then printf_loop True fmt ap
      else map_option (\<lambda>out. c # out) (printf_loop False fmt ap))"
| "printf_loop True (c # fmt) ap =
     (if c = of_char CHR ''d'' then
        (case ap of PInt x # ap \<Rightarrow> map_option (\<lambda>out. printint x 10 True @ out) (printf_loop False fmt ap) | _ \<Rightarrow> None)
      else if c = of_char CHR ''x'' \<or> c = of_char CHR ''p'' then
        (case ap of PInt x # ap \<Rightarrow> map_option (\<lambda>out. printint x 16 False @ out) (printf_loop False fmt ap) | _ \<Rightarrow> None)
      else if c = of_char CHR ''s'' then
        (case ap of PStr t # ap \<Rightarrow>
           map_option (\<lambda>out. (case t of None \<Rightarrow> str ''(null)'' | Some t \<Rightarrow> t) @ out) (printf_loop False fmt ap)
         | _ \<Rightarrow> None)
      else if c = of_char CHR ''c'' then
        (case ap of PInt x # ap \<Rightarrow> map_option (\<lambda>out. ucast x # out) (printf_loop False fmt ap) | _ \<Rightarrow> None)
      else if c = of_char CHR ''%'' then map_option (\<lambda>out. c # out) (printf_loop False fmt ap)
      else map_option (\<lambda>out. of_char CHR ''%'' # c # out) (printf_loop False fmt ap))"

definition printf :: "u8 list \<Rightarrow> parg list \<Rightarrow> u8 list option" where
  "printf fmt ap = printf_loop False fmt ap"

section \<open>Lemmas\<close>

text \<open>The number a list of digits denotes, the last digit first.\<close>

fun rvalue :: "nat \<Rightarrow> nat list \<Rightarrow> nat" where
  "rvalue base [] = 0"
| "rvalue base (d # ds) = d + base * rvalue base ds"

lemma rvalue_rdigits: "2 \<le> base \<Longrightarrow> rvalue base (rdigits base x) = x"
proof (induction base x rule: rdigits.induct)
  case (1 base x)
  then show ?case
    by (cases "x div base = 0") (auto simp: rdigits.simps [of base x] div_eq_0_iff)
qed

lemma rdigits_less: "2 \<le> base \<Longrightarrow> d \<in> set (rdigits base x) \<Longrightarrow> d < base"
proof (induction base x rule: rdigits.induct)
  case (1 base x)
  have "set (rdigits base x) = insert (x mod base) (if x div base \<noteq> 0 then set (rdigits base (x div base)) else {})"
    using 1(2) by (subst rdigits.simps) simp
  then show ?case using 1 by (cases "x div base = 0") auto
qed

lemma rdigits_no_lead: "2 \<le> base \<Longrightarrow> x \<noteq> 0 \<Longrightarrow> last (rdigits base x) \<noteq> 0"
proof (induction base x rule: rdigits.induct)
  case (1 base x)
  show ?case
  proof (cases "x div base = 0")
    case True
    with 1(2,3) show ?thesis by (simp add: rdigits.simps [of base x] div_eq_0_iff)
  next
    case False
    have ne: "rdigits base (x div base) \<noteq> []" by (subst rdigits.simps) simp
    show ?thesis using 1 False ne by (subst rdigits.simps) simp
  qed
qed

lemma length_rdigits: "2 \<le> base \<Longrightarrow> x < base ^ Suc n \<Longrightarrow> length (rdigits base x) \<le> Suc n"
proof (induction n arbitrary: x)
  case 0
  then show ?case by (subst rdigits.simps) simp
next
  case (Suc n)
  have "x div base < base ^ Suc n"
    using Suc.prems by (simp add: less_mult_imp_div_less mult.commute)
  then show ?case using Suc.IH [of "x div base"] Suc.prems(1) by (subst rdigits.simps) simp
qed

lemma sint_u32: "sint (x :: u32) = uint x - (if bit x 31 then 2 ^ 32 else 0)"
proof -
  have "take_bit 32 (uint x) = uint x" using uint_lt2p [of x] by (simp add: take_bit_int_eq_self)
  then show ?thesis by (simp add: sint_uint signed_take_bit_eq_take_bit_minus bit_uint_iff)
qed

lemma unat_minus_neg: "sint (x :: u32) < 0 \<Longrightarrow> int (unat (- x)) = - sint x"
proof -
  assume n: "sint x < 0"
  then have b: "sint x = uint x - 2 ^ 32" using uint_lt2p [of x] by (auto simp: sint_u32 split: if_splits)
  have nz: "uint x \<noteq> 0" using b sint_ge [of x] by auto
  have "uint (- x) = (- uint x) mod 2 ^ 32" by (simp add: uint_word_ariths)
  also have "\<dots> = 2 ^ 32 - uint x"
    using nz uint_lt2p [of x] by (simp add: zmod_zminus1_eq_if mod_pos_pos_trivial)
  finally show ?thesis using b by simp
qed

lemma unat_nonneg: "\<not> sint (x :: u32) < 0 \<Longrightarrow> int (unat x) = sint x"
  using uint_lt2p [of x] by (auto simp: sint_u32 split: if_splits)

lemma foldl_rvalue: "foldl (\<lambda>n d. base * n + d) 0 (rev ds) = rvalue base ds"
  by (induction ds) (simp_all add: add.commute)

lemma digit_char: "d < 10 \<Longrightarrow> str ''0123456789ABCDEF'' ! d = of_char CHR ''0'' + of_nat d"
  by (auto simp: less_Suc_eq numeral_eq_Suc)

lemma rdigits_Nil [simp]: "rdigits base x \<noteq> []"
  by (subst rdigits.simps) simp

section \<open>Properties\<close>

text \<open>
  C33. \<open>printint\<close> prints a number in decimal as it should, for every 32-bit value including the smallest:
  a minus sign exactly for negative numbers, then the decimal digits of the absolute value without
  leading zeros. The 16 bytes of \<open>buf\<close> are never exceeded, in base 10 or 16.
\<close>

theorem printint_decimal:
  "\<exists>ds. printint x 10 True = (if sint x < 0 then str ''-'' else []) @ map (\<lambda>d. of_char CHR ''0'' + of_nat d) ds
     \<and> set ds \<subseteq> {..<10} \<and> foldl (\<lambda>n d. 10 * n + d) 0 ds = nat \<bar>sint x\<bar> \<and> (hd ds = 0 \<longleftrightarrow> ds = [0])
     \<and> length (printint_buf digits x 10 True) \<le> 16 \<and> length (printint_buf digits x 16 False) \<le> 16"
proof -
  define v where "v = (if sint x < 0 then - x else x)"
  let ?r = "rdigits 10 (unat v)"
  have val: "int (unat v) = \<bar>sint x\<bar>" 
    using unat_minus_neg [of x] unat_nonneg [of x] unfolding v_def by (cases "sint x < 0") simp_all
  have lt: "d < 10" if "d \<in> set ?r" for d using rdigits_less [OF _ that] by simp
  have "map (\<lambda>d. str ''0123456789ABCDEF'' ! d) ?r = map (\<lambda>d. of_char CHR ''0'' + of_nat d) ?r"
    using lt digit_char by (intro map_cong) auto
  then have 1: "printint x 10 True = (if sint x < 0 then str ''-'' else []) @ map (\<lambda>d. of_char CHR ''0'' + of_nat d) (rev ?r)"
    unfolding printint_def printint_buf_def Let_def by (auto simp: v_def rev_map)
  have 2: "set (rev ?r) \<subseteq> {..<10}" using lt by auto
  have 3: "foldl (\<lambda>n d. 10 * n + d) 0 (rev ?r) = nat \<bar>sint x\<bar>"
    using arg_cong [OF val, of nat] by (simp add: foldl_rvalue rvalue_rdigits del: foldl_append)
  have 4: "hd (rev ?r) = 0 \<longleftrightarrow> rev ?r = [0]"
    using rdigits_no_lead [of 10 "unat v"] by (cases "unat v = 0") (auto simp: hd_rev rdigits.simps [of 10 0])
  have l: "unat (w :: u32) < 10 ^ Suc 9" "unat w < 16 ^ Suc 7" for w using unat32_less [of w] by simp_all
  have 5: "length (printint_buf digits x 10 True) \<le> 16" "length (printint_buf digits x 16 False) \<le> 16"
    using length_rdigits [OF _ l(1), of v] length_rdigits [OF _ l(2), of x]
    by (auto simp: printint_buf_def Let_def v_def split: if_splits)
  show ?thesis by (rule exI [of _ "rev ?r"]) (intro conjI 1 2 3 4 5)
qed

end
