(* ===== verification/Fs.thy ===== *)
theory Fs
  imports Log_Props
begin

text \<open>
  Blocks and inodes of the file system (the first half of \<open>fs.c\<close>): the free-block bitmap, the inode
  cache, locking of inodes, and the block map of an inode. Inode pointers are indices into the
  cache; the C integers \<open>ref\<close> are \<open>int\<close>, the \<open>short\<close> fields 16-bit words. The routines read the super
  block from the global \<open>sb\<close>.
\<close>

section \<open>State\<close>

definition NINODE :: nat where "NINODE = 50"

definition NDIRECT :: nat where "NDIRECT = 12"

definition NINDIRECT :: nat where "NINDIRECT = BSIZE div 4"

definition MAXFILE :: nat where "MAXFILE = NDIRECT + NINDIRECT"

definition I_BUSY :: u32 where "I_BUSY = 1"

definition I_VALID :: u32 where "I_VALID = 2"

record inode =
  i_dev :: u32
  i_inum :: u32
  i_ref :: int
  i_flags :: u32
  i_type :: u16
  i_major :: u16
  i_minor :: u16
  i_nlink :: u16
  i_size :: u32
  i_addrs :: "u32 list"

record fstate = lstate +
  sb :: superblock
  icache :: "inode list"

definition get_inode :: "nat \<Rightarrow> ('a fstate_scheme, inode) km" where
  "get_inode i = gets (\<lambda>s. icache s ! i)"

definition set_inode :: "nat \<Rightarrow> (inode \<Rightarrow> inode) \<Rightarrow> ('a fstate_scheme, unit) km" where
  "set_inode i f = upd (\<lambda>s. s\<lparr>icache := (icache s)[i := f (icache s ! i)]\<rparr>)"

text \<open>The inodes on disk: 64 bytes each, eight to a block.\<close>

definition DINODE_SIZE :: nat where "DINODE_SIZE = 64"

definition IPB :: u32 where "IPB = of_nat (BSIZE div DINODE_SIZE)"

definition IBLOCK :: "u32 \<Rightarrow> superblock \<Rightarrow> u32" where
  "IBLOCK i b = i div IPB + sb_inodestart b"

definition dinode_off :: "u32 \<Rightarrow> nat" where
  "dinode_off inum = unat (inum mod IPB) * DINODE_SIZE"

definition BPB :: nat where "BPB = BSIZE * 8"

definition BBLOCK :: "u32 \<Rightarrow> superblock \<Rightarrow> u32" where
  "BBLOCK b sp = b div of_nat BPB + sb_bmapstart sp"

section \<open>Blocks\<close>

definition bzero :: "u32 \<Rightarrow> u32 \<Rightarrow> ('a fstate_scheme, unit) km" where
  "bzero dev bno =
     bnd (bread dev bno) (\<lambda>bp.
     bnd (put_data bp (\<lambda>_. replicate BSIZE 0)) (\<lambda>_.
     bnd (log_write bp) (\<lambda>_.
     brelse bp)))"

text \<open>The inner loop of \<open>balloc\<close> searches one bitmap block for a zero bit below \<open>sb.size\<close>.\<close>

definition balloc_bit :: "u8 list \<Rightarrow> nat \<Rightarrow> nat \<Rightarrow> nat option" where
  "balloc_bit d b sz = find (\<lambda>bi. \<not> bit (d ! (bi div 8)) (bi mod 8)) [0..<min BPB (sz - b)]"

function balloc_loop :: "u32 \<Rightarrow> superblock \<Rightarrow> nat \<Rightarrow> ('a fstate_scheme, u32) km" where
  "balloc_loop dev sp b =
     (if b < unat (sb_size sp) then
        bnd (bread dev (BBLOCK (of_nat b) sp)) (\<lambda>bp.
        bnd (get_buf bp) (\<lambda>x.
        case balloc_bit (b_data x) b (unat (sb_size sp)) of
          Some bi \<Rightarrow>
            bnd (put_data bp (\<lambda>d. d[bi div 8 := d ! (bi div 8) OR push_bit (bi mod 8) 1])) (\<lambda>_.
            bnd (log_write bp) (\<lambda>_.
            bnd (brelse bp) (\<lambda>_.
            bnd (bzero dev (of_nat (b + bi))) (\<lambda>_.
            ret (of_nat (b + bi))))))
        | None \<Rightarrow>
            bnd (brelse bp) (\<lambda>_. balloc_loop dev sp (b + BPB))))
      else panic ''balloc: out of blocks'')"
  by pat_completeness auto
termination
  by (relation "measure (\<lambda>(dev, sp, b). unat (sb_size sp) - b)") (auto simp: BPB_def BSIZE_def)

declare balloc_loop.simps [simp del]

definition balloc :: "u32 \<Rightarrow> ('a fstate_scheme, u32) km" where
  "balloc dev = bnd (gets sb) (\<lambda>sp. balloc_loop dev sp 0)"

definition bfree :: "u32 \<Rightarrow> u32 \<Rightarrow> ('a fstate_scheme, unit) km" where
  "bfree dev b =
     bnd (readsb dev) (\<lambda>sp.
     bnd (upd (\<lambda>s. s\<lparr>sb := sp\<rparr>)) (\<lambda>_.
     bnd (bread dev (BBLOCK b sp)) (\<lambda>bp.
     let bi = unat b mod BPB in
     bnd (get_buf bp) (\<lambda>x.
     if \<not> bit (b_data x ! (bi div 8)) (bi mod 8) then panic ''freeing free block''
     else
       bnd (put_data bp (\<lambda>d. d[bi div 8 := d ! (bi div 8) AND NOT (push_bit (bi mod 8) 1)])) (\<lambda>_.
       bnd (log_write bp) (\<lambda>_.
       brelse bp))))))"

section \<open>Inodes\<close>

definition iget :: "u32 \<Rightarrow> u32 \<Rightarrow> ('a fstate_scheme, nat) km" where
  "iget dev inum =
     bnd (acquire Lk_icache) (\<lambda>_.
     bnd (gets icache) (\<lambda>ic.
     case find_idx (\<lambda>ip. i_ref ip > 0 \<and> i_dev ip = dev \<and> i_inum ip = inum) ic of
       Some i \<Rightarrow>
         bnd (set_inode i (\<lambda>ip. ip\<lparr>i_ref := i_ref ip + 1\<rparr>)) (\<lambda>_.
         bnd (release Lk_icache) (\<lambda>_.
         ret i))
     | None \<Rightarrow>
         (case find_idx (\<lambda>ip. i_ref ip = 0) ic of
            None \<Rightarrow> panic ''iget: no inodes''
          | Some i \<Rightarrow>
              bnd (set_inode i (\<lambda>ip. ip\<lparr>i_dev := dev, i_inum := inum, i_ref := 1, i_flags := 0\<rparr>)) (\<lambda>_.
              bnd (release Lk_icache) (\<lambda>_.
              ret i)))))"

fun ialloc_loop :: "u32 \<Rightarrow> u16 \<Rightarrow> superblock \<Rightarrow> nat list \<Rightarrow> ('a fstate_scheme, nat) km" where
  "ialloc_loop dev type sp [] = panic ''ialloc: no inodes''"
| "ialloc_loop dev type sp (inum # inums) =
     bnd (bread dev (IBLOCK (of_nat inum) sp)) (\<lambda>bp.
     bnd (get_buf bp) (\<lambda>x.
     let off = dinode_off (of_nat inum) in
     if get16 (b_data x) off = 0 then
       bnd (put_data bp (\<lambda>d. put16 (splice d off (replicate DINODE_SIZE 0)) off type)) (\<lambda>_.
       bnd (log_write bp) (\<lambda>_.
       bnd (brelse bp) (\<lambda>_.
       iget dev (of_nat inum))))
     else bnd (brelse bp) (\<lambda>_. ialloc_loop dev type sp inums)))"

definition ialloc :: "u32 \<Rightarrow> u16 \<Rightarrow> ('a fstate_scheme, nat) km" where
  "ialloc dev type = bnd (gets sb) (\<lambda>sp. ialloc_loop dev type sp [1..<unat (sb_ninodes sp)])"

text \<open>The fields of an inode and their places in the 64 bytes on disk.\<close>

definition put_dinode :: "u8 list \<Rightarrow> nat \<Rightarrow> inode \<Rightarrow> u8 list" where
  "put_dinode d off ip =
     (let d1 = put16 d off (i_type ip);
          d2 = put16 d1 (off + 2) (i_major ip);
          d3 = put16 d2 (off + 4) (i_minor ip);
          d4 = put16 d3 (off + 6) (i_nlink ip);
          d5 = put32 d4 (off + 8) (i_size ip)
      in foldl (\<lambda>d k. put32 d (off + 12 + 4 * k) (i_addrs ip ! k)) d5 [0..<NDIRECT + 1])"

definition get_dinode :: "u8 list \<Rightarrow> nat \<Rightarrow> inode \<Rightarrow> inode" where
  "get_dinode d off ip = ip\<lparr>i_type := get16 d off, i_major := get16 d (off + 2), i_minor := get16 d (off + 4),
     i_nlink := get16 d (off + 6), i_size := get32 d (off + 8),
     i_addrs := map (\<lambda>k. get32 d (off + 12 + 4 * k)) [0..<NDIRECT + 1]\<rparr>"

definition iupdate :: "nat \<Rightarrow> ('a fstate_scheme, unit) km" where
  "iupdate i =
     bnd (get_inode i) (\<lambda>ip.
     bnd (gets sb) (\<lambda>sp.
     bnd (bread (i_dev ip) (IBLOCK (i_inum ip) sp)) (\<lambda>bp.
     bnd (put_data bp (\<lambda>d. put_dinode d (dinode_off (i_inum ip)) ip)) (\<lambda>_.
     bnd (log_write bp) (\<lambda>_.
     brelse bp)))))"

definition idup :: "nat \<Rightarrow> ('a fstate_scheme, nat) km" where
  "idup i =
     bnd (acquire Lk_icache) (\<lambda>_.
     bnd (set_inode i (\<lambda>ip. ip\<lparr>i_ref := i_ref ip + 1\<rparr>)) (\<lambda>_.
     bnd (release Lk_icache) (\<lambda>_.
     ret i)))"

text \<open>
  \<open>ilock\<close>: \<open>ilock_loop\<close> is a round of its loop, with the lock of the cache held, and what follows the
  loop. A process that waits stops in \<open>sleep\<close>; it goes on with \<open>sleep_resume Lk_icache\<close> and the next
  round.
\<close>

definition ilock_read :: "nat \<Rightarrow> ('a fstate_scheme, unit) km" where
  "ilock_read i =
     bnd (get_inode i) (\<lambda>ip.
     if i_flags ip AND I_VALID = 0 then
       bnd (gets sb) (\<lambda>sp.
       bnd (bread (i_dev ip) (IBLOCK (i_inum ip) sp)) (\<lambda>bp.
       bnd (get_buf bp) (\<lambda>x.
       bnd (set_inode i (get_dinode (b_data x) (dinode_off (i_inum ip)))) (\<lambda>_.
       bnd (brelse bp) (\<lambda>_.
       bnd (set_inode i (\<lambda>ip. ip\<lparr>i_flags := i_flags ip OR I_VALID\<rparr>)) (\<lambda>_.
       bnd (get_inode i) (\<lambda>ip.
       if i_type ip = 0 then panic ''ilock: no type'' else ret ())))))))
     else ret ())"

definition ilock_loop :: "nat \<Rightarrow> ('a fstate_scheme, unit) km" where
  "ilock_loop i =
     bnd (get_inode i) (\<lambda>ip.
     if i_flags ip AND I_BUSY \<noteq> 0 then sleep (ChInode i) Lk_icache
     else
       bnd (set_inode i (\<lambda>ip. ip\<lparr>i_flags := i_flags ip OR I_BUSY\<rparr>)) (\<lambda>_.
       bnd (release Lk_icache) (\<lambda>_.
       ilock_read i)))"

definition ilock :: "nat option \<Rightarrow> ('a fstate_scheme, unit) km" where
  "ilock ip =
     (case ip of None \<Rightarrow> panic ''ilock''
      | Some i \<Rightarrow>
          bnd (get_inode i) (\<lambda>ip.
          if i_ref ip < 1 then panic ''ilock''
          else bnd (acquire Lk_icache) (\<lambda>_. ilock_loop i)))"

definition iunlock :: "nat option \<Rightarrow> ('a fstate_scheme, unit) km" where
  "iunlock ip =
     (case ip of None \<Rightarrow> panic ''iunlock''
      | Some i \<Rightarrow>
          bnd (get_inode i) (\<lambda>ip.
          if i_flags ip AND I_BUSY = 0 \<or> i_ref ip < 1 then panic ''iunlock''
          else
            bnd (acquire Lk_icache) (\<lambda>_.
            bnd (set_inode i (\<lambda>ip. ip\<lparr>i_flags := i_flags ip AND NOT I_BUSY\<rparr>)) (\<lambda>_.
            bnd (wakeup (ChInode i)) (\<lambda>_.
            release Lk_icache)))))"

section \<open>The blocks of an inode\<close>

definition bmap :: "nat \<Rightarrow> u32 \<Rightarrow> ('a fstate_scheme, u32) km" where
  "bmap i bn =
     bnd (get_inode i) (\<lambda>ip.
     if unat bn < NDIRECT then
       (let addr = i_addrs ip ! unat bn in
        if addr = 0 then
          bnd (balloc (i_dev ip)) (\<lambda>addr.
          bnd (set_inode i (\<lambda>ip. ip\<lparr>i_addrs := (i_addrs ip)[unat bn := addr]\<rparr>)) (\<lambda>_.
          ret addr))
        else ret addr)
     else
       (let bn = unat bn - NDIRECT in
        if bn < NINDIRECT then
          bnd (if i_addrs ip ! NDIRECT = 0 then
                 bnd (balloc (i_dev ip)) (\<lambda>addr.
                 bnd (set_inode i (\<lambda>ip. ip\<lparr>i_addrs := (i_addrs ip)[NDIRECT := addr]\<rparr>)) (\<lambda>_.
                 ret addr))
               else ret (i_addrs ip ! NDIRECT)) (\<lambda>addr.
          bnd (bread (i_dev ip) addr) (\<lambda>bp.
          bnd (get_buf bp) (\<lambda>x.
          let addr = get32 (b_data x) (4 * bn) in
          bnd (if addr = 0 then
                 bnd (balloc (i_dev ip)) (\<lambda>addr.
                 bnd (put_data bp (\<lambda>d. put32 d (4 * bn) addr)) (\<lambda>_.
                 bnd (log_write bp) (\<lambda>_.
                 ret addr)))
               else ret addr) (\<lambda>addr.
          bnd (brelse bp) (\<lambda>_.
          ret addr)))))
        else panic ''bmap: out of range''))"

definition itrunc :: "nat \<Rightarrow> ('a fstate_scheme, unit) km" where
  "itrunc i =
     bnd (foreach [0..<NDIRECT] (\<lambda>k.
       bnd (get_inode i) (\<lambda>ip.
       if i_addrs ip ! k \<noteq> 0 then
         bnd (bfree (i_dev ip) (i_addrs ip ! k)) (\<lambda>_.
         set_inode i (\<lambda>ip. ip\<lparr>i_addrs := (i_addrs ip)[k := 0]\<rparr>))
       else ret ()))) (\<lambda>_.
     bnd (get_inode i) (\<lambda>ip.
     bnd (if i_addrs ip ! NDIRECT \<noteq> 0 then
            bnd (bread (i_dev ip) (i_addrs ip ! NDIRECT)) (\<lambda>bp.
            bnd (foreach [0..<NINDIRECT] (\<lambda>j.
              bnd (get_buf bp) (\<lambda>x.
              if get32 (b_data x) (4 * j) \<noteq> 0 then bfree (i_dev ip) (get32 (b_data x) (4 * j)) else ret ()))) (\<lambda>_.
            bnd (brelse bp) (\<lambda>_.
            bnd (bfree (i_dev ip) (i_addrs ip ! NDIRECT)) (\<lambda>_.
            set_inode i (\<lambda>ip. ip\<lparr>i_addrs := (i_addrs ip)[NDIRECT := 0]\<rparr>)))))
          else ret ()) (\<lambda>_.
     bnd (set_inode i (\<lambda>ip. ip\<lparr>i_size := 0\<rparr>)) (\<lambda>_.
     iupdate i))))"

definition iput :: "nat \<Rightarrow> ('a fstate_scheme, unit) km" where
  "iput i =
     bnd (acquire Lk_icache) (\<lambda>_.
     bnd (get_inode i) (\<lambda>ip.
     bnd (if i_ref ip = 1 \<and> i_flags ip AND I_VALID \<noteq> 0 \<and> i_nlink ip = 0 then
            if i_flags ip AND I_BUSY \<noteq> 0 then panic ''iput busy''
            else
              bnd (set_inode i (\<lambda>ip. ip\<lparr>i_flags := i_flags ip OR I_BUSY\<rparr>)) (\<lambda>_.
              bnd (release Lk_icache) (\<lambda>_.
              bnd (itrunc i) (\<lambda>_.
              bnd (set_inode i (\<lambda>ip. ip\<lparr>i_type := 0\<rparr>)) (\<lambda>_.
              bnd (iupdate i) (\<lambda>_.
              bnd (acquire Lk_icache) (\<lambda>_.
              bnd (set_inode i (\<lambda>ip. ip\<lparr>i_flags := 0\<rparr>)) (\<lambda>_.
              wakeup (ChInode i))))))))
          else ret ()) (\<lambda>_.
     bnd (set_inode i (\<lambda>ip. ip\<lparr>i_ref := i_ref ip - 1\<rparr>)) (\<lambda>_.
     release Lk_icache))))"

definition iunlockput :: "nat \<Rightarrow> ('a fstate_scheme, unit) km" where
  "iunlockput i = bnd (iunlock (Some i)) (\<lambda>_. iput i)"

record fstat =
  st_type :: u16
  st_dev :: u32
  st_ino :: u32
  st_nlink :: u16
  st_size :: u32

definition stati :: "nat \<Rightarrow> ('a fstate_scheme, fstat) km" where
  "stati i = bnd (get_inode i) (\<lambda>ip.
     ret \<lparr>st_type = i_type ip, st_dev = i_dev ip, st_ino = i_inum ip, st_nlink = i_nlink ip, st_size = i_size ip\<rparr>)"

end
