(* ===== verification/Console.thy ===== *)
theory Console
  imports Fs Printf
begin

text \<open>
  The console (\<open>console.c\<close>, \<open>uartputc\<close> of \<open>uart.c\<close>, \<open>getcallerpcs\<close> and \<open>procdump\<close>): output to the screen and
  the serial line, formatted output, and the line-edited input buffer. The screen memory is kernel
  memory at \<open>crt\<close>; the cursor register of the display controller and the bytes sent over the serial
  line are fields of the state. \<open>iinit\<close> of \<open>fs.c\<close>, which prints the super block, stands here too.
\<close>

section \<open>State\<close>

definition INPUT_BUF :: nat where "INPUT_BUF = 128"

definition BACKSPACE :: u32 where "BACKSPACE = 0x100"

text \<open>The device switch: the function a device has for reading and for writing, if any.\<close>

datatype devfn = NoDev | ConsoleDev

record devsw =
  dev_read :: devfn
  dev_write :: devfn

definition NDEV :: nat where "NDEV = 10"

definition CONSOLE :: nat where "CONSOLE = 1"

record cnstate = fstate +
  devsws :: "devsw list"
  cons_locking :: bool
  panicked :: bool
  uart :: bool
  uart_out :: "u8 list"
  crt_pos :: u16
  in_buf :: "u8 list"
  in_r :: u32
  in_w :: u32
  in_e :: u32

section \<open>Output\<close>

definition uartputc :: "u32 \<Rightarrow> ('a cnstate_scheme, unit) km" where
  "uartputc c = upd (\<lambda>s. if uart s then s\<lparr>uart_out := uart_out s @ [ucast c]\<rparr> else s)"

definition crt :: u32 where "crt = p2v 0xb8000"

definition st16 :: "mem \<Rightarrow> u32 \<Rightarrow> u16 \<Rightarrow> mem" where
  "st16 m a v = m(a := ucast v, a + 1 := ucast (drop_bit 8 v))"

definition set_crt :: "int \<Rightarrow> u16 \<Rightarrow> ('a kmstate_scheme, unit) km" where
  "set_crt pos v = upd (\<lambda>s. s\<lparr>kmem_bytes := st16 (kmem_bytes s) (crt + 2 * word_of_int pos) v\<rparr>)"

definition cgaputc :: "u32 \<Rightarrow> ('a cnstate_scheme, unit) km" where
  "cgaputc c =
     bnd (gets (\<lambda>s. int (unat (crt_pos s)))) (\<lambda>pos.
     bnd (if c = 10 then ret (pos + 80 - pos mod 80)
          else if c = BACKSPACE then ret (if pos > 0 then pos - 1 else pos)
          else bnd (set_crt pos (ucast (c AND 0xff) OR 0x0700)) (\<lambda>_. ret (pos + 1))) (\<lambda>pos.
     if pos < 0 \<or> pos > 25 * 80 then panic ''pos under/overflow''
     else
       bnd (if pos div 80 \<ge> 24 then
              bnd (upd (\<lambda>s. s\<lparr>kmem_bytes := memmove (kmem_bytes s) crt (crt + 2 * 80) (2 * 23 * 80)\<rparr>)) (\<lambda>_.
              bnd (upd (\<lambda>s. s\<lparr>kmem_bytes := memset (kmem_bytes s) (crt + 2 * word_of_int (pos - 80)) 0
                     (2 * word_of_int (24 * 80 - (pos - 80)))\<rparr>)) (\<lambda>_.
              ret (pos - 80)))
            else ret pos) (\<lambda>pos.
       bnd (upd (\<lambda>s. s\<lparr>crt_pos := word_of_int pos\<rparr>)) (\<lambda>_.
       set_crt pos (0x20 OR 0x0700)))))"

definition consputc :: "u32 \<Rightarrow> ('a cnstate_scheme, unit) km" where
  "consputc c =
     bnd (gets panicked) (\<lambda>p.
     if p then stop Diverges
     else
       bnd (if c = BACKSPACE then
              bnd (uartputc 8) (\<lambda>_. bnd (uartputc 32) (\<lambda>_. uartputc 8))
            else uartputc c) (\<lambda>_.
       cgaputc c))"

definition cons_printint :: "u32 \<Rightarrow> nat \<Rightarrow> bool \<Rightarrow> ('a cnstate_scheme, unit) km" where
  "cons_printint xx base sg = foreach (rev (printint_buf (str ''0123456789abcdef'') xx base sg)) (\<lambda>c. consputc (scast c))"

fun cprintf_loop :: "u8 list \<Rightarrow> parg list \<Rightarrow> ('a cnstate_scheme, unit) km" where
  "cprintf_loop [] args = ret ()"
| "cprintf_loop (c # fmt) args =
     (if c \<noteq> of_char CHR ''%'' then bnd (consputc (ucast c)) (\<lambda>_. cprintf_loop fmt args)
      else
        (case fmt of [] \<Rightarrow> ret ()
         | c # fmt \<Rightarrow>
             if c = of_char CHR ''d'' then
               (case args of PInt x # args \<Rightarrow> bnd (cons_printint x 10 True) (\<lambda>_. cprintf_loop fmt args)
                | _ \<Rightarrow> stop (Undefined ''cprintf''))
             else if c = of_char CHR ''x'' \<or> c = of_char CHR ''p'' then
               (case args of PInt x # args \<Rightarrow> bnd (cons_printint x 16 False) (\<lambda>_. cprintf_loop fmt args)
                | _ \<Rightarrow> stop (Undefined ''cprintf''))
             else if c = of_char CHR ''s'' then
               (case args of PStr t # args \<Rightarrow>
                  bnd (foreach (case t of None \<Rightarrow> str ''(null)'' | Some t \<Rightarrow> t) (\<lambda>c. consputc (scast c))) (\<lambda>_.
                  cprintf_loop fmt args)
                | _ \<Rightarrow> stop (Undefined ''cprintf''))
             else if c = of_char CHR ''%'' then bnd (consputc (ucast c)) (\<lambda>_. cprintf_loop fmt args)
             else
               bnd (consputc (of_char CHR ''%'')) (\<lambda>_.
               bnd (consputc (ucast c)) (\<lambda>_.
               cprintf_loop fmt args))))"

definition cprintf :: "string \<Rightarrow> parg list \<Rightarrow> ('a cnstate_scheme, unit) km" where
  "cprintf fmt args =
     bnd (gets cons_locking) (\<lambda>locking.
     bnd (if locking then acquire Lk_cons else ret ()) (\<lambda>_.
     bnd (cprintf_loop (str fmt) args) (\<lambda>_.
     if locking then release Lk_cons else ret ())))"

text \<open>\<open>getcallerpcs\<close> follows saved frame pointers; it stops at the first one outside the kernel.\<close>

fun getcallerpcs_loop :: "mem \<Rightarrow> nat \<Rightarrow> u32 \<Rightarrow> u32 list" where
  "getcallerpcs_loop m 0 ebp = []"
| "getcallerpcs_loop m (Suc k) ebp =
     (if ebp = 0 \<or> ebp < KERNBASE \<or> ebp = 0xffffffff then replicate (Suc k) 0
      else ld32 m (ebp + 4) # getcallerpcs_loop m k (ld32 m ebp))"

definition getcallerpcs :: "mem \<Rightarrow> u32 \<Rightarrow> u32 list" where
  "getcallerpcs m v = getcallerpcs_loop m 10 (v - 8)"

fun state_name :: "procstate \<Rightarrow> string" where
  "state_name UNUSED = ''unused''"
| "state_name EMBRYO = ''embryo''"
| "state_name SLEEPING = ''sleep ''"
| "state_name RUNNABLE = ''runble''"
| "state_name RUNNING = ''run   ''"
| "state_name ZOMBIE = ''zombie''"

text \<open>The saved \<open>ebp\<close> is the fourth word of \<open>struct context\<close>.\<close>

definition procdump :: "('a cnstate_scheme, unit) km" where
  "procdump = bnd (gets procs) (\<lambda>ps. foreach ps (\<lambda>p.
     if p_state p = UNUSED then ret ()
     else
       bnd (cprintf ''%d %s %s'' [PInt (word_of_int (p_pid p)), PStr (Some (str (state_name (p_state p)))), PStr (Some (p_name p))]) (\<lambda>_.
       bnd (if p_state p = SLEEPING then
              bnd (gets kmem_bytes) (\<lambda>m.
              foreach (takeWhile (\<lambda>pc. pc \<noteq> 0) (getcallerpcs m (ld32 m (p_context p + 12) + 8))) (\<lambda>pc. cprintf '' %p'' [PInt pc]))
            else ret ()) (\<lambda>_.
       cprintf [CHR 0x0A] []))))"

section \<open>Input\<close>

definition in_at :: "'a cnstate_scheme \<Rightarrow> u32 \<Rightarrow> u8" where
  "in_at s i = in_buf s ! (unat i mod INPUT_BUF)"

text \<open>
  Kill line: the edit index goes back to the write index or to the last end of line. The loop
  passes at most \<open>INPUT_BUF\<close> characters, since the indices are never farther apart.
\<close>

fun kill_line :: "nat \<Rightarrow> ('a cnstate_scheme, unit) km" where
  "kill_line 0 = stop Diverges"
| "kill_line (Suc k) =
     bnd (gets (\<lambda>s. in_e s \<noteq> in_w s \<and> in_at s (in_e s - 1) \<noteq> 10)) (\<lambda>b.
     if b then
       bnd (upd (\<lambda>s. s\<lparr>in_e := in_e s - 1\<rparr>)) (\<lambda>_.
       bnd (consputc BACKSPACE) (\<lambda>_.
       kill_line k))
     else ret ())"

definition consoleintr_key :: "u32 \<Rightarrow> ('a cnstate_scheme, unit) km" where
  "consoleintr_key c =
     bnd (gets (\<lambda>s. in_e s - in_r s < of_nat INPUT_BUF)) (\<lambda>room.
     if c \<noteq> 0 \<and> room then
       (let c = (if c = 13 then 10 else c) in
        bnd (upd (\<lambda>s. s\<lparr>in_buf := (in_buf s)[unat (in_e s) mod INPUT_BUF := ucast c], in_e := in_e s + 1\<rparr>)) (\<lambda>_.
        bnd (consputc c) (\<lambda>_.
        bnd (gets (\<lambda>s. in_e s = in_r s + of_nat INPUT_BUF)) (\<lambda>full.
        if c = 10 \<or> c = 4 \<or> full then
          bnd (upd (\<lambda>s. s\<lparr>in_w := in_e s\<rparr>)) (\<lambda>_. wakeup ChInput)
        else ret ()))))
     else ret ())"

text \<open>
  \<open>consoleintr\<close>, with the characters \<open>getc\<close> returns before it answers -1. The result of the loop says
  whether ^P was among them.
\<close>

fun consoleintr_loop :: "u32 list \<Rightarrow> bool \<Rightarrow> ('a cnstate_scheme, bool) km" where
  "consoleintr_loop [] dump = ret dump"
| "consoleintr_loop (c # cs) dump =
     (if c = 16 then consoleintr_loop cs True
      else if c = 21 then bnd (kill_line (INPUT_BUF + 1)) (\<lambda>_. consoleintr_loop cs dump)
      else if c = 8 \<or> c = 0x7f then
        bnd (gets (\<lambda>s. in_e s \<noteq> in_w s)) (\<lambda>b.
        bnd (if b then bnd (upd (\<lambda>s. s\<lparr>in_e := in_e s - 1\<rparr>)) (\<lambda>_. consputc BACKSPACE) else ret ()) (\<lambda>_.
        consoleintr_loop cs dump))
      else bnd (consoleintr_key c) (\<lambda>_. consoleintr_loop cs dump))"

definition consoleintr :: "u32 list \<Rightarrow> ('a cnstate_scheme, unit) km" where
  "consoleintr cs =
     bnd (acquire Lk_cons) (\<lambda>_.
     bnd (consoleintr_loop cs False) (\<lambda>dump.
     bnd (release Lk_cons) (\<lambda>_.
     if dump then procdump else ret ())))"

text \<open>
  \<open>consoleread\<close>. The loop holds the lock; \<open>acc\<close> are the bytes stored at \<open>dst\<close> so far, \<open>n\<close> the number still
  wanted. A reader that waits stops in \<open>sleep\<close> and goes on with \<open>sleep_resume Lk_cons\<close> and the loop with the
  same arguments. The result is the return value with the bytes stored.
\<close>

fun consoleread_loop :: "nat \<Rightarrow> nat \<Rightarrow> nat \<Rightarrow> u8 list \<Rightarrow> ('a cnstate_scheme, int \<times> u8 list) km" where
  "consoleread_loop ip target 0 acc =
     bnd (release Lk_cons) (\<lambda>_. bnd (ilock (Some ip)) (\<lambda>_. ret (int target, acc)))"
| "consoleread_loop ip target (Suc n) acc =
     bnd (gets (\<lambda>s. in_r s = in_w s)) (\<lambda>empty.
     if empty then
       bnd myproc (\<lambda>p.
       bnd (gets (\<lambda>s. p_killed (procs s ! p))) (\<lambda>killed.
       if killed then
         bnd (release Lk_cons) (\<lambda>_. bnd (ilock (Some ip)) (\<lambda>_. ret (- 1, acc)))
       else sleep ChInput Lk_cons))
     else
       bnd (gets (\<lambda>s. in_at s (in_r s))) (\<lambda>c.
       bnd (upd (\<lambda>s. s\<lparr>in_r := in_r s + 1\<rparr>)) (\<lambda>_.
       if c = 4 then
         bnd (if Suc n < target then upd (\<lambda>s. s\<lparr>in_r := in_r s - 1\<rparr>) else ret ()) (\<lambda>_.
         bnd (release Lk_cons) (\<lambda>_. bnd (ilock (Some ip)) (\<lambda>_. ret (int target - int (Suc n), acc))))
       else if c = 10 then
         bnd (release Lk_cons) (\<lambda>_. bnd (ilock (Some ip)) (\<lambda>_. ret (int target - int n, acc @ [c])))
       else consoleread_loop ip target n (acc @ [c]))))"

definition consoleread :: "nat \<Rightarrow> int \<Rightarrow> ('a cnstate_scheme, int \<times> u8 list) km" where
  "consoleread ip n =
     bnd (iunlock (Some ip)) (\<lambda>_.
     bnd (acquire Lk_cons) (\<lambda>_.
     if n > 0 then consoleread_loop ip (nat n) (nat n) []
     else bnd (release Lk_cons) (\<lambda>_. bnd (ilock (Some ip)) (\<lambda>_. ret (0, [])))))"

definition consolewrite :: "nat \<Rightarrow> u8 list \<Rightarrow> int \<Rightarrow> ('a cnstate_scheme, int) km" where
  "consolewrite ip src n =
     bnd (iunlock (Some ip)) (\<lambda>_.
     bnd (acquire Lk_cons) (\<lambda>_.
     bnd (foreach [0..<nat n] (\<lambda>k. consputc (ucast (src ! k)))) (\<lambda>_.
     bnd (release Lk_cons) (\<lambda>_.
     bnd (ilock (Some ip)) (\<lambda>_.
     ret n)))))"

definition consoleinit :: "('a cnstate_scheme, unit) km" where
  "consoleinit =
     bnd (initlock Lk_cons ''console'') (\<lambda>_.
     bnd (upd (\<lambda>s. s\<lparr>devsws := (devsws s)[CONSOLE := \<lparr>dev_read = ConsoleDev, dev_write = ConsoleDev\<rparr>]\<rparr>)) (\<lambda>_.
     upd (\<lambda>s. s\<lparr>cons_locking := True\<rparr>)))"

definition iinit :: "u32 \<Rightarrow> ('a cnstate_scheme, unit) km" where
  "iinit dev =
     bnd (initlock Lk_icache ''icache'') (\<lambda>_.
     bnd (readsb dev) (\<lambda>sp.
     bnd (upd (\<lambda>s. s\<lparr>sb := sp\<rparr>)) (\<lambda>_.
     cprintf (''sb: size %d nblocks %d ninodes %d nlog %d logstart %d inodestart %d bmap start %d'' @ [CHR 0x0A])
       [PInt (sb_size sp), PInt (sb_nblocks sp), PInt (sb_ninodes sp), PInt (sb_nlog sp), PInt (sb_logstart sp),
        PInt (sb_inodestart sp), PInt (sb_bmapstart sp)])))"

end
