(* ===== verification/Inode.thy ===== *)
theory Inode
  imports Console
begin

text \<open>
  File contents, directories and path names (the second half of \<open>fs.c\<close>). A routine that stores bytes at
  a destination pointer returns them; a routine that reads from a source pointer takes the bytes.
\<close>

section \<open>File contents\<close>

definition T_DIR :: u16 where "T_DIR = 1"

definition T_FILE :: u16 where "T_FILE = 2"

definition T_DEV :: u16 where "T_DEV = 3"

definition chunk :: "u32 \<Rightarrow> u32 \<Rightarrow> u32 \<Rightarrow> u32" where
  "chunk tot off n = min (n - tot) (of_nat BSIZE - off mod of_nat BSIZE)"

lemma chunk_pos:
  assumes "tot < n"
  shows "0 < chunk tot off n" "chunk tot off n \<le> n - tot" "unat (n - (tot + chunk tot off n)) < unat (n - tot)"
    "tot < tot + chunk tot off n" "tot + chunk tot off n \<le> n"
proof -
  have "unat (512 - off mod (512 :: u32)) = 512 - unat (off mod 512)"
    using word_mod_less_divisor [of 512 off] by (subst unat_sub) (simp_all add: word_le_nat_alt word_less_nat_alt)
  moreover have "unat (off mod (512 :: u32)) < 512" by (simp add: unat_mod)
  ultimately have b: "0 < 512 - off mod (512 :: u32)" by (simp add: word_less_nat_alt)
  have nt: "unat (n - tot) = unat n - unat tot" "unat tot < unat n"
    using assms by (simp_all add: unat_sub less_imp_le word_less_nat_alt)
  then have "0 < n - tot" by (simp add: word_less_nat_alt)
  with b show p: "0 < chunk tot off n" by (simp add: chunk_def BSIZE_def)
  show le: "chunk tot off n \<le> n - tot" by (simp add: chunk_def)
  have c: "0 < unat (chunk tot off n)" "unat (chunk tot off n) \<le> unat n - unat tot"
    using p le nt by (simp_all add: word_less_nat_alt word_le_nat_alt)
  then have u: "unat (tot + chunk tot off n) = unat tot + unat (chunk tot off n)"
    using nt unat32_less [of n] by (intro unat_add_lem [THEN iffD1]) simp
  show "tot < tot + chunk tot off n" "tot + chunk tot off n \<le> n"
    using u c nt by (simp_all add: word_less_nat_alt word_le_nat_alt)
  then show "unat (n - (tot + chunk tot off n)) < unat (n - tot)"
    using u c nt by (simp add: unat_sub word_le_nat_alt)
qed

function readi_loop :: "nat \<Rightarrow> u32 \<Rightarrow> u32 \<Rightarrow> u32 \<Rightarrow> u8 list \<Rightarrow> ('a fstate_scheme, u8 list) km" where
  "readi_loop i tot off n acc =
     (if tot < n then
        bnd (bmap i (off div of_nat BSIZE)) (\<lambda>addr.
        bnd (get_inode i) (\<lambda>ip.
        bnd (bread (i_dev ip) addr) (\<lambda>bp.
        bnd (get_buf bp) (\<lambda>x.
        bnd (brelse bp) (\<lambda>_.
        readi_loop i (tot + chunk tot off n) (off + chunk tot off n) n
          (acc @ slice (b_data x) (unat (off mod of_nat BSIZE)) (unat (chunk tot off n))))))))
      else ret acc)"
  by pat_completeness auto
termination
  by (relation "measure (\<lambda>(i, tot, off, n, acc). unat (n - tot))") (simp_all add: chunk_pos)

declare readi_loop.simps [simp del]

definition readi :: "nat \<Rightarrow> u32 \<Rightarrow> u32 \<Rightarrow> ('a cnstate_scheme, int \<times> u8 list) km" where
  "readi i off n =
     bnd (get_inode i) (\<lambda>ip.
     if i_type ip = T_DEV then
       bnd (gets devsws) (\<lambda>dv.
       if sint (i_major ip) < 0 \<or> sint (i_major ip) \<ge> int NDEV \<or> dev_read (dv ! unat (i_major ip)) = NoDev then ret (- 1, [])
       else consoleread i (sint n))
     else if off > i_size ip \<or> off + n < off then ret (- 1, [])
     else
       (let n = (if off + n > i_size ip then i_size ip - off else n) in
        bnd (readi_loop i 0 off n []) (\<lambda>bytes.
        ret (sint n, bytes))))"

function writei_loop :: "nat \<Rightarrow> u8 list \<Rightarrow> u32 \<Rightarrow> u32 \<Rightarrow> u32 \<Rightarrow> ('a fstate_scheme, u32) km" where
  "writei_loop i src tot off n =
     (if tot < n then
        bnd (bmap i (off div of_nat BSIZE)) (\<lambda>addr.
        bnd (get_inode i) (\<lambda>ip.
        bnd (bread (i_dev ip) addr) (\<lambda>bp.
        bnd (put_data bp (\<lambda>d. splice d (unat (off mod of_nat BSIZE)) (slice src (unat tot) (unat (chunk tot off n))))) (\<lambda>_.
        bnd (log_write bp) (\<lambda>_.
        bnd (brelse bp) (\<lambda>_.
        writei_loop i src (tot + chunk tot off n) (off + chunk tot off n) n))))))
      else ret off)"
  by pat_completeness auto
termination
  by (relation "measure (\<lambda>(i, src, tot, off, n). unat (n - tot))") (simp_all add: chunk_pos)

declare writei_loop.simps [simp del]

definition writei :: "nat \<Rightarrow> u8 list \<Rightarrow> u32 \<Rightarrow> u32 \<Rightarrow> ('a cnstate_scheme, int) km" where
  "writei i src off n =
     bnd (get_inode i) (\<lambda>ip.
     if i_type ip = T_DEV then
       bnd (gets devsws) (\<lambda>dv.
       if sint (i_major ip) < 0 \<or> sint (i_major ip) \<ge> int NDEV \<or> dev_write (dv ! unat (i_major ip)) = NoDev then ret (- 1)
       else consolewrite i src (sint n))
     else if off > i_size ip \<or> off + n < off then ret (- 1)
     else if off + n > of_nat (MAXFILE * BSIZE) then ret (- 1)
     else
       bnd (writei_loop i src 0 off n) (\<lambda>off.
       bnd (get_inode i) (\<lambda>ip.
       bnd (if n > 0 \<and> off > i_size ip then
              bnd (set_inode i (\<lambda>ip. ip\<lparr>i_size := off\<rparr>)) (\<lambda>_. iupdate i)
            else ret ()) (\<lambda>_.
       ret (sint n)))))"

section \<open>Directories\<close>

definition DIRSIZ :: nat where "DIRSIZ = 14"

definition DIRENT :: u32 where "DIRENT = 16"

text \<open>A directory entry: two bytes of inode number and 14 bytes of name, padded with NUL bytes.\<close>

definition de_inum :: "u8 list \<Rightarrow> u16" where "de_inum de = get16 de 0"

definition de_name :: "u8 list \<Rightarrow> u8 list" where "de_name de = slice de 2 DIRSIZ"

text \<open>\<open>strncmp\<close> on two names: both end at a NUL byte or after 14 bytes.\<close>

fun namecmp_loop :: "nat \<Rightarrow> u8 list \<Rightarrow> u8 list \<Rightarrow> int" where
  "namecmp_loop 0 p q = 0"
| "namecmp_loop (Suc n) p q =
     (let a = (case p of [] \<Rightarrow> 0 | x # _ \<Rightarrow> x); b = (case q of [] \<Rightarrow> 0 | y # _ \<Rightarrow> y) in
      if a \<noteq> 0 \<and> a = b then namecmp_loop n (tl p) (tl q) else int (unat a) - int (unat b))"

definition namecmp :: "u8 list \<Rightarrow> u8 list \<Rightarrow> int" where
  "namecmp s t = namecmp_loop DIRSIZ s t"

text \<open>
  The loops over a directory read one entry per round and panic with \<open>msg\<close> on a short read. Their offset grows by 16 until it reaches the
  size; with a size within 16 bytes of 2^32 it would wrap around and the loop would not end
  (\<open>Diverges\<close>).
\<close>

function dir_scan :: "string \<Rightarrow> (u32 \<Rightarrow> u8 list \<Rightarrow> bool) \<Rightarrow> nat \<Rightarrow> u32 \<Rightarrow> ('a cnstate_scheme, (u32 \<times> u8 list) + u32) km" where
  "dir_scan msg P dp off =
     bnd (get_inode dp) (\<lambda>ip.
     if off < i_size ip then
       bnd (readi dp off DIRENT) (\<lambda>(r, de).
       if r \<noteq> sint DIRENT then panic msg
       else if P off de then ret (Inl (off, de))
       else if off < off + DIRENT then dir_scan msg P dp (off + DIRENT)
       else stop Diverges)
     else ret (Inr off))"
  by pat_completeness auto
termination
proof (relation "measure (\<lambda>(msg, P, dp, off). 2 ^ 32 - unat off)", goal_cases)
  case (2 msg P dp off)
  then have "unat off < unat (off + DIRENT)" by (simp add: word_less_nat_alt)
  then show ?case using unat32_less [of off] by simp
qed simp

declare dir_scan.simps [simp del]

definition dirlookup :: "nat \<Rightarrow> u8 list \<Rightarrow> ('a cnstate_scheme, (nat \<times> u32) option) km" where
  "dirlookup dp name =
     bnd (get_inode dp) (\<lambda>d.
     if i_type d \<noteq> T_DIR then panic ''dirlookup not DIR''
     else
       bnd (dir_scan ''dirlink read'' (\<lambda>off de. de_inum de \<noteq> 0 \<and> namecmp name (de_name de) = 0) dp 0) (\<lambda>r.
       case r of
         Inl (off, de) \<Rightarrow> bnd (iget (i_dev d) (ucast (de_inum de))) (\<lambda>i. ret (Some (i, off)))
       | Inr _ \<Rightarrow> ret None))"

text \<open>\<open>strncpy(de.name, name, DIRSIZ)\<close>: cut to 14 bytes and padded with NUL bytes.\<close>

definition dirname :: "u8 list \<Rightarrow> u8 list" where
  "dirname name = take DIRSIZ name @ replicate (DIRSIZ - length name) 0"

definition dirent :: "u8 list \<Rightarrow> u32 \<Rightarrow> u8 list" where
  "dirent name inum = put16 (replicate 2 0) 0 (ucast inum) @ dirname name"

definition dirlink :: "nat \<Rightarrow> u8 list \<Rightarrow> u32 \<Rightarrow> ('a cnstate_scheme, int) km" where
  "dirlink dp name inum =
     bnd (dirlookup dp name) (\<lambda>r.
     case r of
       Some (i, _) \<Rightarrow> bnd (iput i) (\<lambda>_. ret (- 1))
     | None \<Rightarrow>
         bnd (dir_scan ''dirlink read'' (\<lambda>off de. de_inum de = 0) dp 0) (\<lambda>r.
         let off = (case r of Inl (off, _) \<Rightarrow> off | Inr off \<Rightarrow> off) in
         bnd (writei dp (dirent name inum) off DIRENT) (\<lambda>w.
         if w \<noteq> sint DIRENT then panic ''dirlink'' else ret 0)))"

section \<open>Path names\<close>

text \<open>
  \<open>skipelem\<close> on a path without its terminator: the first element, cut to 14 bytes, and the path that
  follows it, or \<open>None\<close> if there is no element.
\<close>

definition slash :: u8 where "slash = of_char CHR ''/''"

definition skipelem :: "u8 list \<Rightarrow> (u8 list \<times> u8 list) option" where
  "skipelem path =
     (let path = dropWhile (\<lambda>c. c = slash) path in
      if path = [] then None
      else
        (let s = takeWhile (\<lambda>c. c \<noteq> slash) path;
             path = dropWhile (\<lambda>c. c \<noteq> slash) path
         in Some (take DIRSIZ s, dropWhile (\<lambda>c. c = slash) path)))"

lemma skipelem_shorter: "skipelem path = Some (name, rest) \<Longrightarrow> length rest < length path"
proof -
  assume a: "skipelem path = Some (name, rest)"
  define p where "p = dropWhile (\<lambda>c. c = slash) path"
  from a have p: "p \<noteq> []" and rest: "rest = dropWhile (\<lambda>c. c = slash) (dropWhile (\<lambda>c. c \<noteq> slash) p)"
    by (auto simp: skipelem_def Let_def p_def split: if_splits)
  obtain c cs where cs: "p = c # cs" using p by (cases p) auto
  then have "c \<noteq> slash" using hd_dropWhile [of "\<lambda>c. c = slash" path] p by (simp add: p_def)
  then have "length rest \<le> length cs"
    using rest cs length_dropWhile_le [of "\<lambda>c. c = slash"] length_dropWhile_le [of "\<lambda>c. c \<noteq> slash" cs]
    by (auto intro: order_trans)
  moreover have "length p \<le> length path" by (simp add: p_def length_dropWhile_le)
  ultimately show ?thesis using cs by simp
qed

definition ROOTDEV :: u32 where "ROOTDEV = 1"

definition ROOTINO :: u32 where "ROOTINO = 1"

function namex_loop :: "nat \<Rightarrow> u8 list \<Rightarrow> bool \<Rightarrow> ('a cnstate_scheme, (nat \<times> u8 list) option) km" where
  "namex_loop ip path parent =
     (case skipelem path of
        None \<Rightarrow> if parent then bnd (iput ip) (\<lambda>_. ret None) else ret (Some (ip, []))
      | Some (name, rest) \<Rightarrow>
          bnd (ilock (Some ip)) (\<lambda>_.
          bnd (get_inode ip) (\<lambda>d.
          if i_type d \<noteq> T_DIR then bnd (iunlockput ip) (\<lambda>_. ret None)
          else if parent \<and> rest = [] then bnd (iunlock (Some ip)) (\<lambda>_. ret (Some (ip, name)))
          else
            bnd (dirlookup ip name) (\<lambda>r.
            case r of
              None \<Rightarrow> bnd (iunlockput ip) (\<lambda>_. ret None)
            | Some (next, _) \<Rightarrow> bnd (iunlockput ip) (\<lambda>_. namex_loop next rest parent)))))"
  by pat_completeness auto
termination
  by (relation "measure (\<lambda>(ip, path, parent). length path)") (auto dest: skipelem_shorter)

declare namex_loop.simps [simp del]

definition namex :: "u8 list \<Rightarrow> bool \<Rightarrow> ('a cnstate_scheme, (nat \<times> u8 list) option) km" where
  "namex path parent =
     bnd (if path \<noteq> [] \<and> hd path = slash then iget ROOTDEV ROOTINO
          else
            bnd myproc (\<lambda>p.
            bnd (gets (\<lambda>s. p_cwd (procs s ! p))) (\<lambda>cwd.
            case cwd of None \<Rightarrow> stop (Undefined ''proc->cwd'') | Some i \<Rightarrow> idup i))) (\<lambda>ip.
     namex_loop ip path parent)"

definition namei :: "u8 list \<Rightarrow> ('a cnstate_scheme, nat option) km" where
  "namei path = bnd (namex path False) (\<lambda>r. ret (map_option fst r))"

definition nameiparent :: "u8 list \<Rightarrow> ('a cnstate_scheme, (nat \<times> u8 list) option) km" where
  "nameiparent path = namex path True"

end
