(* ===== verification/Pipe.thy ===== *)
theory Pipe
  imports Inode
begin

text \<open>
  Pipes (\<open>pipe.c\<close>, without \<open>pipealloc\<close>, which allocates files and stands with them). A pipe lives in a
  page from \<open>kalloc\<close>; the state maps the address of the page to the pipe, and a page that holds no pipe
  to \<open>None\<close>. Using a pipe after its page has been freed is undefined.
\<close>

section \<open>State\<close>

definition PIPESIZE :: nat where "PIPESIZE = 512"

record pipe =
  pp_data :: "u8 list"
  pp_nread :: u32
  pp_nwrite :: u32
  pp_readopen :: bool
  pp_writeopen :: bool

record ppstate = cnstate +
  pipes :: "u32 \<Rightarrow> pipe option"

definition get_pipe :: "u32 \<Rightarrow> ('a ppstate_scheme, pipe) km" where
  "get_pipe p = bnd (gets (\<lambda>s. pipes s p)) (\<lambda>x.
     case x of None \<Rightarrow> stop (Undefined ''pipe'') | Some x \<Rightarrow> ret x)"

definition set_pipe :: "u32 \<Rightarrow> (pipe \<Rightarrow> pipe) \<Rightarrow> ('a ppstate_scheme, unit) km" where
  "set_pipe p f = upd (\<lambda>s. s\<lparr>pipes := (pipes s)(p := map_option f (pipes s p))\<rparr>)"

definition proc_killed :: "('a pstate_scheme, bool) km" where
  "proc_killed = bnd myproc (\<lambda>i. gets (\<lambda>s. p_killed (procs s ! i)))"

section \<open>Operations\<close>

definition pipeclose :: "u32 \<Rightarrow> bool \<Rightarrow> ('a ppstate_scheme, unit) km" where
  "pipeclose p writable =
     bnd (acquire (Lk_pipe p)) (\<lambda>_.
     bnd (if writable then
            bnd (set_pipe p (\<lambda>x. x\<lparr>pp_writeopen := False\<rparr>)) (\<lambda>_. wakeup (ChPipeRead p))
          else
            bnd (set_pipe p (\<lambda>x. x\<lparr>pp_readopen := False\<rparr>)) (\<lambda>_. wakeup (ChPipeWrite p))) (\<lambda>_.
     bnd (get_pipe p) (\<lambda>x.
     if \<not> pp_readopen x \<and> \<not> pp_writeopen x then
       bnd (release (Lk_pipe p)) (\<lambda>_.
       bnd (kfree p) (\<lambda>_.
       upd (\<lambda>s. s\<lparr>pipes := (pipes s)(p := None)\<rparr>)))
     else release (Lk_pipe p))))"

text \<open>The bytes go through \<open>data\<close> as a ring; both counters only grow and wrap around at \<open>2^32\<close>.\<close>

definition pipe_put :: "u8 \<Rightarrow> pipe \<Rightarrow> pipe" where
  "pipe_put c x = x\<lparr>pp_data := (pp_data x)[unat (pp_nwrite x) mod PIPESIZE := c], pp_nwrite := pp_nwrite x + 1\<rparr>"

definition pipe_front :: "pipe \<Rightarrow> u8" where
  "pipe_front x = pp_data x ! (unat (pp_nread x) mod PIPESIZE)"

definition pipe_drop :: "pipe \<Rightarrow> pipe" where
  "pipe_drop x = x\<lparr>pp_nread := pp_nread x + 1\<rparr>"

text \<open>
  The loop of \<open>pipewrite\<close> over the bytes that are left, with the lock held. A writer that waits stops in
  \<open>sleep\<close> and goes on with \<open>sleep_resume (Lk_pipe p)\<close> and the loop at the same byte.
\<close>

fun pipewrite_loop :: "u32 \<Rightarrow> int \<Rightarrow> u8 list \<Rightarrow> ('a ppstate_scheme, int) km" where
  "pipewrite_loop p n [] =
     bnd (wakeup (ChPipeRead p)) (\<lambda>_.
     bnd (release (Lk_pipe p)) (\<lambda>_.
     ret n))"
| "pipewrite_loop p n (c # cs) =
     bnd (get_pipe p) (\<lambda>x.
     if pp_nwrite x = pp_nread x + of_nat PIPESIZE then
       bnd proc_killed (\<lambda>killed.
       if \<not> pp_readopen x \<or> killed then
         bnd (release (Lk_pipe p)) (\<lambda>_. ret (- 1))
       else
         bnd (wakeup (ChPipeRead p)) (\<lambda>_.
         sleep (ChPipeWrite p) (Lk_pipe p)))
     else
       bnd (set_pipe p (pipe_put c)) (\<lambda>_.
       pipewrite_loop p n cs))"

definition pipewrite :: "u32 \<Rightarrow> u8 list \<Rightarrow> int \<Rightarrow> ('a ppstate_scheme, int) km" where
  "pipewrite p addr n = bnd (acquire (Lk_pipe p)) (\<lambda>_. pipewrite_loop p n (take (nat n) addr))"

text \<open>The copy loop of \<open>piperead\<close>; the result are the bytes stored at \<open>addr\<close>.\<close>

fun piperead_copy :: "u32 \<Rightarrow> nat \<Rightarrow> ('a ppstate_scheme, u8 list) km" where
  "piperead_copy p 0 = ret []"
| "piperead_copy p (Suc n) =
     bnd (get_pipe p) (\<lambda>x.
     if pp_nread x = pp_nwrite x then ret []
     else
       bnd (set_pipe p pipe_drop) (\<lambda>_.
       bnd (piperead_copy p n) (\<lambda>cs.
       ret (pipe_front x # cs))))"

text \<open>\<open>piperead\<close> with the lock held: a round of the waiting loop and what follows it.\<close>

definition piperead_loop :: "u32 \<Rightarrow> int \<Rightarrow> ('a ppstate_scheme, int \<times> u8 list) km" where
  "piperead_loop p n =
     bnd (get_pipe p) (\<lambda>x.
     if pp_nread x = pp_nwrite x \<and> pp_writeopen x then
       bnd proc_killed (\<lambda>killed.
       if killed then
         bnd (release (Lk_pipe p)) (\<lambda>_. ret (- 1, []))
       else sleep (ChPipeRead p) (Lk_pipe p))
     else
       bnd (piperead_copy p (nat n)) (\<lambda>cs.
       bnd (wakeup (ChPipeWrite p)) (\<lambda>_.
       bnd (release (Lk_pipe p)) (\<lambda>_.
       ret (int (length cs), cs)))))"

definition piperead :: "u32 \<Rightarrow> int \<Rightarrow> ('a ppstate_scheme, int \<times> u8 list) km" where
  "piperead p n = bnd (acquire (Lk_pipe p)) (\<lambda>_. piperead_loop p n)"

end
