(* ===== verification/File.thy ===== *)
theory File
  imports Pipe
begin

text \<open>
  Open files (\<open>file.c\<close>; \<open>struct file\<close> is the record \<open>sfile\<close>) and \<open>pipealloc\<close> of \<open>pipe.c\<close>. File pointers are indices into the table.
\<close>

section \<open>State\<close>

definition NFILE :: nat where "NFILE = 100"

datatype fdtype = FD_NONE | FD_PIPE | FD_INODE

record sfile =
  f_type :: fdtype
  f_ref :: int
  f_readable :: bool
  f_writable :: bool
  f_pipe :: u32
  f_ip :: nat
  f_off :: u32

record ftstate = ppstate +
  ftable :: "sfile list"

definition get_file :: "nat \<Rightarrow> ('a ftstate_scheme, sfile) km" where
  "get_file f = gets (\<lambda>s. ftable s ! f)"

definition set_file :: "nat \<Rightarrow> (sfile \<Rightarrow> sfile) \<Rightarrow> ('a ftstate_scheme, unit) km" where
  "set_file f g = upd (\<lambda>s. s\<lparr>ftable := (ftable s)[f := g (ftable s ! f)]\<rparr>)"

section \<open>Operations\<close>

definition fileinit :: "('a ftstate_scheme, unit) km" where
  "fileinit = initlock Lk_ftable ''ftable''"

definition filealloc :: "('a ftstate_scheme, nat option) km" where
  "filealloc =
     bnd (acquire Lk_ftable) (\<lambda>_.
     bnd (gets (\<lambda>s. find_idx (\<lambda>f. f_ref f = 0) (ftable s))) (\<lambda>r.
     case r of
       Some f \<Rightarrow>
         bnd (set_file f (\<lambda>x. x\<lparr>f_ref := 1\<rparr>)) (\<lambda>_.
         bnd (release Lk_ftable) (\<lambda>_.
         ret (Some f)))
     | None \<Rightarrow> bnd (release Lk_ftable) (\<lambda>_. ret None)))"

definition filedup :: "nat \<Rightarrow> ('a ftstate_scheme, nat) km" where
  "filedup f =
     bnd (acquire Lk_ftable) (\<lambda>_.
     bnd (get_file f) (\<lambda>x.
     if f_ref x < 1 then panic ''filedup''
     else
       bnd (set_file f (\<lambda>x. x\<lparr>f_ref := f_ref x + 1\<rparr>)) (\<lambda>_.
       bnd (release Lk_ftable) (\<lambda>_.
       ret f))))"

definition fileclose :: "nat \<Rightarrow> ('a ftstate_scheme, unit) km" where
  "fileclose f =
     bnd (acquire Lk_ftable) (\<lambda>_.
     bnd (get_file f) (\<lambda>x.
     if f_ref x < 1 then panic ''fileclose''
     else
       bnd (set_file f (\<lambda>x. x\<lparr>f_ref := f_ref x - 1\<rparr>)) (\<lambda>_.
       bnd (get_file f) (\<lambda>ff.
       if f_ref ff > 0 then release Lk_ftable
       else
         bnd (set_file f (\<lambda>x. x\<lparr>f_ref := 0, f_type := FD_NONE\<rparr>)) (\<lambda>_.
         bnd (release Lk_ftable) (\<lambda>_.
         if f_type ff = FD_PIPE then pipeclose (f_pipe ff) (f_writable ff)
         else if f_type ff = FD_INODE then
           bnd begin_op (\<lambda>_.
           bnd (iput (f_ip ff)) (\<lambda>_.
           end_op))
         else ret ()))))))"

definition filestat :: "nat \<Rightarrow> ('a ftstate_scheme, fstat option) km" where
  "filestat f =
     bnd (get_file f) (\<lambda>x.
     if f_type x = FD_INODE then
       bnd (ilock (Some (f_ip x))) (\<lambda>_.
       bnd (stati (f_ip x)) (\<lambda>st.
       bnd (iunlock (Some (f_ip x))) (\<lambda>_.
       ret (Some st))))
     else ret None)"

definition fileread :: "nat \<Rightarrow> int \<Rightarrow> ('a ftstate_scheme, int \<times> u8 list) km" where
  "fileread f n =
     bnd (get_file f) (\<lambda>x.
     if \<not> f_readable x then ret (- 1, [])
     else if f_type x = FD_PIPE then piperead (f_pipe x) n
     else if f_type x = FD_INODE then
       bnd (ilock (Some (f_ip x))) (\<lambda>_.
       bnd (readi (f_ip x) (f_off x) (word_of_int n)) (\<lambda>(r, bytes).
       bnd (if r > 0 then set_file f (\<lambda>x. x\<lparr>f_off := f_off x + word_of_int r\<rparr>) else ret ()) (\<lambda>_.
       bnd (iunlock (Some (f_ip x))) (\<lambda>_.
       ret (r, bytes)))))
     else panic ''fileread'')"

text \<open>
  The loop of \<open>filewrite\<close>, one transaction per round. A round that returns \<open>r = n1\<close> advances by at least
  one byte, so the loop ends.
\<close>

definition filewrite_max :: int where "filewrite_max = ((LOGSIZE - 1 - 1 - 2) div 2) * 512"

definition filewrite_round :: "nat \<Rightarrow> u8 list \<Rightarrow> int \<Rightarrow> int \<Rightarrow> ('a ftstate_scheme, int) km" where
  "filewrite_round f addr i n1 =
     bnd (get_file f) (\<lambda>x.
     bnd begin_op (\<lambda>_.
     bnd (ilock (Some (f_ip x))) (\<lambda>_.
     bnd (writei (f_ip x) (drop (nat i) addr) (f_off x) (word_of_int n1)) (\<lambda>r.
     bnd (if r > 0 then set_file f (\<lambda>x. x\<lparr>f_off := f_off x + word_of_int r\<rparr>) else ret ()) (\<lambda>_.
     bnd (iunlock (Some (f_ip x))) (\<lambda>_.
     bnd end_op (\<lambda>_.
     ret r)))))))"

function filewrite_loop :: "nat \<Rightarrow> u8 list \<Rightarrow> int \<Rightarrow> int \<Rightarrow> ('a ftstate_scheme, int) km" where
  "filewrite_loop f addr i n =
     (if i < n then
        (let n1 = (if n - i > filewrite_max then filewrite_max else n - i) in
         bnd (filewrite_round f addr i n1) (\<lambda>r.
         if r < 0 then ret (- 1)
         else if r \<noteq> n1 then panic ''short filewrite''
         else filewrite_loop f addr (i + n1) n))
      else ret (if i = n then n else - 1))"
  by pat_completeness auto
termination
  by (relation "measure (\<lambda>(f, addr, i, n). nat (n - i))") (auto simp: filewrite_max_def LOGSIZE_def MAXOPBLOCKS_def)

declare filewrite_loop.simps [simp del]

definition filewrite :: "nat \<Rightarrow> u8 list \<Rightarrow> int \<Rightarrow> ('a ftstate_scheme, int) km" where
  "filewrite f addr n =
     bnd (get_file f) (\<lambda>x.
     if \<not> f_writable x then ret (- 1)
     else if f_type x = FD_PIPE then pipewrite (f_pipe x) addr n
     else if f_type x = FD_INODE then filewrite_loop f addr 0 n
     else panic ''filewrite'')"

text \<open>\<open>pipealloc\<close>; the \<open>bad\<close> label is only reached before the pipe exists or with no page for it.\<close>

definition pipealloc_bad :: "nat option \<Rightarrow> nat option \<Rightarrow> ('a ftstate_scheme, (nat \<times> nat) option) km" where
  "pipealloc_bad f0 f1 =
     bnd (case f0 of Some f \<Rightarrow> fileclose f | None \<Rightarrow> ret ()) (\<lambda>_.
     bnd (case f1 of Some f \<Rightarrow> fileclose f | None \<Rightarrow> ret ()) (\<lambda>_.
     ret None))"

definition pipealloc :: "('a ftstate_scheme, (nat \<times> nat) option) km" where
  "pipealloc =
     bnd filealloc (\<lambda>r0.
     case r0 of None \<Rightarrow> pipealloc_bad None None
     | Some f0 \<Rightarrow>
         bnd filealloc (\<lambda>r1.
         case r1 of None \<Rightarrow> pipealloc_bad (Some f0) None
         | Some f1 \<Rightarrow>
             bnd kalloc (\<lambda>p.
             if p = 0 then pipealloc_bad (Some f0) (Some f1)
             else
               bnd (upd (\<lambda>s. s\<lparr>pipes := (pipes s)(p := Some \<lparr>pp_data = bytes_at (kmem_bytes s) (p + 52) PIPESIZE,
                      pp_nread = 0, pp_nwrite = 0, pp_readopen = True, pp_writeopen = True\<rparr>)\<rparr>)) (\<lambda>_.
               bnd (initlock (Lk_pipe p) ''pipe'') (\<lambda>_.
               bnd (set_file f0 (\<lambda>x. x\<lparr>f_type := FD_PIPE, f_readable := True, f_writable := False, f_pipe := p\<rparr>)) (\<lambda>_.
               bnd (set_file f1 (\<lambda>x. x\<lparr>f_type := FD_PIPE, f_readable := False, f_writable := True, f_pipe := p\<rparr>)) (\<lambda>_.
               ret (Some (f0, f1)))))))))"

end
