(* ===== verification/Vm.thy ===== *)
theory Vm
  imports File
begin

text \<open>
  Virtual memory (\<open>vm.c\<close>). Page directories and page tables are words of kernel memory, as in the code;
  physical memory is addressed through the kernel's mapping at \<open>KERNBASE\<close>. \<open>cr3\<close> is the page-table
  register, \<open>ts_esp0\<close> the kernel stack of the task state segment, \<open>kdata\<close> the address of the linker
  symbol \<open>data\<close>. The segment descriptors that \<open>seginit\<close> and \<open>switchuvm\<close> fill with constants are left out.
\<close>

section \<open>State\<close>

record vmstate = ftstate +
  kpgdir :: u32
  cr3 :: u32
  ts_esp0 :: u32
  kdata :: u32

definition PTE_P :: u32 where "PTE_P = 1"

definition PTE_W :: u32 where "PTE_W = 2"

definition PTE_U :: u32 where "PTE_U = 4"

definition PDX :: "u32 \<Rightarrow> u32" where "PDX va = drop_bit 22 va AND 0x3FF"

definition PTX :: "u32 \<Rightarrow> u32" where "PTX va = drop_bit 12 va AND 0x3FF"

definition PTE_ADDR :: "u32 \<Rightarrow> u32" where "PTE_ADDR pte = pte AND NOT 0xFFF"

definition PTE_FLAGS :: "u32 \<Rightarrow> u32" where "PTE_FLAGS pte = pte AND 0xFFF"

definition NPDENTRIES :: nat where "NPDENTRIES = 1024"

definition NPTENTRIES :: u32 where "NPTENTRIES = 1024"

definition EXTMEM :: u32 where "EXTMEM = 0x100000"

definition KERNLINK :: u32 where "KERNLINK = KERNBASE + EXTMEM"

definition DEVSPACE :: u32 where "DEVSPACE = 0xFE000000"

definition KSTACKSIZE :: u32 where "KSTACKSIZE = 4096"

definition ldw :: "u32 \<Rightarrow> ('a kmstate_scheme, u32) km" where
  "ldw a = gets (\<lambda>s. ld32 (kmem_bytes s) a)"

definition stw :: "u32 \<Rightarrow> u32 \<Rightarrow> ('a kmstate_scheme, unit) km" where
  "stw a v = upd (\<lambda>s. s\<lparr>kmem_bytes := st32 (kmem_bytes s) a v\<rparr>)"

definition kmemset :: "u32 \<Rightarrow> u32 \<Rightarrow> u32 \<Rightarrow> ('a kmstate_scheme, unit) km" where
  "kmemset dst c n = upd (\<lambda>s. s\<lparr>kmem_bytes := memset (kmem_bytes s) dst c n\<rparr>)"

definition kmemmove :: "u32 \<Rightarrow> u32 \<Rightarrow> u32 \<Rightarrow> ('a kmstate_scheme, unit) km" where
  "kmemmove dst src n = upd (\<lambda>s. s\<lparr>kmem_bytes := memmove (kmem_bytes s) dst src n\<rparr>)"

text \<open>Bytes that come from a buffer outside the modelled memory (disk blocks, tables of the kernel).\<close>

fun put_bytes :: "mem \<Rightarrow> u32 \<Rightarrow> u8 list \<Rightarrow> mem" where
  "put_bytes m a [] = m"
| "put_bytes m a (c # cs) = put_bytes (m(a := c)) (a + 1) cs"

definition kputs :: "u32 \<Rightarrow> u8 list \<Rightarrow> ('a kmstate_scheme, unit) km" where
  "kputs a cs = upd (\<lambda>s. s\<lparr>kmem_bytes := put_bytes (kmem_bytes s) a cs\<rparr>)"

section \<open>Page tables\<close>

text \<open>The result of \<open>walkpgdir\<close> is the address of the page-table entry, or 0.\<close>

definition walkpgdir :: "u32 \<Rightarrow> u32 \<Rightarrow> bool \<Rightarrow> ('a kmstate_scheme, u32) km" where
  "walkpgdir pgdir va alloc =
     (let pde = pgdir + 4 * PDX va in
      bnd (ldw pde) (\<lambda>e.
      if e AND PTE_P \<noteq> 0 then ret (p2v (PTE_ADDR e) + 4 * PTX va)
      else if \<not> alloc then ret 0
      else
        bnd kalloc (\<lambda>pgtab.
        if pgtab = 0 then ret 0
        else
          bnd (kmemset pgtab 0 PGSIZE) (\<lambda>_.
          bnd (stw pde (v2p pgtab OR PTE_P OR PTE_W OR PTE_U)) (\<lambda>_.
          ret (pgtab + 4 * PTX va))))))"

text \<open>
  The loop of \<open>mappages\<close>. Both \<open>a\<close> and \<open>la\<close> (\<open>last\<close>) are page-aligned, so \<open>la\<close> is met within the 2^20 pages of the
  address space.
\<close>

fun mappages_loop :: "nat \<Rightarrow> u32 \<Rightarrow> u32 \<Rightarrow> u32 \<Rightarrow> u32 \<Rightarrow> u32 \<Rightarrow> ('a kmstate_scheme, int) km" where
  "mappages_loop k pgdir a la pa perm =
     (if k = 0 then stop Diverges
      else
        bnd (walkpgdir pgdir a True) (\<lambda>pte.
        if pte = 0 then ret (- 1)
        else
          bnd (ldw pte) (\<lambda>e.
          if e AND PTE_P \<noteq> 0 then panic ''remap''
          else
            bnd (stw pte (pa OR perm OR PTE_P)) (\<lambda>_.
            if a = la then ret 0
            else mappages_loop (k - 1) pgdir (a + PGSIZE) la (pa + PGSIZE) perm))))"

declare mappages_loop.simps [simp del]

definition mappages :: "u32 \<Rightarrow> u32 \<Rightarrow> u32 \<Rightarrow> u32 \<Rightarrow> u32 \<Rightarrow> ('a kmstate_scheme, int) km" where
  "mappages pgdir va sz pa perm =
     mappages_loop (2 ^ 20) pgdir (PGROUNDDOWN va) (PGROUNDDOWN (va + sz - 1)) pa perm"

record kmap =
  km_virt :: u32
  km_start :: u32
  km_end :: u32
  km_perm :: u32

definition kmaps :: "u32 \<Rightarrow> kmap list" where
  "kmaps d =
    [\<lparr>km_virt = KERNBASE, km_start = 0, km_end = EXTMEM, km_perm = PTE_W\<rparr>,
     \<lparr>km_virt = KERNLINK, km_start = v2p KERNLINK, km_end = v2p d, km_perm = 0\<rparr>,
     \<lparr>km_virt = d, km_start = v2p d, km_end = PHYSTOP, km_perm = PTE_W\<rparr>,
     \<lparr>km_virt = DEVSPACE, km_start = DEVSPACE, km_end = 0, km_perm = PTE_W\<rparr>]"

fun setupkvm_loop :: "u32 \<Rightarrow> kmap list \<Rightarrow> ('a kmstate_scheme, u32) km" where
  "setupkvm_loop pgdir [] = ret pgdir"
| "setupkvm_loop pgdir (k # ks) =
     bnd (mappages pgdir (km_virt k) (km_end k - km_start k) (km_start k) (km_perm k)) (\<lambda>r.
     if r < 0 then ret 0 else setupkvm_loop pgdir ks)"

definition setupkvm :: "('a vmstate_scheme, u32) km" where
  "setupkvm =
     bnd kalloc (\<lambda>pgdir.
     if pgdir = 0 then ret 0
     else
       bnd (kmemset pgdir 0 PGSIZE) (\<lambda>_.
       if p2v PHYSTOP > DEVSPACE then panic ''PHYSTOP too high''
       else bnd (gets kdata) (\<lambda>d. setupkvm_loop pgdir (kmaps d))))"

definition switchkvm :: "('a vmstate_scheme, unit) km" where
  "switchkvm = upd (\<lambda>s. s\<lparr>cr3 := v2p (kpgdir s)\<rparr>)"

definition kvmalloc :: "('a vmstate_scheme, unit) km" where
  "kvmalloc = bnd setupkvm (\<lambda>d. bnd (upd (\<lambda>s. s\<lparr>kpgdir := d\<rparr>)) (\<lambda>_. switchkvm))"

text \<open>\<open>switchuvm\<close> takes the kernel stack from the current process, not from its argument.\<close>

definition switchuvm :: "nat \<Rightarrow> ('a vmstate_scheme, unit) km" where
  "switchuvm p =
     bnd pushcli (\<lambda>_.
     bnd myproc (\<lambda>i.
     bnd (upd (\<lambda>s. s\<lparr>ts_esp0 := p_kstack (procs s ! i) + KSTACKSIZE\<rparr>)) (\<lambda>_.
     bnd (gets (\<lambda>s. p_pgdir (procs s ! p))) (\<lambda>d.
     if d = 0 then panic ''switchuvm: no pgdir''
     else
       bnd (upd (\<lambda>s. s\<lparr>cr3 := v2p d\<rparr>)) (\<lambda>_.
       popcli)))))"

definition inituvm :: "u32 \<Rightarrow> u8 list \<Rightarrow> u32 \<Rightarrow> ('a kmstate_scheme, unit) km" where
  "inituvm pgdir init sz =
     (if sz \<ge> PGSIZE then panic ''inituvm: more than a page''
      else
        bnd kalloc (\<lambda>m.
        bnd (kmemset m 0 PGSIZE) (\<lambda>_.
        bnd (mappages pgdir 0 PGSIZE (v2p m) (PTE_W OR PTE_U)) (\<lambda>_.
        kputs m (take (unat sz) init)))))"

section \<open>User memory\<close>

fun loaduvm_loop :: "nat \<Rightarrow> u32 \<Rightarrow> u32 \<Rightarrow> nat \<Rightarrow> u32 \<Rightarrow> u32 \<Rightarrow> u32 \<Rightarrow> ('a cnstate_scheme, int) km" where
  "loaduvm_loop k pgdir addr ip offset sz i =
     (if k = 0 then stop Diverges
      else if i < sz then
        bnd (walkpgdir pgdir (addr + i) False) (\<lambda>pte.
        if pte = 0 then panic ''loaduvm: address should exist''
        else
          bnd (ldw pte) (\<lambda>e.
          let n = (if sz - i < PGSIZE then sz - i else PGSIZE) in
          bnd (readi ip (offset + i) n) (\<lambda>(r, bytes).
          bnd (kputs (p2v (PTE_ADDR e)) bytes) (\<lambda>_.
          if word_of_int r \<noteq> n then ret (- 1)
          else loaduvm_loop (k - 1) pgdir addr ip offset sz (i + PGSIZE)))))
      else ret 0)"

declare loaduvm_loop.simps [simp del]

text \<open>
  The loops of \<open>loaduvm\<close>, \<open>allocuvm\<close>, \<open>deallocuvm\<close> and \<open>copyuvm\<close> advance by at least a page per round; for the
  sizes up to \<open>KERNBASE\<close> they are called with, 2^20 rounds are enough.
\<close>

definition loaduvm :: "u32 \<Rightarrow> u32 \<Rightarrow> nat \<Rightarrow> u32 \<Rightarrow> u32 \<Rightarrow> ('a cnstate_scheme, int) km" where
  "loaduvm pgdir addr ip offset sz =
     (if unat addr mod unat PGSIZE \<noteq> 0 then panic ''loaduvm: addr must be page aligned''
      else loaduvm_loop (2 ^ 20 + 1) pgdir addr ip offset sz 0)"

fun deallocuvm_loop :: "nat \<Rightarrow> u32 \<Rightarrow> u32 \<Rightarrow> u32 \<Rightarrow> ('a kmstate_scheme, unit) km" where
  "deallocuvm_loop k pgdir a oldsz =
     (if k = 0 then stop Diverges
      else if a < oldsz then
        bnd (walkpgdir pgdir a False) (\<lambda>pte.
        if pte = 0 then deallocuvm_loop (k - 1) pgdir (a + (NPTENTRIES - 1) * PGSIZE + PGSIZE) oldsz
        else
          bnd (ldw pte) (\<lambda>e.
          bnd (if e AND PTE_P \<noteq> 0 then
                 if PTE_ADDR e = 0 then panic ''kfree''
                 else bnd (kfree (p2v (PTE_ADDR e))) (\<lambda>_. stw pte 0)
               else ret ()) (\<lambda>_.
          deallocuvm_loop (k - 1) pgdir (a + PGSIZE) oldsz)))
      else ret ())"

declare deallocuvm_loop.simps [simp del]

definition deallocuvm :: "u32 \<Rightarrow> u32 \<Rightarrow> u32 \<Rightarrow> ('a kmstate_scheme, u32) km" where
  "deallocuvm pgdir oldsz newsz =
     (if newsz \<ge> oldsz then ret oldsz
      else
        bnd (deallocuvm_loop (2 ^ 20 + 1) pgdir (PGROUNDUP newsz) oldsz) (\<lambda>_.
        ret newsz))"

fun allocuvm_loop :: "nat \<Rightarrow> u32 \<Rightarrow> u32 \<Rightarrow> u32 \<Rightarrow> u32 \<Rightarrow> ('a cnstate_scheme, u32) km" where
  "allocuvm_loop k pgdir a oldsz newsz =
     (if k = 0 then stop Diverges
      else if a < newsz then
        bnd kalloc (\<lambda>m.
        if m = 0 then
          bnd (cprintf (''allocuvm out of memory'' @ [CHR 0x0A]) []) (\<lambda>_.
          bnd (deallocuvm pgdir newsz oldsz) (\<lambda>_.
          ret 0))
        else
          bnd (kmemset m 0 PGSIZE) (\<lambda>_.
          bnd (mappages pgdir a PGSIZE (v2p m) (PTE_W OR PTE_U)) (\<lambda>_.
          allocuvm_loop (k - 1) pgdir (a + PGSIZE) oldsz newsz)))
      else ret newsz)"

declare allocuvm_loop.simps [simp del]

definition allocuvm :: "u32 \<Rightarrow> u32 \<Rightarrow> u32 \<Rightarrow> ('a cnstate_scheme, u32) km" where
  "allocuvm pgdir oldsz newsz =
     (if newsz \<ge> KERNBASE then ret 0
      else if newsz < oldsz then ret oldsz
      else allocuvm_loop (2 ^ 20 + 1) pgdir (PGROUNDUP oldsz) oldsz newsz)"

definition freevm :: "u32 \<Rightarrow> ('a kmstate_scheme, unit) km" where
  "freevm pgdir =
     (if pgdir = 0 then panic ''freevm: no pgdir''
      else
        bnd (deallocuvm pgdir KERNBASE 0) (\<lambda>_.
        bnd (foreach [0..<NPDENTRIES] (\<lambda>i.
          bnd (ldw (pgdir + 4 * of_nat i)) (\<lambda>e.
          if e AND PTE_P \<noteq> 0 then kfree (p2v (PTE_ADDR e)) else ret ()))) (\<lambda>_.
        kfree pgdir)))"

definition clearpteu :: "u32 \<Rightarrow> u32 \<Rightarrow> ('a kmstate_scheme, unit) km" where
  "clearpteu pgdir uva =
     bnd (walkpgdir pgdir uva False) (\<lambda>pte.
     if pte = 0 then panic ''clearpteu''
     else bnd (ldw pte) (\<lambda>e. stw pte (e AND NOT PTE_U)))"

fun copyuvm_loop :: "nat \<Rightarrow> u32 \<Rightarrow> u32 \<Rightarrow> u32 \<Rightarrow> u32 \<Rightarrow> ('a kmstate_scheme, u32) km" where
  "copyuvm_loop k pgdir d sz i =
     (if k = 0 then stop Diverges
      else if i < sz then
        bnd (walkpgdir pgdir i False) (\<lambda>pte.
        if pte = 0 then panic ''copyuvm: pte should exist''
        else
          bnd (ldw pte) (\<lambda>e.
          if e AND PTE_P = 0 then panic ''copyuvm: page not present''
          else
            bnd kalloc (\<lambda>m.
            if m = 0 then bnd (freevm d) (\<lambda>_. ret 0)
            else
              bnd (kmemmove m (p2v (PTE_ADDR e)) PGSIZE) (\<lambda>_.
              bnd (mappages d i PGSIZE (v2p m) (PTE_FLAGS e)) (\<lambda>r.
              if r < 0 then bnd (freevm d) (\<lambda>_. ret 0)
              else copyuvm_loop (k - 1) pgdir d sz (i + PGSIZE))))))
      else ret d)"

declare copyuvm_loop.simps [simp del]

definition copyuvm :: "u32 \<Rightarrow> u32 \<Rightarrow> ('a vmstate_scheme, u32) km" where
  "copyuvm pgdir sz =
     bnd setupkvm (\<lambda>d.
     if d = 0 then ret 0 else copyuvm_loop (2 ^ 20 + 1) pgdir d sz 0)"

text \<open>\<open>uva2ka\<close> reads through the result of \<open>walkpgdir\<close> without testing it for 0.\<close>

definition uva2ka :: "u32 \<Rightarrow> u32 \<Rightarrow> ('a kmstate_scheme, u32) km" where
  "uva2ka pgdir uva =
     bnd (walkpgdir pgdir uva False) (\<lambda>pte.
     if pte = 0 then stop (Undefined ''uva2ka: *pte'')
     else
       bnd (ldw pte) (\<lambda>e.
       if e AND PTE_P = 0 then ret 0
       else if e AND PTE_U = 0 then ret 0
       else ret (p2v (PTE_ADDR e))))"

lemma page_offset: "unat (va - PGROUNDDOWN va) = unat va mod 4096" "unat (PGSIZE - (va - PGROUNDDOWN va)) = 4096 - unat va mod 4096"
proof -
  have "PGROUNDDOWN va \<le> va" by (simp add: word_le_nat_alt unat_PGROUNDDOWN)
  then show a: "unat (va - PGROUNDDOWN va) = unat va mod 4096"
    by (simp add: unat_sub unat_PGROUNDDOWN minus_div_mult_eq_mod)
  then have "va - PGROUNDDOWN va \<le> PGSIZE" by (simp add: word_le_nat_alt PGSIZE_def less_imp_le)
  with a show "unat (PGSIZE - (va - PGROUNDDOWN va)) = 4096 - unat va mod 4096"
    by (simp add: unat_sub) (simp add: PGSIZE_def)
qed

function copyout_loop :: "u32 \<Rightarrow> u32 \<Rightarrow> u8 list \<Rightarrow> ('a kmstate_scheme, int) km" where
  "copyout_loop pgdir va cs =
     (if cs \<noteq> [] then
        (let va0 = PGROUNDDOWN va in
         bnd (uva2ka pgdir va0) (\<lambda>pa0.
         if pa0 = 0 then ret (- 1)
         else
           (let n = min (unat (PGSIZE - (va - va0))) (length cs) in
            bnd (kputs (pa0 + (va - va0)) (take n cs)) (\<lambda>_.
            copyout_loop pgdir (va0 + PGSIZE) (drop n cs)))))
      else ret 0)"
  by pat_completeness auto
termination
  by (relation "measure (\<lambda>(pgdir, va, cs). length cs)") (auto simp: page_offset)

declare copyout_loop.simps [simp del]

definition copyout :: "u32 \<Rightarrow> u32 \<Rightarrow> u8 list \<Rightarrow> ('a kmstate_scheme, int) km" where
  "copyout pgdir va cs = copyout_loop pgdir va cs"

end
