(* ===== verification/Proc.thy ===== *)
theory Proc
  imports Vm
begin

text \<open>
  Processes (\<open>proc.c\<close>, beyond \<open>sleep\<close> and \<open>wakeup\<close>): allocation, \<open>fork\<close>, \<open>exit\<close>, \<open>wait\<close>, growth of memory, and the
  scheduler. Trap frames and contexts are words of the process's kernel stack, as in the code. The
  addresses of \<open>trapret\<close> and \<open>forkret\<close> and the bytes of \<open>initcode\<close> come from the linker and are fields of the
  state. A routine stops where it switches to another context; the code that runs when the context
  is resumed is a definition of its own.
\<close>

section \<open>State\<close>

record kstate = vmstate +
  ticks :: u32
  sym_trapret :: u32
  sym_forkret :: u32
  initcode :: "u8 list"
  forkret_first :: bool

definition proc_of :: "nat \<Rightarrow> ('a pstate_scheme, proc) km" where
  "proc_of i = gets (\<lambda>s. procs s ! i)"

text \<open>Offsets of the fields of \<open>struct trapframe\<close> and \<open>struct context\<close>.\<close>

definition TF_SIZE :: u32 where "TF_SIZE = 76"

definition TF_EAX :: u32 where "TF_EAX = 28"

definition TF_ES :: u32 where "TF_ES = 40"

definition TF_DS :: u32 where "TF_DS = 44"

definition TF_TRAPNO :: u32 where "TF_TRAPNO = 48"

definition TF_EIP :: u32 where "TF_EIP = 56"

definition TF_CS :: u32 where "TF_CS = 60"

definition TF_EFLAGS :: u32 where "TF_EFLAGS = 64"

definition TF_ESP :: u32 where "TF_ESP = 68"

definition TF_SS :: u32 where "TF_SS = 72"

definition CTX_SIZE :: u32 where "CTX_SIZE = 20"

definition CTX_EIP :: u32 where "CTX_EIP = 16"

definition stw16 :: "u32 \<Rightarrow> u16 \<Rightarrow> ('a kmstate_scheme, unit) km" where
  "stw16 a v = upd (\<lambda>s. s\<lparr>kmem_bytes := st16 (kmem_bytes s) a v\<rparr>)"

section \<open>Creation\<close>

definition pinit :: "('a kstate_scheme, unit) km" where
  "pinit = initlock Lk_ptable ''ptable''"

definition allocproc :: "('a kstate_scheme, nat option) km" where
  "allocproc =
     bnd (acquire Lk_ptable) (\<lambda>_.
     bnd (gets (\<lambda>s. find_idx (\<lambda>p. p_state p = UNUSED) (procs s))) (\<lambda>r.
     case r of
       None \<Rightarrow> bnd (release Lk_ptable) (\<lambda>_. ret None)
     | Some p \<Rightarrow>
         bnd (set_proc p (\<lambda>x. x\<lparr>p_state := EMBRYO\<rparr>)) (\<lambda>_.
         bnd (gets nextpid) (\<lambda>pid.
         bnd (upd (\<lambda>s. s\<lparr>nextpid := pid + 1\<rparr>)) (\<lambda>_.
         bnd (set_proc p (\<lambda>x. x\<lparr>p_pid := pid\<rparr>)) (\<lambda>_.
         bnd (release Lk_ptable) (\<lambda>_.
         bnd kalloc (\<lambda>ks.
         bnd (set_proc p (\<lambda>x. x\<lparr>p_kstack := ks\<rparr>)) (\<lambda>_.
         if ks = 0 then bnd (set_proc p (\<lambda>x. x\<lparr>p_state := UNUSED\<rparr>)) (\<lambda>_. ret None)
         else
           (let tf = ks + KSTACKSIZE - TF_SIZE; ra = tf - 4; ctx = ra - CTX_SIZE in
            bnd (set_proc p (\<lambda>x. x\<lparr>p_tf := tf\<rparr>)) (\<lambda>_.
            bnd (gets sym_trapret) (\<lambda>tr.
            bnd (stw ra tr) (\<lambda>_.
            bnd (set_proc p (\<lambda>x. x\<lparr>p_context := ctx\<rparr>)) (\<lambda>_.
            bnd (kmemset ctx 0 CTX_SIZE) (\<lambda>_.
            bnd (gets sym_forkret) (\<lambda>fr.
            bnd (stw (ctx + CTX_EIP) fr) (\<lambda>_.
            ret (Some p))))))))))))))))))"

text \<open>Segment selectors: \<open>(SEG_UCODE << 3) | DPL_USER\<close> and \<open>(SEG_UDATA << 3) | DPL_USER\<close>.\<close>

definition UCODE_SEL :: u16 where "UCODE_SEL = 0x23"

definition UDATA_SEL :: u16 where "UDATA_SEL = 0x2b"

definition FL_IF :: u32 where "FL_IF = 0x200"

definition userinit :: "('a kstate_scheme, unit) km" where
  "userinit =
     bnd allocproc (\<lambda>r.
     bnd (upd (\<lambda>s. s\<lparr>initproc := r\<rparr>)) (\<lambda>_.
     case r of None \<Rightarrow> stop (Undefined ''userinit: p'')
     | Some p \<Rightarrow>
         bnd setupkvm (\<lambda>d.
         bnd (set_proc p (\<lambda>x. x\<lparr>p_pgdir := d\<rparr>)) (\<lambda>_.
         if d = 0 then panic ''userinit: out of memory?''
         else
           bnd (gets initcode) (\<lambda>code.
           bnd (inituvm d code (of_nat (length code))) (\<lambda>_.
           bnd (set_proc p (\<lambda>x. x\<lparr>p_sz := PGSIZE\<rparr>)) (\<lambda>_.
           bnd (proc_of p) (\<lambda>x.
           let tf = p_tf x in
           bnd (kmemset tf 0 TF_SIZE) (\<lambda>_.
           bnd (stw16 (tf + TF_CS) UCODE_SEL) (\<lambda>_.
           bnd (stw16 (tf + TF_DS) UDATA_SEL) (\<lambda>_.
           bnd (stw16 (tf + TF_ES) UDATA_SEL) (\<lambda>_.
           bnd (stw16 (tf + TF_SS) UDATA_SEL) (\<lambda>_.
           bnd (stw (tf + TF_EFLAGS) FL_IF) (\<lambda>_.
           bnd (stw (tf + TF_ESP) PGSIZE) (\<lambda>_.
           bnd (stw (tf + TF_EIP) 0) (\<lambda>_.
           bnd (set_proc p (\<lambda>x. x\<lparr>p_name := str ''initcode''\<rparr>)) (\<lambda>_.
           bnd (namei (str ''/'')) (\<lambda>i.
           bnd (set_proc p (\<lambda>x. x\<lparr>p_cwd := i\<rparr>)) (\<lambda>_.
           set_proc p (\<lambda>x. x\<lparr>p_state := RUNNABLE\<rparr>))))))))))))))))))))"

definition growproc :: "int \<Rightarrow> ('a kstate_scheme, int) km" where
  "growproc n =
     bnd myproc (\<lambda>p.
     bnd (proc_of p) (\<lambda>x.
     bnd (if n > 0 then allocuvm (p_pgdir x) (p_sz x) (p_sz x + word_of_int n)
          else if n < 0 then deallocuvm (p_pgdir x) (p_sz x) (p_sz x + word_of_int n)
          else ret (p_sz x)) (\<lambda>sz.
     if n \<noteq> 0 \<and> sz = 0 then ret (- 1)
     else
       bnd (set_proc p (\<lambda>x. x\<lparr>p_sz := sz\<rparr>)) (\<lambda>_.
       bnd (switchuvm p) (\<lambda>_.
       ret 0)))))"

definition fork_file :: "nat \<Rightarrow> nat \<Rightarrow> nat \<Rightarrow> ('a kstate_scheme, unit) km" where
  "fork_file p np i =
     bnd (gets (\<lambda>s. p_ofile (procs s ! p) ! i)) (\<lambda>f.
     case f of None \<Rightarrow> ret ()
     | Some f \<Rightarrow>
         bnd (filedup f) (\<lambda>f.
         set_proc np (\<lambda>x. x\<lparr>p_ofile := (p_ofile x)[i := Some f]\<rparr>)))"

definition fork :: "('a kstate_scheme, int) km" where
  "fork =
     bnd myproc (\<lambda>p.
     bnd allocproc (\<lambda>r.
     case r of None \<Rightarrow> ret (- 1)
     | Some np \<Rightarrow>
         bnd (proc_of p) (\<lambda>x.
         bnd (copyuvm (p_pgdir x) (p_sz x)) (\<lambda>d.
         bnd (set_proc np (\<lambda>x. x\<lparr>p_pgdir := d\<rparr>)) (\<lambda>_.
         if d = 0 then
           bnd (proc_of np) (\<lambda>nx.
           bnd (kfree (p_kstack nx)) (\<lambda>_.
           bnd (set_proc np (\<lambda>x. x\<lparr>p_kstack := 0\<rparr>)) (\<lambda>_.
           bnd (set_proc np (\<lambda>x. x\<lparr>p_state := UNUSED\<rparr>)) (\<lambda>_.
           ret (- 1)))))
         else
           bnd (set_proc np (\<lambda>y. y\<lparr>p_sz := p_sz x\<rparr>)) (\<lambda>_.
           bnd (set_proc np (\<lambda>y. y\<lparr>p_parent := Some p\<rparr>)) (\<lambda>_.
           bnd (proc_of np) (\<lambda>nx.
           bnd (kmemmove (p_tf nx) (p_tf x) TF_SIZE) (\<lambda>_.
           bnd (stw (p_tf nx + TF_EAX) 0) (\<lambda>_.
           bnd (foreach [0..<NOFILE] (fork_file p np)) (\<lambda>_.
           bnd (case p_cwd x of None \<Rightarrow> stop (Undefined ''proc->cwd'') | Some i \<Rightarrow> idup i) (\<lambda>cwd.
           bnd (set_proc np (\<lambda>y. y\<lparr>p_cwd := Some cwd\<rparr>)) (\<lambda>_.
           bnd (set_proc np (\<lambda>y. y\<lparr>p_name := take 15 (p_name x)\<rparr>)) (\<lambda>_.
           bnd (proc_of np) (\<lambda>nx.
           bnd (acquire Lk_ptable) (\<lambda>_.
           bnd (set_proc np (\<lambda>y. y\<lparr>p_state := RUNNABLE\<rparr>)) (\<lambda>_.
           bnd (release Lk_ptable) (\<lambda>_.
           ret (p_pid nx)))))))))))))))))))"

section \<open>Exit and wait\<close>

definition exit_file :: "nat \<Rightarrow> nat \<Rightarrow> ('a kstate_scheme, unit) km" where
  "exit_file p fd =
     bnd (gets (\<lambda>s. p_ofile (procs s ! p) ! fd)) (\<lambda>f.
     case f of None \<Rightarrow> ret ()
     | Some f \<Rightarrow>
         bnd (fileclose f) (\<lambda>_.
         set_proc p (\<lambda>x. x\<lparr>p_ofile := (p_ofile x)[fd := None]\<rparr>)))"

definition proc_chan :: "nat option \<Rightarrow> chan" where
  "proc_chan p = (case p of None \<Rightarrow> ChNull | Some i \<Rightarrow> ChProc i)"

definition reparent :: "nat \<Rightarrow> nat \<Rightarrow> ('a kstate_scheme, unit) km" where
  "reparent p i =
     bnd (proc_of i) (\<lambda>x.
     if p_parent x = Some p then
       bnd (gets initproc) (\<lambda>ip.
       bnd (set_proc i (\<lambda>x. x\<lparr>p_parent := ip\<rparr>)) (\<lambda>_.
       if p_state x = ZOMBIE then wakeup1 (proc_chan ip) else ret ()))
     else ret ())"

definition exit_proc :: "('a kstate_scheme, unit) km" where
  "exit_proc =
     bnd myproc (\<lambda>p.
     bnd (gets initproc) (\<lambda>ip.
     if ip = Some p then panic ''init exiting''
     else
       bnd (foreach [0..<NOFILE] (exit_file p)) (\<lambda>_.
       bnd begin_op (\<lambda>_.
       bnd (proc_of p) (\<lambda>x.
       bnd (case p_cwd x of None \<Rightarrow> stop (Undefined ''proc->cwd'') | Some i \<Rightarrow> iput i) (\<lambda>_.
       bnd end_op (\<lambda>_.
       bnd (set_proc p (\<lambda>x. x\<lparr>p_cwd := None\<rparr>)) (\<lambda>_.
       bnd (acquire Lk_ptable) (\<lambda>_.
       bnd (proc_of p) (\<lambda>x.
       bnd (wakeup1 (proc_chan (p_parent x))) (\<lambda>_.
       bnd (foreach [0..<NPROC] (reparent p)) (\<lambda>_.
       bnd (set_proc p (\<lambda>x. x\<lparr>p_state := ZOMBIE\<rparr>)) (\<lambda>_.
       bnd sched (\<lambda>_.
       panic ''zombie exit''))))))))))))))"

definition wait_reap :: "nat \<Rightarrow> ('a kstate_scheme, int) km" where
  "wait_reap i =
     bnd (proc_of i) (\<lambda>x.
     bnd (kfree (p_kstack x)) (\<lambda>_.
     bnd (set_proc i (\<lambda>x. x\<lparr>p_kstack := 0\<rparr>)) (\<lambda>_.
     bnd (freevm (p_pgdir x)) (\<lambda>_.
     bnd (set_proc i (\<lambda>x. x\<lparr>p_state := UNUSED, p_pid := 0, p_parent := None, p_name := [], p_killed := False\<rparr>)) (\<lambda>_.
     bnd (release Lk_ptable) (\<lambda>_.
     ret (p_pid x)))))))"

text \<open>A round of the loop of \<open>wait\<close>, with the lock held.\<close>

definition wait_loop :: "nat \<Rightarrow> ('a kstate_scheme, int) km" where
  "wait_loop p =
     bnd (gets procs) (\<lambda>ps.
     case find_idx (\<lambda>x. p_parent x = Some p \<and> p_state x = ZOMBIE) ps of
       Some i \<Rightarrow> wait_reap i
     | None \<Rightarrow>
         if (\<forall>x \<in> set ps. p_parent x \<noteq> Some p) \<or> p_killed (ps ! p) then
           bnd (release Lk_ptable) (\<lambda>_. ret (- 1))
         else sleep (ChProc p) Lk_ptable)"

definition wait :: "('a kstate_scheme, int) km" where
  "wait = bnd myproc (\<lambda>p. bnd (acquire Lk_ptable) (\<lambda>_. wait_loop p))"

section \<open>The scheduler\<close>

text \<open>
  The scan of the process table from entry \<open>k\<close> on, with the lock held. It stops with the switch to the
  first runnable process; \<open>scheduler_resume\<close> is what follows when that process switches back.
\<close>

definition scheduler_from :: "nat \<Rightarrow> ('a kstate_scheme, unit) km" where
  "scheduler_from k =
     bnd (gets (\<lambda>s. find (\<lambda>i. p_state (procs s ! i) = RUNNABLE) [k..<NPROC])) (\<lambda>r.
     case r of
       None \<Rightarrow> release Lk_ptable
     | Some i \<Rightarrow>
         bnd (upd (\<lambda>s. s\<lparr>curproc := Some i\<rparr>)) (\<lambda>_.
         bnd (switchuvm i) (\<lambda>_.
         bnd (set_proc i (\<lambda>x. x\<lparr>p_state := RUNNING\<rparr>)) (\<lambda>_.
         stop Swtch))))"

definition scheduler_resume :: "nat \<Rightarrow> ('a kstate_scheme, unit) km" where
  "scheduler_resume i =
     bnd switchkvm (\<lambda>_.
     bnd (upd (\<lambda>s. s\<lparr>curproc := None\<rparr>)) (\<lambda>_.
     scheduler_from (Suc i)))"

text \<open>One round of the outer loop of \<open>scheduler\<close>.\<close>

definition scheduler :: "('a kstate_scheme, unit) km" where
  "scheduler =
     bnd (upd (\<lambda>s. s\<lparr>mcpu := (mcpu s)\<lparr>iflag := True\<rparr>\<rparr>)) (\<lambda>_.
     bnd (acquire Lk_ptable) (\<lambda>_.
     scheduler_from 0))"

definition forkret :: "('a kstate_scheme, unit) km" where
  "forkret =
     bnd (release Lk_ptable) (\<lambda>_.
     bnd (gets forkret_first) (\<lambda>first.
     if first then
       bnd (upd (\<lambda>s. s\<lparr>forkret_first := False\<rparr>)) (\<lambda>_.
       bnd (iinit ROOTDEV) (\<lambda>_.
       initlog ROOTDEV))
     else ret ()))"

end
