(* ===== verification/Syscall.thy ===== *)
theory Syscall
  imports Proc
begin

text \<open>
  System call arguments (\<open>syscall.c\<close>, without the dispatcher). The kernel reads and writes user memory
  through the page table of the current process, as the hardware translates addresses; an address
  that is not mapped makes the kernel panic in \<open>trap\<close>. A pointer to a string is returned as the string.
\<close>

section \<open>User memory\<close>

definition xlate :: "mem \<Rightarrow> u32 \<Rightarrow> bool \<Rightarrow> u32 \<Rightarrow> u32 option" where
  "xlate m pgdir write va =
     (let pde = ld32 m (pgdir + 4 * PDX va) in
      if pde AND PTE_P = 0 then None
      else
        (let pte = ld32 m (p2v (PTE_ADDR pde) + 4 * PTX va) in
         if pte AND PTE_P = 0 \<or> write \<and> pte AND PTE_W = 0 then None
         else Some (p2v (PTE_ADDR pte) + (va AND 0xFFF))))"

definition uld8 :: "u32 \<Rightarrow> ('a vmstate_scheme, u8) km" where
  "uld8 va = bnd (gets (\<lambda>s. xlate (kmem_bytes s) (p2v (cr3 s)) False va)) (\<lambda>a.
     case a of None \<Rightarrow> panic ''trap'' | Some a \<Rightarrow> gets (\<lambda>s. kmem_bytes s a))"

definition ust8 :: "u32 \<Rightarrow> u8 \<Rightarrow> ('a vmstate_scheme, unit) km" where
  "ust8 va c = bnd (gets (\<lambda>s. xlate (kmem_bytes s) (p2v (cr3 s)) True va)) (\<lambda>a.
     case a of None \<Rightarrow> panic ''trap'' | Some a \<Rightarrow> upd (\<lambda>s. s\<lparr>kmem_bytes := (kmem_bytes s)(a := c)\<rparr>))"

fun ubytes :: "u32 \<Rightarrow> nat \<Rightarrow> ('a vmstate_scheme, u8 list) km" where
  "ubytes va 0 = ret []"
| "ubytes va (Suc n) = bnd (uld8 va) (\<lambda>c. bnd (ubytes (va + 1) n) (\<lambda>cs. ret (c # cs)))"

fun uputs :: "u32 \<Rightarrow> u8 list \<Rightarrow> ('a vmstate_scheme, unit) km" where
  "uputs va [] = ret ()"
| "uputs va (c # cs) = bnd (ust8 va c) (\<lambda>_. uputs (va + 1) cs)"

section \<open>Arguments\<close>

definition proc_sz :: "('a pstate_scheme, u32) km" where
  "proc_sz = bnd myproc (\<lambda>p. gets (\<lambda>s. p_sz (procs s ! p)))"

definition fetchint :: "u32 \<Rightarrow> ('a vmstate_scheme, u32 option) km" where
  "fetchint addr =
     bnd proc_sz (\<lambda>sz.
     if addr \<ge> sz \<or> addr + 4 > sz then ret None
     else bnd (ubytes addr 4) (\<lambda>cs. ret (Some (get32 cs 0))))"

function fetchstr_loop :: "u32 \<Rightarrow> u32 \<Rightarrow> u8 list \<Rightarrow> ('a vmstate_scheme, u8 list option) km" where
  "fetchstr_loop s ep acc =
     (if s < ep then
        bnd (uld8 s) (\<lambda>c.
        if c = 0 then ret (Some acc) else fetchstr_loop (s + 1) ep (acc @ [c]))
      else ret None)"
  by pat_completeness auto
termination
proof (relation "measure (\<lambda>(s, ep, acc). unat ep - unat s)", goal_cases)
  case (2 s ep acc c)
  then have "unat s < unat ep" by (simp add: word_less_nat_alt)
  moreover have "unat (s + 1) = unat s + 1"
    using calculation unat32_less [of ep] by (simp add: unat_word_ariths)
  ultimately show ?case by simp
qed simp

declare fetchstr_loop.simps [simp del]

definition fetchstr :: "u32 \<Rightarrow> ('a vmstate_scheme, u8 list option) km" where
  "fetchstr addr =
     bnd proc_sz (\<lambda>sz.
     if addr \<ge> sz then ret None else fetchstr_loop addr sz [])"

definition proc_tf :: "('a pstate_scheme, u32) km" where
  "proc_tf = bnd myproc (\<lambda>p. gets (\<lambda>s. p_tf (procs s ! p)))"

definition argint :: "int \<Rightarrow> ('a vmstate_scheme, u32 option) km" where
  "argint n =
     bnd proc_tf (\<lambda>tf.
     bnd (ldw (tf + TF_ESP)) (\<lambda>esp.
     fetchint (esp + 4 + 4 * word_of_int n)))"

definition argptr :: "int \<Rightarrow> int \<Rightarrow> ('a vmstate_scheme, u32 option) km" where
  "argptr n sz0 =
     bnd (argint n) (\<lambda>r.
     case r of None \<Rightarrow> ret None
     | Some i \<Rightarrow>
         bnd proc_sz (\<lambda>sz.
         if i \<ge> sz \<or> i + word_of_int sz0 > sz then ret None else ret (Some i)))"

definition argstr :: "int \<Rightarrow> ('a vmstate_scheme, u8 list option) km" where
  "argstr n =
     bnd (argint n) (\<lambda>r.
     case r of None \<Rightarrow> ret None | Some addr \<Rightarrow> fetchstr addr)"

end
