(* ===== verification/Exec.thy ===== *)
theory Exec
  imports Syscall
begin

text \<open>
  \<open>exec\<close> (\<open>exec.c\<close>): the headers of an ELF file, loading of its segments, and the initial stack. The
  argument strings are given as lists of bytes.
\<close>

definition MAXARG :: nat where "MAXARG = 32"

definition ELF_MAGIC :: u32 where "ELF_MAGIC = 0x464C457F"

definition ELFHDR_SIZE :: u32 where "ELFHDR_SIZE = 52"

definition PROGHDR_SIZE :: u32 where "PROGHDR_SIZE = 32"

definition ELF_PROG_LOAD :: u32 where "ELF_PROG_LOAD = 1"

record elfhdr =
  e_magic :: u32
  e_entry :: u32
  e_phoff :: u32
  e_phnum :: u16

definition elfhdr_of :: "u8 list \<Rightarrow> elfhdr" where
  "elfhdr_of d = \<lparr>e_magic = get32 d 0, e_entry = get32 d 24, e_phoff = get32 d 28, e_phnum = get16 d 44\<rparr>"

record proghdr =
  ph_type :: u32
  ph_off :: u32
  ph_vaddr :: u32
  ph_filesz :: u32
  ph_memsz :: u32

definition proghdr_of :: "u8 list \<Rightarrow> proghdr" where
  "proghdr_of d = \<lparr>ph_type = get32 d 0, ph_off = get32 d 4, ph_vaddr = get32 d 8, ph_filesz = get32 d 16, ph_memsz = get32 d 20\<rparr>"

text \<open>The label \<open>bad\<close>.\<close>

definition exec_bad :: "u32 \<Rightarrow> nat option \<Rightarrow> ('a kstate_scheme, int) km" where
  "exec_bad pgdir ip =
     bnd (if pgdir \<noteq> 0 then freevm pgdir else ret ()) (\<lambda>_.
     bnd (case ip of None \<Rightarrow> ret () | Some i \<Rightarrow> bnd (iunlockput i) (\<lambda>_. end_op)) (\<lambda>_.
     ret (- 1)))"

text \<open>The loop over the \<open>n\<close> program headers that are left; \<open>None\<close> stands for \<open>goto bad\<close>.\<close>

fun exec_load :: "nat \<Rightarrow> u32 \<Rightarrow> nat \<Rightarrow> u32 \<Rightarrow> u32 \<Rightarrow> ('a kstate_scheme, u32 option) km" where
  "exec_load ip pgdir 0 off sz = ret (Some sz)"
| "exec_load ip pgdir (Suc n) off sz =
     bnd (readi ip off PROGHDR_SIZE) (\<lambda>(r, d).
     if word_of_int r \<noteq> PROGHDR_SIZE then ret None
     else
       (let ph = proghdr_of d in
        if ph_type ph \<noteq> ELF_PROG_LOAD then exec_load ip pgdir n (off + PROGHDR_SIZE) sz
        else if ph_memsz ph < ph_filesz ph then ret None
        else
          bnd (allocuvm pgdir sz (ph_vaddr ph + ph_memsz ph)) (\<lambda>sz.
          if sz = 0 then ret None
          else
            bnd (loaduvm pgdir (ph_vaddr ph) ip (ph_off ph) (ph_filesz ph)) (\<lambda>r.
            if r < 0 then ret None
            else exec_load ip pgdir n (off + PROGHDR_SIZE) sz))))"

text \<open>The loop that pushes the argument strings: the stack pointer and the addresses of the strings.\<close>

fun exec_args :: "u32 \<Rightarrow> u8 list list \<Rightarrow> u32 \<Rightarrow> u32 list \<Rightarrow> ('a kstate_scheme, (u32 \<times> u32 list) option) km" where
  "exec_args pgdir [] sp acc = ret (Some (sp, acc))"
| "exec_args pgdir (a # as) sp acc =
     (if length acc \<ge> MAXARG then ret None
      else
        (let sp = (sp - (of_nat (length a) + 1)) AND NOT 3 in
         bnd (copyout pgdir sp (a @ [0])) (\<lambda>r.
         if r < 0 then ret None else exec_args pgdir as sp (acc @ [sp]))))"

definition words_bytes :: "u32 list \<Rightarrow> u8 list" where
  "words_bytes ws = concat (map (\<lambda>w. put32 (replicate 4 0) 0 w) ws)"

text \<open>The name shown by the process listing: what follows the last slash of the path.\<close>

definition last_elem :: "u8 list \<Rightarrow> u8 list" where
  "last_elem path = rev (takeWhile (\<lambda>c. c \<noteq> slash) (rev path))"

definition exec_stack :: "u32 \<Rightarrow> u32 \<Rightarrow> u8 list list \<Rightarrow> ('a kstate_scheme, (u32 \<times> u32) option) km" where
  "exec_stack pgdir sz argv =
     bnd (allocuvm pgdir (PGROUNDUP sz) (PGROUNDUP sz + 2 * PGSIZE)) (\<lambda>sz.
     if sz = 0 then ret None
     else
       bnd (clearpteu pgdir (sz - 2 * PGSIZE)) (\<lambda>_.
       bnd (exec_args pgdir argv sz []) (\<lambda>r.
       case r of None \<Rightarrow> ret None
       | Some (sp, as) \<Rightarrow>
           (let argc = of_nat (length as);
                ustack = [0xffffffff, argc, sp - (argc + 1) * 4] @ as @ [0];
                sp = sp - (3 + argc + 1) * 4
            in bnd (copyout pgdir sp (words_bytes ustack)) (\<lambda>r.
               if r < 0 then ret None else ret (Some (sz, sp)))))))"

text \<open>The steps that commit to the new image.\<close>

definition exec_commit :: "u8 list \<Rightarrow> u32 \<Rightarrow> u32 \<Rightarrow> u32 \<Rightarrow> u32 \<Rightarrow> ('a kstate_scheme, int) km" where
  "exec_commit path pgdir sz sp entry =
     bnd myproc (\<lambda>p.
     bnd (set_proc p (\<lambda>x. x\<lparr>p_name := take 15 (last_elem path)\<rparr>)) (\<lambda>_.
     bnd (proc_of p) (\<lambda>x.
     bnd (set_proc p (\<lambda>x. x\<lparr>p_pgdir := pgdir\<rparr>)) (\<lambda>_.
     bnd (set_proc p (\<lambda>x. x\<lparr>p_sz := sz\<rparr>)) (\<lambda>_.
     bnd (stw (p_tf x + TF_EIP) entry) (\<lambda>_.
     bnd (stw (p_tf x + TF_ESP) sp) (\<lambda>_.
     bnd (switchuvm p) (\<lambda>_.
     bnd (freevm (p_pgdir x)) (\<lambda>_.
     ret 0)))))))))"

text \<open>
  The test of the header compares the result of \<open>readi\<close> as an unsigned number, so a result of -1 passes
  it and the header is read without having been filled.
\<close>

definition exec :: "u8 list \<Rightarrow> u8 list list \<Rightarrow> ('a kstate_scheme, int) km" where
  "exec path argv =
     bnd begin_op (\<lambda>_.
     bnd (namei path) (\<lambda>r.
     case r of None \<Rightarrow> bnd end_op (\<lambda>_. ret (- 1))
     | Some ip \<Rightarrow>
         bnd (ilock (Some ip)) (\<lambda>_.
         bnd (readi ip 0 ELFHDR_SIZE) (\<lambda>(r, d).
         if word_of_int r < ELFHDR_SIZE then exec_bad 0 (Some ip)
         else if length d < unat ELFHDR_SIZE then stop (Undefined ''exec: elf.magic'')
         else
           (let elf = elfhdr_of d in
            if e_magic elf \<noteq> ELF_MAGIC then exec_bad 0 (Some ip)
            else
              bnd setupkvm (\<lambda>pgdir.
              if pgdir = 0 then exec_bad 0 (Some ip)
              else
                bnd (exec_load ip pgdir (unat (e_phnum elf)) (e_phoff elf) 0) (\<lambda>r.
                case r of None \<Rightarrow> exec_bad pgdir (Some ip)
                | Some sz \<Rightarrow>
                    bnd (iunlockput ip) (\<lambda>_.
                    bnd end_op (\<lambda>_.
                    bnd (exec_stack pgdir sz argv) (\<lambda>r.
                    case r of None \<Rightarrow> exec_bad pgdir None
                    | Some (sz, sp) \<Rightarrow> exec_commit path pgdir sz sp (e_entry elf)))))))))))"

end
