(* ===== verification/Sysfile.thy ===== *)
theory Sysfile
  imports Exec
begin

text \<open>
  The system calls on files (\<open>sysfile.c\<close>). Each takes its arguments from the user stack and returns the
  value for \<open>eax\<close>; -1 reports an error.
\<close>

section \<open>Descriptors\<close>

definition argfd :: "int \<Rightarrow> ('a kstate_scheme, (nat \<times> nat) option) km" where
  "argfd n =
     bnd (argint n) (\<lambda>r.
     case r of None \<Rightarrow> ret None
     | Some fd \<Rightarrow>
         if sint fd < 0 \<or> sint fd \<ge> int NOFILE then ret None
         else
           bnd myproc (\<lambda>p.
           bnd (gets (\<lambda>s. p_ofile (procs s ! p) ! unat fd)) (\<lambda>f.
           case f of None \<Rightarrow> ret None | Some f \<Rightarrow> ret (Some (unat fd, f)))))"

definition set_ofile :: "nat \<Rightarrow> nat option \<Rightarrow> ('a pstate_scheme, unit) km" where
  "set_ofile fd f = bnd myproc (\<lambda>p. set_proc p (\<lambda>x. x\<lparr>p_ofile := (p_ofile x)[fd := f]\<rparr>))"

definition fdalloc :: "nat \<Rightarrow> ('a pstate_scheme, nat option) km" where
  "fdalloc f =
     bnd myproc (\<lambda>p.
     bnd (gets (\<lambda>s. find (\<lambda>fd. p_ofile (procs s ! p) ! fd = None) [0..<NOFILE])) (\<lambda>r.
     case r of None \<Rightarrow> ret None
     | Some fd \<Rightarrow> bnd (set_ofile fd (Some f)) (\<lambda>_. ret (Some fd))))"

definition sys_dup :: "('a kstate_scheme, int) km" where
  "sys_dup =
     bnd (argfd 0) (\<lambda>r.
     case r of None \<Rightarrow> ret (- 1)
     | Some (_, f) \<Rightarrow>
         bnd (fdalloc f) (\<lambda>r.
         case r of None \<Rightarrow> ret (- 1)
         | Some fd \<Rightarrow> bnd (filedup f) (\<lambda>_. ret (int fd))))"

text \<open>
  \<open>sys_dup2\<close> as it is compiled (an older version stands above it in a comment). It does not check the
  second descriptor: one that is out of range indexes beyond the array. When the entry is empty,
  \<open>argfd\<close> fails and \<open>f2\<close>, which it does not set, is closed.
\<close>

definition sys_dup2 :: "('a kstate_scheme, int) km" where
  "sys_dup2 =
     bnd (argfd 0) (\<lambda>r.
     case r of None \<Rightarrow> ret (- 1)
     | Some (_, f1) \<Rightarrow>
         bnd (argint 1) (\<lambda>r.
         case r of None \<Rightarrow> ret (- 1)
         | Some fd1 \<Rightarrow>
             if sint fd1 < 0 \<or> sint fd1 \<ge> int NOFILE then stop (Undefined ''proc->ofile[fd1]'')
             else
               bnd myproc (\<lambda>p.
               bnd (gets (\<lambda>s. p_ofile (procs s ! p) ! unat fd1)) (\<lambda>old.
               if old = None then
                 bnd (argfd 1) (\<lambda>r.
                 case r of None \<Rightarrow> stop (Undefined ''sys_dup2: f2'')
                 | Some (_, f2) \<Rightarrow>
                     bnd (fileclose f2) (\<lambda>_.
                     if f1 = f2 then ret (sint fd1)
                     else
                       bnd (set_ofile (unat fd1) (Some f1)) (\<lambda>_.
                       bnd (filedup f1) (\<lambda>_.
                       ret (sint fd1)))))
               else
                 bnd (set_ofile (unat fd1) (Some f1)) (\<lambda>_.
                 bnd (filedup f1) (\<lambda>_.
                 ret (sint fd1)))))))"

definition sys_read :: "('a kstate_scheme, int) km" where
  "sys_read =
     bnd (argfd 0) (\<lambda>r.
     case r of None \<Rightarrow> ret (- 1)
     | Some (_, f) \<Rightarrow>
         bnd (argint 2) (\<lambda>r.
         case r of None \<Rightarrow> ret (- 1)
         | Some n \<Rightarrow>
             bnd (argptr 1 (sint n)) (\<lambda>r.
             case r of None \<Rightarrow> ret (- 1)
             | Some p \<Rightarrow>
                 bnd (fileread f (sint n)) (\<lambda>(r, bytes).
                 bnd (uputs p bytes) (\<lambda>_.
                 ret r)))))"

definition sys_write :: "('a kstate_scheme, int) km" where
  "sys_write =
     bnd (argfd 0) (\<lambda>r.
     case r of None \<Rightarrow> ret (- 1)
     | Some (_, f) \<Rightarrow>
         bnd (argint 2) (\<lambda>r.
         case r of None \<Rightarrow> ret (- 1)
         | Some n \<Rightarrow>
             bnd (argptr 1 (sint n)) (\<lambda>r.
             case r of None \<Rightarrow> ret (- 1)
             | Some p \<Rightarrow>
                 bnd (ubytes p (nat (sint n))) (\<lambda>bytes.
                 filewrite f bytes (sint n)))))"

definition sys_close :: "('a kstate_scheme, int) km" where
  "sys_close =
     bnd (argfd 0) (\<lambda>r.
     case r of None \<Rightarrow> ret (- 1)
     | Some (fd, f) \<Rightarrow>
         bnd (set_ofile fd None) (\<lambda>_.
         bnd (fileclose f) (\<lambda>_.
         ret 0)))"

text \<open>\<open>struct stat\<close> in memory: type at 0, dev at 4, ino at 8, nlink at 12, size at 16.\<close>

definition STAT_SIZE :: int where "STAT_SIZE = 20"

definition put_stat :: "u32 \<Rightarrow> fstat \<Rightarrow> ('a vmstate_scheme, unit) km" where
  "put_stat p st =
     bnd (uputs (p + 4) (put32 (replicate 4 0) 0 (st_dev st))) (\<lambda>_.
     bnd (uputs (p + 8) (put32 (replicate 4 0) 0 (st_ino st))) (\<lambda>_.
     bnd (uputs p (put16 (replicate 2 0) 0 (st_type st))) (\<lambda>_.
     bnd (uputs (p + 12) (put16 (replicate 2 0) 0 (st_nlink st))) (\<lambda>_.
     uputs (p + 16) (put32 (replicate 4 0) 0 (st_size st))))))"

definition sys_fstat :: "('a kstate_scheme, int) km" where
  "sys_fstat =
     bnd (argfd 0) (\<lambda>r.
     case r of None \<Rightarrow> ret (- 1)
     | Some (_, f) \<Rightarrow>
         bnd (argptr 1 STAT_SIZE) (\<lambda>r.
         case r of None \<Rightarrow> ret (- 1)
         | Some p \<Rightarrow>
             bnd (filestat f) (\<lambda>r.
             case r of None \<Rightarrow> ret (- 1)
             | Some st \<Rightarrow> bnd (put_stat p st) (\<lambda>_. ret 0))))"

section \<open>Links\<close>

definition sys_link_bad :: "nat \<Rightarrow> ('a kstate_scheme, int) km" where
  "sys_link_bad ip =
     bnd (ilock (Some ip)) (\<lambda>_.
     bnd (set_inode ip (\<lambda>x. x\<lparr>i_nlink := i_nlink x - 1\<rparr>)) (\<lambda>_.
     bnd (iupdate ip) (\<lambda>_.
     bnd (iunlockput ip) (\<lambda>_.
     bnd end_op (\<lambda>_.
     ret (- 1))))))"

definition sys_link :: "('a kstate_scheme, int) km" where
  "sys_link =
     bnd (argstr 0) (\<lambda>r.
     case r of None \<Rightarrow> ret (- 1)
     | Some old \<Rightarrow>
         bnd (argstr 1) (\<lambda>r.
         case r of None \<Rightarrow> ret (- 1)
         | Some new \<Rightarrow>
             bnd begin_op (\<lambda>_.
             bnd (namei old) (\<lambda>r.
             case r of None \<Rightarrow> bnd end_op (\<lambda>_. ret (- 1))
             | Some ip \<Rightarrow>
                 bnd (ilock (Some ip)) (\<lambda>_.
                 bnd (get_inode ip) (\<lambda>x.
                 if i_type x = T_DIR then bnd (iunlockput ip) (\<lambda>_. bnd end_op (\<lambda>_. ret (- 1)))
                 else
                   bnd (set_inode ip (\<lambda>x. x\<lparr>i_nlink := i_nlink x + 1\<rparr>)) (\<lambda>_.
                   bnd (iupdate ip) (\<lambda>_.
                   bnd (iunlock (Some ip)) (\<lambda>_.
                   bnd (nameiparent new) (\<lambda>r.
                   case r of None \<Rightarrow> sys_link_bad ip
                   | Some (dp, name) \<Rightarrow>
                       bnd (ilock (Some dp)) (\<lambda>_.
                       bnd (get_inode dp) (\<lambda>d.
                       bnd (get_inode ip) (\<lambda>x.
                       bnd (if i_dev d \<noteq> i_dev x then ret (- 1) else dirlink dp name (i_inum x)) (\<lambda>r.
                       if r < 0 then bnd (iunlockput dp) (\<lambda>_. sys_link_bad ip)
                       else
                         bnd (iunlockput dp) (\<lambda>_.
                         bnd (iput ip) (\<lambda>_.
                         bnd end_op (\<lambda>_.
                         ret 0)))))))))))))))))"

definition isdirempty :: "nat \<Rightarrow> ('a cnstate_scheme, bool) km" where
  "isdirempty dp =
     bnd (dir_scan ''isdirempty: readi'' (\<lambda>off de. de_inum de \<noteq> 0) dp (2 * DIRENT)) (\<lambda>r.
     case r of Inl _ \<Rightarrow> ret False | Inr _ \<Rightarrow> ret True)"

definition sys_unlink_bad :: "nat \<Rightarrow> ('a kstate_scheme, int) km" where
  "sys_unlink_bad dp = bnd (iunlockput dp) (\<lambda>_. bnd end_op (\<lambda>_. ret (- 1)))"

definition sys_unlink :: "('a kstate_scheme, int) km" where
  "sys_unlink =
     bnd (argstr 0) (\<lambda>r.
     case r of None \<Rightarrow> ret (- 1)
     | Some path \<Rightarrow>
         bnd begin_op (\<lambda>_.
         bnd (nameiparent path) (\<lambda>r.
         case r of None \<Rightarrow> bnd end_op (\<lambda>_. ret (- 1))
         | Some (dp, name) \<Rightarrow>
             bnd (ilock (Some dp)) (\<lambda>_.
             if namecmp name (str ''.'') = 0 \<or> namecmp name (str ''..'') = 0 then sys_unlink_bad dp
             else
               bnd (dirlookup dp name) (\<lambda>r.
               case r of None \<Rightarrow> sys_unlink_bad dp
               | Some (ip, off) \<Rightarrow>
                   bnd (ilock (Some ip)) (\<lambda>_.
                   bnd (get_inode ip) (\<lambda>x.
                   if sint (i_nlink x) < 1 then panic ''unlink: nlink < 1''
                   else
                     bnd (if i_type x = T_DIR then isdirempty ip else ret True) (\<lambda>empty.
                     if \<not> empty then bnd (iunlockput ip) (\<lambda>_. sys_unlink_bad dp)
                     else
                       bnd (writei dp (replicate (unat DIRENT) 0) off DIRENT) (\<lambda>w.
                       if w \<noteq> sint DIRENT then panic ''unlink: writei''
                       else
                         bnd (if i_type x = T_DIR then
                                bnd (set_inode dp (\<lambda>d. d\<lparr>i_nlink := i_nlink d - 1\<rparr>)) (\<lambda>_. iupdate dp)
                              else ret ()) (\<lambda>_.
                         bnd (iunlockput dp) (\<lambda>_.
                         bnd (set_inode ip (\<lambda>x. x\<lparr>i_nlink := i_nlink x - 1\<rparr>)) (\<lambda>_.
                         bnd (iupdate ip) (\<lambda>_.
                         bnd (iunlockput ip) (\<lambda>_.
                         bnd end_op (\<lambda>_.
                         ret 0)))))))))))))))"

section \<open>Creation\<close>

definition create_new :: "nat \<Rightarrow> u8 list \<Rightarrow> u16 \<Rightarrow> u16 \<Rightarrow> u16 \<Rightarrow> ('a kstate_scheme, nat option) km" where
  "create_new dp name type major minor =
     bnd (get_inode dp) (\<lambda>d.
     bnd (ialloc (i_dev d) type) (\<lambda>ip.
     bnd (ilock (Some ip)) (\<lambda>_.
     bnd (set_inode ip (\<lambda>x. x\<lparr>i_major := major, i_minor := minor, i_nlink := 1\<rparr>)) (\<lambda>_.
     bnd (iupdate ip) (\<lambda>_.
     bnd (get_inode ip) (\<lambda>x.
     bnd (if type = T_DIR then
            bnd (set_inode dp (\<lambda>d. d\<lparr>i_nlink := i_nlink d + 1\<rparr>)) (\<lambda>_.
            bnd (iupdate dp) (\<lambda>_.
            bnd (dirlink ip (str ''.'') (i_inum x)) (\<lambda>r.
            if r < 0 then panic ''create dots''
            else
              bnd (dirlink ip (str ''..'') (i_inum d)) (\<lambda>r.
              if r < 0 then panic ''create dots'' else ret ()))))
          else ret ()) (\<lambda>_.
     bnd (dirlink dp name (i_inum x)) (\<lambda>r.
     if r < 0 then panic ''create: dirlink''
     else
       bnd (iunlockput dp) (\<lambda>_.
       ret (Some ip))))))))))"

definition create :: "u8 list \<Rightarrow> u16 \<Rightarrow> u16 \<Rightarrow> u16 \<Rightarrow> ('a kstate_scheme, nat option) km" where
  "create path type major minor =
     bnd (nameiparent path) (\<lambda>r.
     case r of None \<Rightarrow> ret None
     | Some (dp, name) \<Rightarrow>
         bnd (ilock (Some dp)) (\<lambda>_.
         bnd (dirlookup dp name) (\<lambda>r.
         case r of
           Some (ip, _) \<Rightarrow>
             bnd (iunlockput dp) (\<lambda>_.
             bnd (ilock (Some ip)) (\<lambda>_.
             bnd (get_inode ip) (\<lambda>x.
             if type = T_FILE \<and> i_type x = T_FILE then ret (Some ip)
             else bnd (iunlockput ip) (\<lambda>_. ret None))))
         | None \<Rightarrow> create_new dp name type major minor)))"

definition O_RDONLY :: u32 where "O_RDONLY = 0x000"

definition O_WRONLY :: u32 where "O_WRONLY = 0x001"

definition O_RDWR :: u32 where "O_RDWR = 0x002"

definition O_CREATE :: u32 where "O_CREATE = 0x200"

text \<open>The inode to open, locked; \<open>None\<close> if there is none or it must not be opened this way.\<close>

definition open_inode :: "u8 list \<Rightarrow> u32 \<Rightarrow> ('a kstate_scheme, nat option) km" where
  "open_inode path omode =
     (if omode AND O_CREATE \<noteq> 0 then create path T_FILE 0 0
      else
        bnd (namei path) (\<lambda>r.
        case r of None \<Rightarrow> ret None
        | Some ip \<Rightarrow>
            bnd (ilock (Some ip)) (\<lambda>_.
            bnd (get_inode ip) (\<lambda>x.
            if i_type x = T_DIR \<and> omode \<noteq> O_RDONLY then bnd (iunlockput ip) (\<lambda>_. ret None)
            else ret (Some ip)))))"

definition sys_open :: "('a kstate_scheme, int) km" where
  "sys_open =
     bnd (argstr 0) (\<lambda>r.
     case r of None \<Rightarrow> ret (- 1)
     | Some path \<Rightarrow>
         bnd (argint 1) (\<lambda>r.
         case r of None \<Rightarrow> ret (- 1)
         | Some omode \<Rightarrow>
             bnd begin_op (\<lambda>_.
             bnd (open_inode path omode) (\<lambda>r.
             case r of None \<Rightarrow> bnd end_op (\<lambda>_. ret (- 1))
             | Some ip \<Rightarrow>
                 bnd filealloc (\<lambda>rf.
                 case rf of None \<Rightarrow> bnd (iunlockput ip) (\<lambda>_. bnd end_op (\<lambda>_. ret (- 1)))
                 | Some f \<Rightarrow>
                     bnd (fdalloc f) (\<lambda>rd.
                     case rd of None \<Rightarrow> bnd (fileclose f) (\<lambda>_. bnd (iunlockput ip) (\<lambda>_. bnd end_op (\<lambda>_. ret (- 1))))
                     | Some fd \<Rightarrow>
                         bnd (iunlock (Some ip)) (\<lambda>_.
                         bnd end_op (\<lambda>_.
                         bnd (set_file f (\<lambda>x. x\<lparr>f_type := FD_INODE, f_ip := ip, f_off := 0,
                           f_readable := (omode AND O_WRONLY = 0),
                           f_writable := (omode AND O_WRONLY \<noteq> 0 \<or> omode AND O_RDWR \<noteq> 0)\<rparr>)) (\<lambda>_.
                         ret (int fd))))))))))"

definition sys_mkdir :: "('a kstate_scheme, int) km" where
  "sys_mkdir =
     bnd begin_op (\<lambda>_.
     bnd (argstr 0) (\<lambda>r.
     bnd (case r of None \<Rightarrow> ret None | Some path \<Rightarrow> create path T_DIR 0 0) (\<lambda>r.
     case r of None \<Rightarrow> bnd end_op (\<lambda>_. ret (- 1))
     | Some ip \<Rightarrow>
         bnd (iunlockput ip) (\<lambda>_.
         bnd end_op (\<lambda>_.
         ret 0)))))"

definition sys_mknod :: "('a kstate_scheme, int) km" where
  "sys_mknod =
     bnd begin_op (\<lambda>_.
     bnd (argstr 0) (\<lambda>r.
     bnd (case r of None \<Rightarrow> ret None
          | Some path \<Rightarrow>
              bnd (argint 1) (\<lambda>r.
              case r of None \<Rightarrow> ret None
              | Some major \<Rightarrow>
                  bnd (argint 2) (\<lambda>r.
                  case r of None \<Rightarrow> ret None
                  | Some minor \<Rightarrow> create path T_DEV (ucast major) (ucast minor)))) (\<lambda>r.
     case r of None \<Rightarrow> bnd end_op (\<lambda>_. ret (- 1))
     | Some ip \<Rightarrow>
         bnd (iunlockput ip) (\<lambda>_.
         bnd end_op (\<lambda>_.
         ret 0)))))"

definition sys_chdir :: "('a kstate_scheme, int) km" where
  "sys_chdir =
     bnd begin_op (\<lambda>_.
     bnd (argstr 0) (\<lambda>r.
     bnd (case r of None \<Rightarrow> ret None | Some path \<Rightarrow> namei path) (\<lambda>r.
     case r of None \<Rightarrow> bnd end_op (\<lambda>_. ret (- 1))
     | Some ip \<Rightarrow>
         bnd (ilock (Some ip)) (\<lambda>_.
         bnd (get_inode ip) (\<lambda>x.
         if i_type x \<noteq> T_DIR then bnd (iunlockput ip) (\<lambda>_. bnd end_op (\<lambda>_. ret (- 1)))
         else
           bnd (iunlock (Some ip)) (\<lambda>_.
           bnd myproc (\<lambda>p.
           bnd (proc_of p) (\<lambda>y.
           bnd (case p_cwd y of None \<Rightarrow> stop (Undefined ''proc->cwd'') | Some i \<Rightarrow> iput i) (\<lambda>_.
           bnd end_op (\<lambda>_.
           bnd (set_proc p (\<lambda>y. y\<lparr>p_cwd := Some ip\<rparr>)) (\<lambda>_.
           ret 0)))))))))))"

text \<open>The loop of \<open>sys_exec\<close> that collects the argument strings, \<open>argv[i]\<close> on.\<close>

fun exec_argv :: "nat \<Rightarrow> u32 \<Rightarrow> u8 list list \<Rightarrow> ('a kstate_scheme, u8 list list option) km" where
  "exec_argv 0 uargv acc = ret None"
| "exec_argv (Suc k) uargv acc =
     bnd (fetchint (uargv + 4 * of_nat (length acc))) (\<lambda>r.
     case r of None \<Rightarrow> ret None
     | Some uarg \<Rightarrow>
         if uarg = 0 then ret (Some acc)
         else
           bnd (fetchstr uarg) (\<lambda>r.
           case r of None \<Rightarrow> ret None | Some a \<Rightarrow> exec_argv k uargv (acc @ [a])))"

definition sys_exec :: "('a kstate_scheme, int) km" where
  "sys_exec =
     bnd (argstr 0) (\<lambda>r.
     case r of None \<Rightarrow> ret (- 1)
     | Some path \<Rightarrow>
         bnd (argint 1) (\<lambda>r.
         case r of None \<Rightarrow> ret (- 1)
         | Some uargv \<Rightarrow>
             bnd (exec_argv MAXARG uargv []) (\<lambda>r.
             case r of None \<Rightarrow> ret (- 1) | Some argv \<Rightarrow> exec path argv)))"

definition sys_pipe :: "('a kstate_scheme, int) km" where
  "sys_pipe =
     bnd (argptr 0 8) (\<lambda>r.
     case r of None \<Rightarrow> ret (- 1)
     | Some p \<Rightarrow>
         bnd pipealloc (\<lambda>r.
         case r of None \<Rightarrow> ret (- 1)
         | Some (rf1, wf1) \<Rightarrow>
             bnd (fdalloc rf1) (\<lambda>r0.
             case r0 of None \<Rightarrow> bnd (fileclose rf1) (\<lambda>_. bnd (fileclose wf1) (\<lambda>_. ret (- 1)))
             | Some fd0 \<Rightarrow>
                 bnd (fdalloc wf1) (\<lambda>r1.
                 case r1 of None \<Rightarrow>
                     bnd (set_ofile fd0 None) (\<lambda>_. bnd (fileclose rf1) (\<lambda>_. bnd (fileclose wf1) (\<lambda>_. ret (- 1))))
                 | Some fd1 \<Rightarrow>
                     bnd (uputs p (put32 (replicate 4 0) 0 (of_nat fd0))) (\<lambda>_.
                     bnd (uputs (p + 4) (put32 (replicate 4 0) 0 (of_nat fd1))) (\<lambda>_.
                     ret 0))))))"

end
