(* ===== verification/Trap.thy ===== *)
theory Trap
  imports Sysfile
begin

text \<open>
  The process system calls (\<open>sysproc.c\<close>), the real-time clock (\<open>cmostime\<close> of \<open>lapic.c\<close>), the system call
  dispatcher (\<open>syscall\<close>) and the trap handler (\<open>trap.c\<close>). What the clock chip answers is a field of the
  state: \<open>cmos_chip k r\<close> is the value of the \<open>k\<close>-th read, of register \<open>r\<close>. Acknowledging an interrupt at the
  local APIC has no effect on the modelled state.
\<close>

section \<open>Processes\<close>

record tstate = kstate +
  cmos_reads :: nat
  cmos_chip :: "nat \<Rightarrow> u32 \<Rightarrow> u32"

definition sys_fork :: "('a kstate_scheme, int) km" where
  "sys_fork = fork"

definition sys_exit :: "('a kstate_scheme, int) km" where
  "sys_exit = bnd exit_proc (\<lambda>_. ret 0)"

definition sys_wait :: "('a kstate_scheme, int) km" where
  "sys_wait = wait"

definition sys_kill :: "('a kstate_scheme, int) km" where
  "sys_kill =
     bnd (argint 0) (\<lambda>r.
     case r of None \<Rightarrow> ret (- 1) | Some pid \<Rightarrow> kill (sint pid))"

definition sys_getpid :: "('a kstate_scheme, int) km" where
  "sys_getpid = bnd myproc (\<lambda>p. bnd (proc_of p) (\<lambda>x. ret (p_pid x)))"

definition sys_sbrk :: "('a kstate_scheme, int) km" where
  "sys_sbrk =
     bnd (argint 0) (\<lambda>r.
     case r of None \<Rightarrow> ret (- 1)
     | Some n \<Rightarrow>
         bnd proc_sz (\<lambda>addr.
         bnd (growproc (sint n)) (\<lambda>r.
         if r < 0 then ret (- 1) else ret (sint addr))))"

text \<open>
  The loop of \<open>sys_sleep\<close>, with the lock held. The comparison \<open>ticks - ticks0 < n\<close> is one of unsigned
  numbers.
\<close>

definition sys_sleep_loop :: "u32 \<Rightarrow> u32 \<Rightarrow> ('a kstate_scheme, int) km" where
  "sys_sleep_loop ticks0 n =
     bnd (gets ticks) (\<lambda>t.
     if t - ticks0 < n then
       bnd proc_killed (\<lambda>killed.
       if killed then bnd (release Lk_ticks) (\<lambda>_. ret (- 1))
       else sleep ChTicks Lk_ticks)
     else bnd (release Lk_ticks) (\<lambda>_. ret 0))"

definition sys_sleep :: "('a kstate_scheme, int) km" where
  "sys_sleep =
     bnd (argint 0) (\<lambda>r.
     case r of None \<Rightarrow> ret (- 1)
     | Some n \<Rightarrow>
         bnd (acquire Lk_ticks) (\<lambda>_.
         bnd (gets ticks) (\<lambda>ticks0.
         sys_sleep_loop ticks0 n)))"

definition sys_uptime :: "('a kstate_scheme, int) km" where
  "sys_uptime =
     bnd (acquire Lk_ticks) (\<lambda>_.
     bnd (gets ticks) (\<lambda>xticks.
     bnd (release Lk_ticks) (\<lambda>_.
     ret (sint xticks))))"

section \<open>The clock\<close>

record rtcdate =
  second :: u32
  minute :: u32
  hour :: u32
  day :: u32
  month :: u32
  year :: u32

definition cmos_read :: "u32 \<Rightarrow> ('a tstate_scheme, u32) km" where
  "cmos_read reg =
     bnd (gets (\<lambda>s. cmos_chip s (cmos_reads s) reg AND 0xff)) (\<lambda>v.
     bnd (upd (\<lambda>s. s\<lparr>cmos_reads := Suc (cmos_reads s)\<rparr>)) (\<lambda>_.
     ret v))"

definition fill_rtcdate :: "('a tstate_scheme, rtcdate) km" where
  "fill_rtcdate =
     bnd (cmos_read 0x00) (\<lambda>sec.
     bnd (cmos_read 0x02) (\<lambda>mins.
     bnd (cmos_read 0x04) (\<lambda>hr.
     bnd (cmos_read 0x07) (\<lambda>dy.
     bnd (cmos_read 0x08) (\<lambda>mon.
     bnd (cmos_read 0x09) (\<lambda>yr.
     ret \<lparr>second = sec, minute = mins, hour = hr, day = dy, month = mon, year = yr\<rparr>))))))"

text \<open>
  The loop of \<open>cmostime\<close> ends when two readings without an update in between agree. A chip that never
  settles keeps it running, so the number of rounds is bounded by fuel.
\<close>

fun cmostime_loop :: "nat \<Rightarrow> ('a tstate_scheme, rtcdate) km" where
  "cmostime_loop 0 = stop Diverges"
| "cmostime_loop (Suc k) =
     bnd fill_rtcdate (\<lambda>t1.
     bnd (cmos_read 0x0a) (\<lambda>sta.
     if sta AND 0x80 \<noteq> 0 then cmostime_loop k
     else
       bnd fill_rtcdate (\<lambda>t2.
       if t1 = t2 then ret t1 else cmostime_loop k)))"

definition CONV :: "u32 \<Rightarrow> u32" where
  "CONV x = drop_bit 4 x * 10 + (x AND 0xf)"

definition conv_date :: "rtcdate \<Rightarrow> rtcdate" where
  "conv_date t = \<lparr>second = CONV (second t), minute = CONV (minute t), hour = CONV (hour t),
     day = CONV (day t), month = CONV (month t), year = CONV (year t)\<rparr>"

definition cmostime :: "nat \<Rightarrow> ('a tstate_scheme, rtcdate) km" where
  "cmostime fuel =
     bnd (cmos_read 0x0b) (\<lambda>stb.
     bnd (cmostime_loop fuel) (\<lambda>t1.
     let t = (if stb AND 4 = 0 then conv_date t1 else t1) in
     ret (t\<lparr>year := year t + 2000\<rparr>)))"

definition sys_date :: "('a tstate_scheme, int) km" where
  "sys_date =
     bnd (argptr 0 24) (\<lambda>r.
     case r of None \<Rightarrow> ret (- 1)
     | Some p \<Rightarrow>
         bnd (cmostime (2 ^ 16)) (\<lambda>t.
         bnd (uputs p (words_bytes [second t, minute t, hour t, day t, month t, year t])) (\<lambda>_.
         ret 0)))"

section \<open>Dispatch\<close>

definition syscalls :: "nat \<Rightarrow> ('a tstate_scheme, int) km option" where
  "syscalls num =
     (if num = 1 then Some sys_fork
      else if num = 2 then Some sys_exit
      else if num = 3 then Some sys_wait
      else if num = 4 then Some sys_pipe
      else if num = 5 then Some sys_read
      else if num = 6 then Some sys_kill
      else if num = 7 then Some sys_exec
      else if num = 8 then Some sys_fstat
      else if num = 9 then Some sys_chdir
      else if num = 10 then Some sys_dup
      else if num = 11 then Some sys_getpid
      else if num = 12 then Some sys_sbrk
      else if num = 13 then Some sys_sleep
      else if num = 14 then Some sys_uptime
      else if num = 15 then Some sys_open
      else if num = 16 then Some sys_write
      else if num = 17 then Some sys_mknod
      else if num = 18 then Some sys_unlink
      else if num = 19 then Some sys_link
      else if num = 20 then Some sys_mkdir
      else if num = 21 then Some sys_close
      else if num = 22 then Some sys_date
      else if num = 23 then Some sys_dup2
      else None)"

definition NELEM_syscalls :: int where "NELEM_syscalls = 24"

text \<open>The trap frame is looked up again after the call: \<open>exec\<close> and \<open>fork\<close> leave it in place.\<close>

definition syscall :: "('a tstate_scheme, unit) km" where
  "syscall =
     bnd proc_tf (\<lambda>tf.
     bnd (ldw (tf + TF_EAX)) (\<lambda>eax.
     case (if sint eax > 0 \<and> sint eax < NELEM_syscalls then syscalls (unat eax) else None) of
       Some f \<Rightarrow>
         bnd f (\<lambda>r.
         bnd proc_tf (\<lambda>tf.
         stw (tf + TF_EAX) (word_of_int r)))
     | None \<Rightarrow>
         bnd myproc (\<lambda>p.
         bnd (proc_of p) (\<lambda>x.
         bnd (cprintf (''%d %s: unknown sys call %d'' @ [CHR 0x0A])
           [PInt (word_of_int (p_pid x)), PStr (Some (p_name x)), PInt eax]) (\<lambda>_.
         stw (p_tf x + TF_EAX) (- 1))))))"

section \<open>Traps\<close>

definition tvinit :: "('a tstate_scheme, unit) km" where
  "tvinit = initlock Lk_ticks ''time''"

definition T_SYSCALL :: u32 where "T_SYSCALL = 64"

definition T_IRQ0 :: u32 where "T_IRQ0 = 32"

text \<open>\<open>proc && proc->killed && (tf->cs&3) == DPL_USER\<close>\<close>

definition exit_if_killed :: "u32 \<Rightarrow> ('a tstate_scheme, unit) km" where
  "exit_if_killed tf =
     bnd (gets curproc) (\<lambda>c.
     case c of None \<Rightarrow> ret ()
     | Some p \<Rightarrow>
         bnd (proc_of p) (\<lambda>x.
         bnd (ldw (tf + TF_CS)) (\<lambda>cs.
         if p_killed x \<and> cs AND 3 = 3 then exit_proc else ret ())))"

definition trap_timer :: "('a tstate_scheme, unit) km" where
  "trap_timer =
     bnd (gets (\<lambda>s. cid (mcpu s))) (\<lambda>c.
     if c = 0 then
       bnd (acquire Lk_ticks) (\<lambda>_.
       bnd (upd (\<lambda>s. s\<lparr>ticks := ticks s + 1\<rparr>)) (\<lambda>_.
       bnd (wakeup ChTicks) (\<lambda>_.
       release Lk_ticks)))
     else ret ())"

definition trap_default :: "u32 \<Rightarrow> u32 \<Rightarrow> u32 \<Rightarrow> ('a tstate_scheme, unit) km" where
  "trap_default tf trapno cr2 =
     bnd (gets curproc) (\<lambda>c.
     bnd (gets (\<lambda>s. of_nat (cid (mcpu s)))) (\<lambda>me.
     bnd (ldw (tf + TF_CS)) (\<lambda>cs.
     bnd (ldw (tf + TF_EIP)) (\<lambda>eip.
     bnd (ldw (tf + 52)) (\<lambda>err.
     case (if cs AND 3 = 0 then None else c) of
       None \<Rightarrow>
         bnd (cprintf (''unexpected trap %d from cpu %d eip %x (cr2=0x%x)'' @ [CHR 0x0A])
           [PInt trapno, PInt me, PInt eip, PInt cr2]) (\<lambda>_.
         panic ''trap'')
     | Some p \<Rightarrow>
         bnd (proc_of p) (\<lambda>x.
         bnd (cprintf (''pid %d %s: trap %d err %d on cpu %d eip 0x%x addr 0x%x--kill proc'' @ [CHR 0x0A])
           [PInt (word_of_int (p_pid x)), PStr (Some (p_name x)), PInt trapno, PInt err, PInt me, PInt eip, PInt cr2]) (\<lambda>_.
         set_proc p (\<lambda>x. x\<lparr>p_killed := True\<rparr>))))))))"

text \<open>
  The handler for a trap frame at \<open>tf\<close>. \<open>keys\<close> are the characters the interrupting device delivers,
  \<open>cr2\<close> the faulting address. A timer interrupt gives up the CPU in \<open>yield\<close>; \<open>trap_resume\<close> is what follows
  when the process runs again.
\<close>

definition trap_device :: "u32 \<Rightarrow> u32 \<Rightarrow> u32 list \<Rightarrow> u32 \<Rightarrow> ('a tstate_scheme, unit) km" where
  "trap_device tf trapno keys cr2 =
     (if trapno = T_IRQ0 then trap_timer
      else if trapno = T_IRQ0 + 14 then ret ()
      else if trapno = T_IRQ0 + 15 then ret ()
      else if trapno = T_IRQ0 + 1 \<or> trapno = T_IRQ0 + 4 then consoleintr keys
      else if trapno = T_IRQ0 + 7 \<or> trapno = T_IRQ0 + 31 then
        bnd (ldw (tf + TF_CS)) (\<lambda>cs.
        bnd (ldw (tf + TF_EIP)) (\<lambda>eip.
        bnd (gets (\<lambda>s. of_nat (cid (mcpu s)))) (\<lambda>me.
        cprintf (''cpu%d: spurious interrupt at %x:%x'' @ [CHR 0x0A]) [PInt me, PInt (cs AND 0xffff), PInt eip])))
      else trap_default tf trapno cr2)"

definition trap_resume :: "u32 \<Rightarrow> bool \<Rightarrow> ('a tstate_scheme, unit) km" where
  "trap_resume tf ie = bnd (yield_resume ie) (\<lambda>_. exit_if_killed tf)"

definition trap :: "u32 \<Rightarrow> u32 list \<Rightarrow> u32 \<Rightarrow> ('a tstate_scheme, unit) km" where
  "trap tf keys cr2 =
     bnd (ldw (tf + TF_TRAPNO)) (\<lambda>trapno.
     if trapno = T_SYSCALL then
       bnd proc_killed (\<lambda>k.
       bnd (if k then exit_proc else ret ()) (\<lambda>_.
       bnd myproc (\<lambda>p.
       bnd (set_proc p (\<lambda>x. x\<lparr>p_tf := tf\<rparr>)) (\<lambda>_.
       bnd syscall (\<lambda>_.
       bnd proc_killed (\<lambda>k.
       if k then exit_proc else ret ()))))))
     else
       bnd (trap_device tf trapno keys cr2) (\<lambda>_.
       bnd (exit_if_killed tf) (\<lambda>_.
       bnd (gets (\<lambda>s. case curproc s of None \<Rightarrow> False | Some p \<Rightarrow> p_state (procs s ! p) = RUNNING)) (\<lambda>running.
       bnd (if running \<and> trapno = T_IRQ0 then yield else ret ()) (\<lambda>_.
       exit_if_killed tf)))))"

end
