(* ===== verification/Ulib.thy ===== *)
theory Ulib
  imports Printf
begin

text \<open>
  The user library (\<open>ulib.c\<close>) and the programs \<open>cat\<close>, \<open>wc\<close> and \<open>grep\<close>. Strings that are only read are lists of
  bytes without their terminator. What successive \<open>read\<close> calls deliver is a list of chunks, since a read
  may return fewer bytes than it asked for. After the chunks, \<open>read\<close> returns 0 or, when \<open>err\<close> is set, -1; then \<open>cat\<close>
  and \<open>wc\<close> report the error and exit, and \<open>grep\<close> stops as it does at the end of the file.
\<close>

section \<open>Library routines\<close>

fun ulib_strcmp :: "u8 list \<Rightarrow> u8 list \<Rightarrow> int" where
  "ulib_strcmp (p # ps) (q # qs) = (if p = q then ulib_strcmp ps qs else int (unat p) - int (unat q))"
| "ulib_strcmp (p # ps) [] = int (unat p)"
| "ulib_strcmp [] (q # qs) = - int (unat q)"
| "ulib_strcmp [] [] = 0"

fun strchr :: "u8 list \<Rightarrow> u8 \<Rightarrow> u8 list option" where
  "strchr [] c = None"
| "strchr (x # xs) c = (if x = c then Some (x # xs) else strchr xs c)"

text \<open>\<open>memmove\<close> of the user library copies upwards whatever the order of the regions.\<close>

definition ulib_memmove :: "mem \<Rightarrow> u32 \<Rightarrow> u32 \<Rightarrow> int \<Rightarrow> mem" where
  "ulib_memmove m vdst vsrc n = copy_up m vdst vsrc (nat n)"

fun atoi_loop :: "u32 \<Rightarrow> u8 list \<Rightarrow> u32" where
  "atoi_loop n [] = n"
| "atoi_loop n (c # cs) =
     (if sint (of_char CHR ''0'' :: u8) \<le> sint c \<and> sint c \<le> sint (of_char CHR ''9'' :: u8)
      then atoi_loop (n * 10 + scast c - of_char CHR ''0'') cs else n)"

definition atoi :: "u8 list \<Rightarrow> u32" where
  "atoi s = atoi_loop 0 s"

text \<open>\<open>gets\<close> on the bytes that standard input delivers: the line, and what is left of the input.\<close>

fun gets_loop :: "nat \<Rightarrow> u8 list \<Rightarrow> u8 list \<Rightarrow> u8 list \<times> u8 list" where
  "gets_loop 0 buf inp = (buf, inp)"
| "gets_loop (Suc k) buf [] = (buf, [])"
| "gets_loop (Suc k) buf (c # inp) =
     (if c = 10 \<or> c = 13 then (buf @ [c], inp) else gets_loop k (buf @ [c]) inp)"

definition ulib_gets :: "int \<Rightarrow> u8 list \<Rightarrow> u8 list \<times> u8 list" where
  "ulib_gets mx inp = gets_loop (nat (mx - 1)) [] inp"

section \<open>Reading in chunks\<close>

text \<open>A \<open>read\<close> of at most \<open>k\<close> bytes; the rest of a chunk that is too long stays for the next one.\<close>

fun read_chunk :: "nat \<Rightarrow> u8 list list \<Rightarrow> u8 list \<times> u8 list list" where
  "read_chunk k [] = ([], [])"
| "read_chunk k (c # cs) = (if length c \<le> k then (c, cs) else (take k c, drop k c # cs))"

lemma read_chunk_shorter:
  "read_chunk k cs = (n, cs') \<Longrightarrow> n \<noteq> [] \<Longrightarrow> length (concat cs') < length (concat cs)"
  by (cases cs) (auto split: if_splits)

lemma read_chunk_concat: "read_chunk k cs = (n, cs') \<Longrightarrow> n @ concat cs' = concat cs"
  by (cases cs) (auto split: if_splits)

section \<open>\<open>cat\<close>\<close>

function cat_loop :: "u8 list list \<Rightarrow> u8 list" where
  "cat_loop inp =
     (case read_chunk 512 inp of (n, inp') \<Rightarrow> if n \<noteq> [] then n @ cat_loop inp' else [])"
  by pat_completeness auto
termination
  by (relation "measure (\<lambda>inp. length (concat inp))") (auto dest: read_chunk_shorter [OF sym])

declare cat_loop.simps [simp del]

definition cat :: "u8 list list \<Rightarrow> bool \<Rightarrow> u8 list" where
  "cat inp err = cat_loop inp @ (if err then str ''cat: read error'' @ [10] else [])"

section \<open>\<open>wc\<close>\<close>

record wcstate =
  wc_l :: u32
  wc_w :: u32
  wc_c :: u32
  wc_inword :: bool

definition wc_char :: "wcstate \<Rightarrow> u8 \<Rightarrow> wcstate" where
  "wc_char s x =
     (let s = s\<lparr>wc_c := wc_c s + 1\<rparr>;
          s = (if x = 10 then s\<lparr>wc_l := wc_l s + 1\<rparr> else s)
      in if strchr [32, 13, 9, 10, 11] x \<noteq> None then s\<lparr>wc_inword := False\<rparr>
         else if \<not> wc_inword s then s\<lparr>wc_w := wc_w s + 1, wc_inword := True\<rparr>
         else s)"

function wc_loop :: "wcstate \<Rightarrow> u8 list list \<Rightarrow> wcstate" where
  "wc_loop s inp =
     (case read_chunk 512 inp of (n, inp') \<Rightarrow> if n \<noteq> [] then wc_loop (foldl wc_char s n) inp' else s)"
  by pat_completeness auto
termination
  by (relation "measure (\<lambda>(s, inp). length (concat inp))") (auto dest: read_chunk_shorter [OF sym])

declare wc_loop.simps [simp del]

definition wc :: "u8 list list \<Rightarrow> bool \<Rightarrow> u8 list \<Rightarrow> u8 list option" where
  "wc inp err name =
     (let s = wc_loop \<lparr>wc_l = 0, wc_w = 0, wc_c = 0, wc_inword = False\<rparr> inp
      in if err then printf (str ''wc: read error'' @ [10]) []
         else printf (str ''%d %d %d %s'' @ [10]) [PInt (wc_l s), PInt (wc_w s), PInt (wc_c s), PStr (Some name)])"

section \<open>\<open>grep\<close>\<close>

text \<open>
  The matcher. \<open>re\<close> and \<open>text\<close> without their terminators; a character of \<open>re\<close> beyond its end is the NUL
  byte, which is not an operator.
\<close>

definition at :: "u8 list \<Rightarrow> nat \<Rightarrow> u8" where
  "at s i = (if i < length s then s ! i else 0)"

text \<open>The codes of the operators \<open>*\<close>, \<open>.\<close>, \<open>$\<close> and \<open>^\<close>.\<close>

abbreviation star :: u8 where "star \<equiv> 42"

abbreviation dot :: u8 where "dot \<equiv> 46"

abbreviation dollar :: u8 where "dollar \<equiv> 36"

abbreviation caret :: u8 where "caret \<equiv> 94"

function (sequential) matchhere :: "u8 list \<Rightarrow> u8 list \<Rightarrow> bool"
  and matchstar :: "u8 \<Rightarrow> u8 list \<Rightarrow> u8 list \<Rightarrow> bool" where
  "matchhere re text =
     (if re = [] then True
      else if at re 1 = star then matchstar (re ! 0) (drop 2 re) text
      else if re ! 0 = dollar \<and> length re = 1 then text = []
      else if text \<noteq> [] \<and> (re ! 0 = dot \<or> re ! 0 = text ! 0) then matchhere (drop 1 re) (drop 1 text)
      else False)"
| "matchstar c re text =
     (if matchhere re text then True
      else if text \<noteq> [] \<and> (text ! 0 = c \<or> c = dot) then matchstar c re (drop 1 text)
      else False)"
  by pat_completeness auto
termination
  by (relation "measure (\<lambda>x. case x of Inl (re, text) \<Rightarrow> 2 * (length re + length text) | Inr (c, re, text) \<Rightarrow> 2 * (length re + length text) + 1)")
    (auto simp: neq_Nil_conv)

declare matchhere.simps [simp del] matchstar.simps [simp del]

fun match_from :: "u8 list \<Rightarrow> u8 list \<Rightarrow> bool" where
  "match_from re text =
     (if matchhere re text then True
      else case text of [] \<Rightarrow> False | _ # text' \<Rightarrow> match_from re text')"

definition match :: "u8 list \<Rightarrow> u8 list \<Rightarrow> bool" where
  "match re text = (if re \<noteq> [] \<and> re ! 0 = caret then matchhere (drop 1 re) text else match_from re text)"

text \<open>The inner loop of \<open>grep\<close>: the output, and the incomplete last line that is left in the buffer.\<close>

function grep_lines :: "u8 list \<Rightarrow> u8 list \<Rightarrow> u8 list \<times> u8 list" where
  "grep_lines pattern p =
     (case strchr p 10 of
        None \<Rightarrow> ([], p)
      | Some q \<Rightarrow>
          (let line = takeWhile (\<lambda>c. c \<noteq> 10) p; (out, rest) = grep_lines pattern (tl q)
           in ((if match pattern line then line @ [10] else []) @ out, rest)))"
  by pat_completeness auto
termination
proof (relation "measure (\<lambda>(pattern, p). length p)", goal_cases)
  case (2 pattern p q)
  have "strchr p 10 = Some q \<Longrightarrow> q \<noteq> [] \<and> length q \<le> length p"
    by (induction p) (auto split: if_splits)
  with 2 show ?case by (cases q) auto
qed simp

declare grep_lines.simps [simp del]

text \<open>
  The outer loop; \<open>pre\<close> are the \<open>m\<close> bytes kept from the last round. When the buffer has no line end in it,
  everything in it is dropped. The strings the loop works on end at the first NUL byte.
\<close>

definition cut :: "u8 list \<Rightarrow> u8 list" where
  "cut s = takeWhile (\<lambda>c. c \<noteq> 0) s"

function grep_loop :: "u8 list \<Rightarrow> u8 list \<Rightarrow> u8 list list \<Rightarrow> u8 list" where
  "grep_loop pattern pre inp =
     (case read_chunk (1024 - length pre - 1) inp of (n, inp') \<Rightarrow>
        if n \<noteq> [] then
          (let buf = pre @ n; (out, rest) = grep_lines pattern (cut buf); used = length (cut buf) - length rest
           in out @ grep_loop pattern (if used = 0 then [] else drop used buf) inp')
        else [])"
  by pat_completeness auto
termination
  by (relation "measure (\<lambda>(pattern, pre, inp). length (concat inp))") (auto dest: read_chunk_shorter [OF sym])

declare grep_loop.simps [simp del]

definition grep :: "u8 list \<Rightarrow> u8 list list \<Rightarrow> u8 list" where
  "grep pattern inp = grep_loop pattern [] inp"

end
