(* ===== verification/Ulib_Props.thy ===== *)
theory Ulib_Props
  imports Ulib
begin

text \<open>
  Properties of the user programs: the matcher of \<open>grep\<close> against a declarative reading of its patterns,
  the loops of \<open>grep\<close>, \<open>wc\<close> and \<open>cat\<close> over chunked input, and \<open>atoi\<close> and \<open>memmove\<close> of the user library.
\<close>

section \<open>The matcher\<close>

text \<open>What a pattern matches at the beginning of a text.\<close>

inductive matches_at :: "u8 list \<Rightarrow> u8 list \<Rightarrow> bool" where
  ma_end: "matches_at [] t"
| ma_star: "list_all (\<lambda>x. x = c \<or> c = dot) w \<Longrightarrow> matches_at re t \<Longrightarrow> matches_at (c # star # re) (w @ t)"
| ma_eol: "matches_at [dollar] []"
| ma_char: "at re 0 \<noteq> star \<Longrightarrow> \<not> (c = dollar \<and> re = []) \<Longrightarrow> c = dot \<or> c = x \<Longrightarrow> matches_at re t \<Longrightarrow>
    matches_at (c # re) (x # t)"

inductive_cases ma_starE: "matches_at (c # star # re) t"
inductive_cases ma_charE: "matches_at (c # re) t"

lemma ma_star_iff:
  "matches_at (c # star # re) t \<longleftrightarrow> (\<exists>w u. t = w @ u \<and> list_all (\<lambda>x. x = c \<or> c = dot) w \<and> matches_at re u)"
proof
  assume "matches_at (c # star # re) t"
  then show "\<exists>w u. t = w @ u \<and> list_all (\<lambda>x. x = c \<or> c = dot) w \<and> matches_at re u"
    by (rule ma_starE) (auto simp: at_def)
qed (auto intro: ma_star)

lemma ma_char_iff:
  assumes "at re 0 \<noteq> star" and "\<not> (c = dollar \<and> re = [])"
  shows "matches_at (c # re) t \<longleftrightarrow> (\<exists>x u. t = x # u \<and> (c = dot \<or> c = x) \<and> matches_at re u)"
proof
  assume "matches_at (c # re) t"
  then show "\<exists>x u. t = x # u \<and> (c = dot \<or> c = x) \<and> matches_at re u"
    by (rule ma_charE) (use assms in \<open>auto simp: at_def\<close>)
qed (use assms in \<open>auto intro: ma_char\<close>)

lemma ma_eol_iff: "matches_at [dollar] t \<longleftrightarrow> t = []"
  by (auto intro: ma_eol elim: ma_charE)

lemma matcher:
  "matchhere re tx \<longleftrightarrow> matches_at re tx"
  "matchstar c re tx \<longleftrightarrow> (\<exists>w u. tx = w @ u \<and> list_all (\<lambda>x. x = c \<or> c = dot) w \<and> matches_at re u)"
proof (induction re tx and c re tx rule: matchhere_matchstar.induct)
  case (1 re tx)
  show ?case
  proof (cases re)
    case Nil
    then show ?thesis by (simp add: matchhere.simps ma_end)
  next
    case (Cons c rs)
    show ?thesis
    proof (cases "at rs 0 = star")
      case True
      then obtain rs' where "rs = star # rs'" by (cases rs) (auto simp: at_def)
      with 1 Cons show ?thesis by (subst matchhere.simps) (simp add: at_def ma_star_iff)
    next
      case False
      then have a: "at re 1 \<noteq> star" using Cons by (auto simp: at_def)
      show ?thesis
      proof (cases "c = dollar \<and> rs = []")
        case True
        then show ?thesis using Cons by (subst matchhere.simps) (simp add: at_def ma_eol_iff)
      next
        case d: False
        then have l: "\<not> (re ! 0 = dollar \<and> length re = 1)" using Cons by auto
        show ?thesis
        proof (cases tx)
          case Nil
          then show ?thesis using Cons a l d ma_char_iff [OF False d] by (subst matchhere.simps) (simp)
        next
          case t: (Cons x xs)
          have "matchhere re tx \<longleftrightarrow> (c = dot \<or> c = x) \<and> matchhere rs xs"
            using Cons a l t by (subst matchhere.simps) auto
          moreover have "(c = dot \<or> c = x) \<Longrightarrow> matchhere rs xs \<longleftrightarrow> matches_at rs xs"
            using 1(2) Cons a l t by simp
          ultimately show ?thesis using ma_char_iff [OF False d, of tx] Cons t by auto
        qed
      qed
    qed
  qed
next
  case (2 c re tx)
  show ?case
  proof (cases "matchhere re tx")
    case True
    then have "matches_at re tx" using 2(1) by simp
    then show ?thesis using True by (subst matchstar.simps) (auto intro: exI [of _ "[]"])
  next
    case False
    then have nm: "\<not> matches_at re tx" using 2(1) by simp
    show ?thesis
    proof (cases "tx \<noteq> [] \<and> (tx ! 0 = c \<or> c = dot)")
      case True
      then obtain x xs where xs: "tx = x # xs" "x = c \<or> c = dot" by (cases tx) auto
      have "matchstar c re tx \<longleftrightarrow> (\<exists>w u. xs = w @ u \<and> list_all (\<lambda>x. x = c \<or> c = dot) w \<and> matches_at re u)"
        using 2(2) [OF False True] False True xs(1) by (subst matchstar.simps) simp
      also have "\<dots> \<longleftrightarrow> (\<exists>w u. tx = w @ u \<and> list_all (\<lambda>x. x = c \<or> c = dot) w \<and> matches_at re u)"
      proof
        assume "\<exists>w u. xs = w @ u \<and> list_all (\<lambda>x. x = c \<or> c = dot) w \<and> matches_at re u"
        then obtain w u where "xs = w @ u" "list_all (\<lambda>x. x = c \<or> c = dot) w" "matches_at re u" by blast
        then show "\<exists>w u. tx = w @ u \<and> list_all (\<lambda>x. x = c \<or> c = dot) w \<and> matches_at re u"
          using xs by (intro exI [of _ "x # w"] exI [of _ u]) simp
      next
        assume "\<exists>w u. tx = w @ u \<and> list_all (\<lambda>x. x = c \<or> c = dot) w \<and> matches_at re u"
        then obtain w u where w: "tx = w @ u" "list_all (\<lambda>x. x = c \<or> c = dot) w" "matches_at re u" by blast
        with nm obtain y w' where "w = y # w'" by (cases w) auto
        with w xs show "\<exists>w u. xs = w @ u \<and> list_all (\<lambda>x. x = c \<or> c = dot) w \<and> matches_at re u" by auto
      qed
      finally show ?thesis .
    next
      case n: False
      then have "\<not> matchstar c re tx" using False by (subst matchstar.simps) auto
      moreover have "\<not> (\<exists>w u. tx = w @ u \<and> list_all (\<lambda>x. x = c \<or> c = dot) w \<and> matches_at re u)"
      proof
        assume "\<exists>w u. tx = w @ u \<and> list_all (\<lambda>x. x = c \<or> c = dot) w \<and> matches_at re u"
        then obtain w u where w: "tx = w @ u" "list_all (\<lambda>x. x = c \<or> c = dot) w" "matches_at re u" by blast
        with nm obtain y w' where "w = y # w'" by (cases w) auto
        with w n show False by auto
      qed
      ultimately show ?thesis by blast
    qed
  qed
qed

lemma match_from_iff: "match_from re tx \<longleftrightarrow> (\<exists>u v. tx = u @ v \<and> matches_at re v)"
proof (induction tx)
  case Nil
  then show ?case by (simp add: matcher)
next
  case (Cons x xs)
  have "(\<exists>u v. x # xs = u @ v \<and> matches_at re v) \<longleftrightarrow> matches_at re (x # xs) \<or> (\<exists>u v. xs = u @ v \<and> matches_at re v)"
    by (metis Cons_eq_append_conv append_Nil)
  with Cons show ?case by (simp add: matcher)
qed

section \<open>Chunked input\<close>

lemma read_chunk_cons: "c \<noteq> [] \<Longrightarrow> 0 < k \<Longrightarrow>
  \<exists>n cs'. read_chunk k (c # cs) = (n, cs') \<and> n \<noteq> [] \<and> n @ concat cs' = c @ concat cs \<and> ([] \<notin> set cs \<longrightarrow> [] \<notin> set cs')"
  by auto

lemma wc_loop_foldl: "[] \<notin> set inp \<Longrightarrow> wc_loop s inp = foldl wc_char s (concat inp)"
proof (induction s inp rule: wc_loop.induct)
  case (1 s inp)
  show ?case
  proof (cases inp)
    case Nil
    then show ?thesis by (subst wc_loop.simps) simp
  next
    case (Cons c cs)
    with 1(2) have "c \<noteq> []" "[] \<notin> set cs" by auto
    then obtain n cs' where r: "read_chunk 512 inp = (n, cs')" "n \<noteq> []" "n @ concat cs' = concat inp" "[] \<notin> set cs'"
      using read_chunk_cons [of c 512 cs] Cons by auto
    then have "wc_loop s inp = foldl wc_char (foldl wc_char s n) (concat cs')"
      using 1(1) [OF r(1) [symmetric] r(2,4)] by (subst wc_loop.simps) simp
    then show ?thesis using r(3) by (metis foldl_append)
  qed
qed

lemma cat_loop_concat: "[] \<notin> set inp \<Longrightarrow> cat_loop inp = concat inp"
proof (induction inp rule: cat_loop.induct)
  case (1 inp)
  show ?case
  proof (cases inp)
    case Nil
    then show ?thesis by (subst cat_loop.simps) simp
  next
    case (Cons c cs)
    with 1(2) have "c \<noteq> []" "[] \<notin> set cs" by auto
    then obtain n cs' where r: "read_chunk 512 inp = (n, cs')" "n \<noteq> []" "n @ concat cs' = concat inp" "[] \<notin> set cs'"
      using read_chunk_cons [of c 512 cs] Cons by auto
    then show ?thesis
      using 1(1) [OF r(1) [symmetric] r(2,4)] by (subst cat_loop.simps) simp
  qed
qed

text \<open>The number of words: places where a character that is no blank follows a blank or the start.\<close>

definition blank :: "u8 \<Rightarrow> bool" where
  "blank x \<longleftrightarrow> x \<in> {32, 13, 9, 10, 11}"

definition word_starts :: "u8 list \<Rightarrow> nat set" where
  "word_starts xs = {i. i < length xs \<and> \<not> blank (xs ! i) \<and> (i = 0 \<or> blank (xs ! (i - 1)))}"

lemma word_starts_snoc:
  "word_starts (xs @ [x]) = (if \<not> blank x \<and> (xs = [] \<or> blank (last xs)) then insert (length xs) (word_starts xs) else word_starts xs)"
  by (cases "xs = []") (auto simp: word_starts_def nth_append last_conv_nth less_Suc_eq split: if_splits)

lemma finite_word_starts [simp]: "finite (word_starts xs)"
  by (rule finite_subset [of _ "{..<length xs}"]) (auto simp: word_starts_def)

lemma wc_counts:
  "foldl wc_char \<lparr>wc_l = 0, wc_w = 0, wc_c = 0, wc_inword = False\<rparr> xs =
     \<lparr>wc_l = of_nat (count_list xs 10), wc_w = of_nat (card (word_starts xs)), wc_c = of_nat (length xs),
      wc_inword = (xs \<noteq> [] \<and> \<not> blank (last xs))\<rparr>"
proof (induction xs rule: rev_induct)
  case Nil
  show ?case by (simp add: word_starts_def)
next
  case (snoc x xs)
  have b: "strchr [32, 13, 9, 10, 11] y = None \<longleftrightarrow> \<not> blank y" for y by (simp add: blank_def)
  have n: "length xs \<notin> word_starts xs" by (simp add: word_starts_def)
  have nl: "x = 10 \<Longrightarrow> blank x" by (simp add: blank_def)
  show ?case
    unfolding foldl_append snoc foldl.simps
    using n nl by (cases "blank x"; cases "x = 10"; cases "xs = [] \<or> blank (last xs)")
      (simp_all add: wc_char_def Let_def b word_starts_snoc del: strchr.simps)
qed

section \<open>Lines\<close>

function split_lines :: "u8 list \<Rightarrow> u8 list list" where
  "split_lines xs =
     (if 10 \<in> set xs then takeWhile (\<lambda>c. c \<noteq> 10) xs # split_lines (tl (dropWhile (\<lambda>c. c \<noteq> 10) xs)) else [])"
  by pat_completeness auto
termination
proof (relation "measure length", goal_cases)
  case (2 xs)
  then have "dropWhile (\<lambda>c. c \<noteq> 10) xs \<noteq> []" by (auto simp: dropWhile_eq_Nil_conv)
  moreover have "length (dropWhile (\<lambda>c. c \<noteq> 10) xs) \<le> length xs" by (rule length_dropWhile_le)
  ultimately show ?case by (cases "dropWhile (\<lambda>c. c \<noteq> 10) xs") auto
qed simp

declare split_lines.simps [simp del]

lemma strchr_dropWhile: "strchr xs c = (if c \<in> set xs then Some (dropWhile (\<lambda>x. x \<noteq> c) xs) else None)"
  by (induction xs) auto

text \<open>What follows the last line end.\<close>

definition unfinished :: "u8 list \<Rightarrow> u8 list" where
  "unfinished xs = rev (takeWhile (\<lambda>c. c \<noteq> 10) (rev xs))"

lemma unfinished_no_newline: "10 \<notin> set (unfinished xs)"
  by (auto simp: unfinished_def dest: set_takeWhileD)

lemma unfinished_all: "10 \<notin> set xs \<Longrightarrow> unfinished xs = xs"
proof -
  assume "10 \<notin> set xs"
  then have "takeWhile (\<lambda>c. c \<noteq> 10) (rev xs) = rev xs" by (subst takeWhile_eq_all_conv) auto
  then show ?thesis unfolding unfinished_def by (rule ssubst) simp
qed

lemma unfinished_append: "10 \<in> set ys \<Longrightarrow> unfinished (xs @ ys) = unfinished ys"
  by (simp add: unfinished_def takeWhile_append1)

lemma unfinished_le: "length (unfinished xs) \<le> length xs"
  by (simp add: unfinished_def length_takeWhile_le [of _ "rev xs", simplified])

lemma unfinished_less: "10 \<in> set xs \<Longrightarrow> length (unfinished xs) < length xs"
proof -
  assume "10 \<in> set xs"
  then have "takeWhile (\<lambda>c. c \<noteq> 10) (rev xs) \<noteq> rev xs" by (metis (mono_tags) set_rev set_takeWhileD)
  then show ?thesis
    using length_takeWhile_le [of "\<lambda>c. c \<noteq> 10" "rev xs"] takeWhile_eq_take [of "\<lambda>c. c \<noteq> 10" "rev xs"]
    by (metis le_neq_implies_less length_rev take_all_iff unfinished_def order_refl)
qed

lemma unfinished_suffix: "drop (length xs - length (unfinished xs)) xs = unfinished xs"
proof -
  have "xs = rev (dropWhile (\<lambda>c. c \<noteq> 10) (rev xs)) @ unfinished xs"
    unfolding unfinished_def by (metis rev_append rev_rev_ident takeWhile_dropWhile_id)
  then show ?thesis by (metis add_diff_cancel_right' append_eq_conv_conj length_append)
qed

lemma first_line: "10 \<in> set xs \<Longrightarrow>
  takeWhile (\<lambda>c. c \<noteq> 10) xs @ 10 # tl (dropWhile (\<lambda>c. c \<noteq> 10) xs) = (xs :: u8 list)"
  by (induction xs) auto

lemma unfinished_step: "10 \<in> set xs \<Longrightarrow> unfinished (tl (dropWhile (\<lambda>c. c \<noteq> 10) xs)) = unfinished xs"
proof -
  assume m: "10 \<in> set xs"
  let ?r = "tl (dropWhile (\<lambda>c. c \<noteq> 10) xs)"
  have "unfinished xs = unfinished (takeWhile (\<lambda>c. c \<noteq> 10) xs @ 10 # ?r)" by (simp add: first_line [OF m])
  also have "\<dots> = unfinished (10 # ?r)" by (rule unfinished_append) simp
  also have "\<dots> = unfinished ?r"
  proof (cases "10 \<in> set ?r")
    case True
    then show ?thesis using unfinished_append [of ?r "[10]"] by simp
  next
    case False
    then have "takeWhile (\<lambda>c. c \<noteq> 10) (rev (10 # ?r)) = rev ?r"
      unfolding rev.simps by (subst takeWhile_append2) auto
    then have "unfinished (10 # ?r) = ?r" unfolding unfinished_def by (rule ssubst) simp
    then show ?thesis by (simp only: unfinished_all [OF False])
  qed
  finally show ?thesis by simp
qed

lemma split_append: "split_lines (xs @ ys) = split_lines xs @ split_lines (unfinished xs @ ys)"
proof (induction xs rule: split_lines.induct)
  case (1 xs)
  show ?case
  proof (cases "10 \<in> set xs")
    case False
    then show ?thesis by (subst (2) split_lines.simps) (simp add: unfinished_all)
  next
    case True
    let ?r = "tl (dropWhile (\<lambda>c. c \<noteq> 10) xs)"
    have ne: "dropWhile (\<lambda>c. c \<noteq> 10) xs \<noteq> []" using True by (auto simp: dropWhile_eq_Nil_conv)
    have "split_lines (xs @ ys) = takeWhile (\<lambda>c. c \<noteq> 10) xs # split_lines (?r @ ys)"
      using True ne by (subst split_lines.simps) (auto simp: takeWhile_append1 dropWhile_append1)
    moreover have "split_lines xs = takeWhile (\<lambda>c. c \<noteq> 10) xs # split_lines ?r"
      using True by (subst split_lines.simps) simp
    ultimately show ?thesis using 1 [OF True] by (simp add: unfinished_step [OF True])
  qed
qed

definition matching_lines :: "u8 list \<Rightarrow> u8 list \<Rightarrow> u8 list" where
  "matching_lines pat xs = concat (map (\<lambda>l. l @ [10]) (filter (match pat) (split_lines xs)))"

lemma grep_lines_split: "grep_lines pat xs = (matching_lines pat xs, unfinished xs)"
proof (induction xs rule: split_lines.induct)
  case (1 xs)
  show ?case
  proof (cases "10 \<in> set xs")
    case False
    then show ?thesis
      by (subst grep_lines.simps) (simp add: strchr_dropWhile unfinished_all matching_lines_def split_lines.simps [of xs])
  next
    case True
    then show ?thesis using 1 [OF True] unfinished_step [OF True]
      by (subst grep_lines.simps)
        (simp add: strchr_dropWhile Let_def matching_lines_def split_lines.simps [of xs])
  qed
qed

lemma matching_append: "matching_lines pat (xs @ ys) = matching_lines pat xs @ matching_lines pat (unfinished xs @ ys)"
  by (simp add: matching_lines_def split_append [of xs ys])

lemma grep_loop_lines:
  "10 \<notin> set pre \<Longrightarrow> length pre \<le> 511 \<Longrightarrow> 0 \<notin> set pre \<Longrightarrow>
   (\<And>c. c \<in> set inp \<Longrightarrow> 10 \<in> set c \<and> 0 \<notin> set c \<and> length c \<le> 512) \<Longrightarrow>
   grep_loop pat pre inp = matching_lines pat (pre @ concat inp)"
proof (induction inp arbitrary: pre)
  case Nil
  then show ?case by (subst grep_loop.simps) (simp add: matching_lines_def split_lines.simps [of pre])
next
  case (Cons c cs)
  have c: "10 \<in> set c" "0 \<notin> set c" "length c \<le> 512" using Cons.prems(4) by auto
  have ct: "cut (pre @ c) = pre @ c" using c Cons.prems(3) by (auto simp: cut_def takeWhile_eq_all_conv)
  have rd: "read_chunk (1024 - length pre - 1) (c # cs) = (c, cs)" using c Cons.prems(2) by auto
  have u: "unfinished (pre @ c) = unfinished c" by (rule unfinished_append [OF c(1)])
  have l: "length (unfinished c) < length c" by (rule unfinished_less [OF c(1)])
  have d: "drop (length (pre @ c) - length (unfinished c)) (pre @ c) = unfinished c"
    using unfinished_suffix [of "pre @ c"] u by simp
  have z: "0 \<notin> set (unfinished c)" using c(2) by (auto simp: unfinished_def dest: set_takeWhileD)
  have "grep_loop pat pre (c # cs) = matching_lines pat (pre @ c) @ grep_loop pat (unfinished c) cs"
    using c(1) l d unfolding grep_loop.simps [of pat pre "c # cs"] rd by (auto simp: ct grep_lines_split u)
  also have "grep_loop pat (unfinished c) cs = matching_lines pat (unfinished c @ concat cs)"
  proof (rule Cons.IH)
    show "length (unfinished c) \<le> 511" using l c(3) by linarith
  qed (use Cons.prems(4) z in \<open>auto simp: unfinished_no_newline\<close>)
  finally show ?case using matching_append [of pat "pre @ c" "concat cs"] u by simp
qed

text \<open>A regular file is one long piece: every read fills the buffer, as long as there is enough of the file left.\<close>

lemma unfinished_set: "set (unfinished xs) \<subseteq> set xs"
  by (auto simp: unfinished_def dest: set_takeWhileD)

lemma matching_none: "10 \<notin> set xs \<Longrightarrow> matching_lines pat xs = []"
  by (simp add: matching_lines_def split_lines.simps [of xs])

lemma grep_loop_end: "grep_loop pat pre [] = []" "grep_loop pat pre [[]] = []"
  by (simp_all add: grep_loop.simps)

lemma line_in_buffer:
  assumes "\<And>l. l \<in> set (split_lines xs) \<Longrightarrow> length l < k" and "10 \<in> set xs"
  shows "10 \<in> set (take k xs)"
proof -
  let ?l = "takeWhile (\<lambda>c. c \<noteq> 10) xs" and ?r = "tl (dropWhile (\<lambda>c. c \<noteq> 10) xs)"
  have "?l \<in> set (split_lines xs)" unfolding split_lines.simps [of xs] using assms(2) by simp
  then have "take k (?l @ 10 # ?r) = ?l @ 10 # take (k - length ?l - 1) ?r"
    using assms(1) [of ?l] by (simp add: take_Cons')
  then have "take k xs = ?l @ 10 # take (k - length ?l - 1) ?r" unfolding first_line [OF assms(2)] .
  then show ?thesis by simp
qed

lemma grep_loop_file:
  "10 \<notin> set pre \<Longrightarrow> length pre \<le> 1022 \<Longrightarrow> 0 \<notin> set (pre @ data) \<Longrightarrow>
   (\<And>l. l \<in> set (split_lines (pre @ data)) \<Longrightarrow> length l < 1023) \<Longrightarrow>
   grep_loop pat pre [data] = matching_lines pat (pre @ data)"
proof (induction "length data" arbitrary: pre data rule: less_induct)
  case less
  show ?case
  proof (cases "data = []")
    case True
    then show ?thesis using less.prems(1) by (simp add: grep_loop_end matching_none)
  next
    case False
    define k where "k = 1024 - length pre - 1"
    define n where "n = take k data"
    define d where "d = drop k data"
    have k: "0 < k" "length pre + k = 1023" using less.prems(2) by (auto simp: k_def)
    have data: "data = n @ d" "length d < length data" "n \<noteq> []" using False k(1) by (auto simp: n_def d_def)
    have buf: "pre @ n = take 1023 (pre @ data)" using k(2) by (simp add: n_def k_def)
    have ct: "cut (pre @ n) = pre @ n" using less.prems(3) data(1) by (auto simp: cut_def takeWhile_eq_all_conv)
    have inp: "\<exists>inp. read_chunk k [data] = (n, inp) \<and> (\<forall>q. grep_loop pat q inp = grep_loop pat q [d])"
      by (auto simp: n_def d_def grep_loop_end)
    have step: "grep_loop pat pre [data] = matching_lines pat (pre @ n)
        @ grep_loop pat (if 10 \<in> set (pre @ n) then unfinished (pre @ n) else []) [d]"
    proof -
      obtain inp where i: "read_chunk k [data] = (n, inp)" "\<And>q. grep_loop pat q inp = grep_loop pat q [d]" using inp by blast
      let ?u = "length (pre @ n) - length (unfinished (pre @ n))"
      have u: "(if ?u = 0 then [] else drop ?u (pre @ n)) = (if 10 \<in> set (pre @ n) then unfinished (pre @ n) else [])"
        using unfinished_less [of "pre @ n"] unfinished_suffix [of "pre @ n"] unfinished_all [of "pre @ n"]
        by (cases "10 \<in> set (pre @ n)") auto
      show ?thesis unfolding grep_loop.simps [of pat pre "[data]"] k_def [symmetric] i(1) ct
        by (simp only: grep_lines_split prod.case Let_def data(3) if_True not_False_eq_True ct u i(2))
    qed
    show ?thesis
    proof (cases "10 \<in> set (pre @ n)")
      case True
      have e: "split_lines (pre @ data) = split_lines (pre @ n) @ split_lines (unfinished (pre @ n) @ d)"
        using split_append [of "pre @ n" d] data(1) by simp
      have "grep_loop pat (unfinished (pre @ n)) [d] = matching_lines pat (unfinished (pre @ n) @ d)"
      proof (rule less.hyps [OF data(2)])
        show "length (unfinished (pre @ n)) \<le> 1022" using unfinished_less [OF True] buf by simp
        show "0 \<notin> set (unfinished (pre @ n) @ d)" using less.prems(3) data(1) unfinished_set [of "pre @ n"] by auto
        show "length l < 1023" if "l \<in> set (split_lines (unfinished (pre @ n) @ d))" for l using less.prems(4) [of l] that e by simp
      qed (rule unfinished_no_newline)
      then show ?thesis using step True matching_append [of pat "pre @ n" d] data(1) by simp
    next
      case False
      have none: "10 \<notin> set (pre @ data)" using line_in_buffer [OF less.prems(4)] False buf by metis
      have "grep_loop pat [] [d] = matching_lines pat ([] @ d)"
        by (rule less.hyps [OF data(2)]) (use less.prems(3) none data(1) in \<open>auto simp: split_lines.simps [of d]\<close>)
      then show ?thesis using step False none data(1) by (simp add: matching_none)
    qed
  qed
qed

section \<open>Numbers\<close>

lemma digit_read: "d < 10 \<Longrightarrow>
  sint (48 :: u8) \<le> sint (48 + of_nat d :: u8) \<and> sint (48 + of_nat d :: u8) \<le> sint (57 :: u8)
  \<and> scast (48 + of_nat d :: u8) = (48 + of_nat d :: u32)"
  by (auto simp: less_Suc_eq numeral_eq_Suc)

lemma atoi_digits:
  "set ds \<subseteq> {..<10} \<Longrightarrow>
   atoi_loop (of_nat n) (map (\<lambda>d. of_char CHR ''0'' + of_nat d) ds) = of_nat (foldl (\<lambda>n d. 10 * n + d) n ds)"
proof (induction ds arbitrary: n)
  case (Cons d ds)
  have "atoi_loop (of_nat n) (map (\<lambda>d. of_char CHR ''0'' + of_nat d) (d # ds)) =
      atoi_loop (of_nat (10 * n + d)) (map (\<lambda>d. of_char CHR ''0'' + of_nat d) ds)"
    using digit_read [of d] Cons.prems by (simp add: algebra_simps)
  also have "\<dots> = of_nat (foldl (\<lambda>n d. 10 * n + d) (10 * n + d) ds)"
    by (rule Cons.IH) (use Cons.prems in simp)
  finally show ?case by (simp only: foldl.simps)
qed simp

lemma printint_nonneg: "\<not> sint x < 0 \<Longrightarrow>
  printint x 10 True = map (\<lambda>d. of_char CHR ''0'' + of_nat d) (rev (rdigits 10 (unat x)))"
proof -
  assume n: "\<not> sint x < 0"
  have "map (\<lambda>d. str ''0123456789ABCDEF'' ! d) (rdigits 10 (unat x)) = map (\<lambda>d. of_char CHR ''0'' + of_nat d) (rdigits 10 (unat x))"
    using rdigits_less [of 10 _ "unat x"] digit_char by (intro map_cong) auto
  then show ?thesis using n by (simp add: printint_def printint_buf_def rev_map)
qed

section \<open>Properties\<close>

text \<open>
  C34. The matcher of \<open>grep\<close> decides the language it documents: \<open>c*\<close> any number of \<open>c\<close>, \<open>.\<close> any character, a
  final \<open>$\<close> the end of the line, a leading \<open>^\<close> the beginning, and every other character itself; without
  \<open>^\<close> the pattern may match anywhere.
\<close>

theorem match_spec:
  "match re text \<longleftrightarrow>
     (if re \<noteq> [] \<and> re ! 0 = caret then matches_at (drop 1 re) text
      else \<exists>u v. text = u @ v \<and> matches_at re v)"
  by (simp add: match_def matcher match_from_iff del: match_from.simps)

text \<open>
  C36. \<open>grep\<close> over input that arrives in pieces: when every piece holds a line end, no NUL and at most half
  a buffer, the output is the matching lines of the whole input, in order, however lines are spread over
  the pieces.
\<close>

theorem grep_lines_across_reads:
  assumes "\<forall>c \<in> set inp. 10 \<in> set c \<and> 0 \<notin> set c \<and> length c \<le> 512"
  shows "grep pat inp = concat (map (\<lambda>l. l @ [10]) (filter (match pat) (split_lines (concat inp))))"
  using grep_loop_lines [of "[]" inp pat] assms by (simp add: grep_def matching_lines_def)

lemma grep_lines_across_reads_witness:
  "grep (str ''b'') [str ''a'' @ [10] @ str ''b'', str ''c'' @ [10]] =
   concat (map (\<lambda>l. l @ [10]) (filter (match (str ''b'')) (split_lines (concat [str ''a'' @ [10] @ str ''b'', str ''c'' @ [10]]))))"
  by (rule grep_lines_across_reads) simp

text \<open>
  C35. \<open>grep\<close> of a regular file, whose reads fill the buffer: when no line has more than 1022 bytes and the file has no NUL,
  the output is the matching lines of the file, in order, whatever the size of the file. What follows the last line
  end is not searched.
\<close>

theorem grep_regular_file:
  assumes "0 \<notin> set data" and "\<forall>l \<in> set (split_lines data). length l \<le> 1022"
  shows "grep pat [data] = concat (map (\<lambda>l. l @ [10]) (filter (match pat) (split_lines data)))"
  unfolding grep_def using grep_loop_file [of "[]" data pat] assms by (fastforce simp: matching_lines_def)

lemma grep_regular_file_witness:
  "grep (str ''b'') [concat (replicate 1000 (str ''ab'' @ [10]))] =
   concat (map (\<lambda>l. l @ [10]) (filter (match (str ''b'')) (split_lines (concat (replicate 1000 (str ''ab'' @ [10]))))))"
proof -
  have s: "split_lines (concat (replicate n (str ''ab'' @ [10]))) = replicate n (str ''ab'')" for n
    by (induction n) (simp_all add: split_lines.simps)
  have "grep (str ''b'') [concat (replicate n (str ''ab'' @ [10]))] =
    concat (map (\<lambda>l. l @ [10]) (filter (match (str ''b'')) (split_lines (concat (replicate n (str ''ab'' @ [10]))))))" for n
    by (rule grep_regular_file) (unfold s, auto)
  then show ?thesis .
qed

text \<open>
  C37. A piece without a line end is lost: \<open>grep\<close> then forgets what it has in its buffer, so a line whose
  first part arrives alone is searched without that part.
\<close>

theorem grep_drops_partial_line:
  assumes "10 \<notin> set c" and "0 \<notin> set c" and "c \<noteq> []" and "length c \<le> 1023"
  shows "grep pat (c # inp) = grep pat inp"
proof -
  have "cut c = c" using assms(2) by (auto simp: cut_def takeWhile_eq_all_conv)
  moreover have "matching_lines pat c = []" using assms(1) by (simp add: matching_lines_def split_lines.simps [of c])
  ultimately show ?thesis
    unfolding grep_def using assms by (subst grep_loop.simps) (simp add: grep_lines_split unfinished_all)
qed

lemma grep_drops_partial_line_witness:
  "grep (str ''abc'') [str ''ab'', str ''c'' @ [10]] = grep (str ''abc'') [str ''c'' @ [10]]"
  by (rule grep_drops_partial_line) simp_all

text \<open>
  C38. \<open>wc\<close> prints the number of line ends, of words (maximal runs without blanks) and of bytes of the whole
  input, modulo \<open>2^32\<close>, whatever pieces the input arrives in.
\<close>

theorem wc_counts_input:
  assumes "[] \<notin> set inp"
  shows "wc inp False name =
     printf (str ''%d %d %d %s'' @ [10])
       [PInt (of_nat (count_list (concat inp) 10)), PInt (of_nat (card (word_starts (concat inp)))),
        PInt (of_nat (length (concat inp))), PStr (Some name)]"
  using assms by (simp add: wc_def wc_loop_foldl wc_counts Let_def del: str_simps)

lemma wc_counts_input_witness:
  "wc [str ''a b'', str ''c'' @ [10]] False (str ''f'') =
     printf (str ''%d %d %d %s'' @ [10])
       [PInt (of_nat (count_list (concat [str ''a b'', str ''c'' @ [10]]) 10)),
        PInt (of_nat (card (word_starts (concat [str ''a b'', str ''c'' @ [10]])))),
        PInt (of_nat (length (concat [str ''a b'', str ''c'' @ [10]]))), PStr (Some (str ''f''))]"
  by (rule wc_counts_input) simp

text \<open>
  C39. \<open>atoi\<close> reads back what \<open>printf\<close> prints with \<open>%d\<close> for every number that is not negative. For a negative number it
  returns 0, since it stops at the sign.
\<close>

theorem atoi_printint: "atoi (printint x 10 True) = (if sint x < 0 then 0 else x)"
proof (cases "sint x < 0")
  case True
  then have "\<exists>ys. printint x 10 True = of_char CHR ''-'' # ys" by (simp add: printint_def printint_buf_def Let_def)
  then show ?thesis using True by (auto simp: atoi_def)
next
  case False
  let ?r = "rev (rdigits 10 (unat x))"
  have "set ?r \<subseteq> {..<10}" using rdigits_less [of 10 _ "unat x"] by auto
  then have "atoi_loop (of_nat 0) (map (\<lambda>d. of_char CHR ''0'' + of_nat d) ?r) = of_nat (foldl (\<lambda>n d. 10 * n + d) 0 ?r)"
    by (rule atoi_digits)
  also have "\<dots> = x" by (simp add: foldl_rvalue rvalue_rdigits del: foldl_append)
  finally show ?thesis using False by (simp add: atoi_def printint_nonneg)
qed

end
