(* ===== verification/Ring.thy ===== *)
theory Ring
  imports Prelude
begin

text \<open>
  Ring buffers as the pipe and the console input use them: an array of \<open>N\<close> entries and two counters that only
  grow, wrap around at \<open>2^32\<close> and are reduced modulo \<open>N\<close> on access. As \<open>N\<close> divides \<open>2^32\<close>, the ring is the list of
  the entries between the counters.
\<close>

definition ring_items :: "nat \<Rightarrow> 'e list \<Rightarrow> u32 \<Rightarrow> u32 \<Rightarrow> 'e list" where
  "ring_items N d r w = map (\<lambda>k. d ! ((unat r + k) mod N)) [0..<unat (w - r)]"

definition ring_size :: "nat \<Rightarrow> bool" where
  "ring_size N \<longleftrightarrow> N dvd 2 ^ 32 \<and> 0 < N \<and> N < 2 ^ 32"

lemma length_ring [simp]: "length (ring_items N d r w) = unat (w - r)"
  by (simp add: ring_items_def)

lemma ring_empty [simp]: "ring_items N d r r = []"
  by (simp add: ring_items_def)

lemma ring_eq_Nil: "ring_items N d r w = [] \<longleftrightarrow> r = w"
  by (auto simp: ring_items_def unat_eq_zero)

lemma nth_ring: "k < unat (w - r) \<Longrightarrow> ring_items N d r w ! k = d ! ((unat r + k) mod N)"
  by (simp add: ring_items_def)

lemma ring_mod:
  assumes "ring_size N"
  shows "unat (a + b :: u32) mod N = (unat a + unat b) mod N"
proof -
  have "(unat a + unat b) mod 2 ^ 32 mod N = (unat a + unat b) mod N"
    using assms by (intro mod_mod_cancel) (simp add: ring_size_def)
  then show ?thesis by (simp add: unat_word_ariths)
qed

lemma ring_slot_neq: "k < l \<Longrightarrow> l < N \<Longrightarrow> (a + k) mod N \<noteq> (a + l) mod (N::nat)"
proof
  assume k: "k < l" "l < N" and e: "(a + k) mod N = (a + l) mod N"
  then have "(a + l - (a + k)) mod N = 0" by (intro mod_eq_dvd_iff_nat [THEN iffD1, THEN dvd_imp_mod_0]) auto
  with k show False by simp
qed

lemma unat_Suc_diff: "unat (w - r :: u32) < N \<Longrightarrow> N < 2 ^ 32 \<Longrightarrow> unat (w + 1 - r) = Suc (unat (w - r))"
proof -
  assume l: "unat (w - r) < N" "N < 2 ^ 32"
  have "unat ((w - r) + 1) = Suc (unat (w - r))" using l by (simp add: unat_word_ariths)
  moreover have "w + 1 - r = (w - r) + 1" by simp
  ultimately show ?thesis by (simp only:)
qed

lemma unat_pred_diff: "w \<noteq> r \<Longrightarrow> unat (w - r :: u32) = Suc (unat (w - r - 1))"
proof -
  assume "w \<noteq> r"
  then have nz: "w - r \<noteq> 0" by simp
  then have "unat (w - r) \<noteq> 0" by (metis unat_eq_zero)
  with unat_minus_one [OF nz] show ?thesis by simp
qed

lemma ring_last:
  fixes r w :: u32
  assumes "ring_size N" and "w \<noteq> r"
  shows "unat (w - 1) mod N = (unat r + unat (w - r - 1)) mod N"
  using ring_mod [OF assms(1), of r "w - r - 1"] by simp

lemma ring_put:
  assumes "ring_size N" and "length d = N" and "unat (w - r) < N"
  shows "ring_items N (d[unat w mod N := c]) r (w + 1) = ring_items N d r w @ [c]"
proof -
  define l where "l = unat (w - r)"
  have l: "l < N" using assms(3) by (simp add: l_def)
  have u: "unat (w + 1 - r) = Suc l"
    using unat_Suc_diff [OF assms(3)] assms(1) by (simp add: ring_size_def l_def)
  have w: "unat w mod N = (unat r + l) mod N" using ring_mod [OF assms(1), of r "w - r"] by (simp add: l_def)
  have "(unat r + l) mod N \<noteq> (unat r + k) mod N" if "k < l" for k
    using ring_slot_neq [OF that l, of "unat r"] by (rule not_sym)
  then show ?thesis using l assms(2) by (auto simp: ring_items_def u w l_def [symmetric] nth_update_if)
qed

lemma ring_put_other:
  assumes "ring_size N" and "unat (m - r) \<le> unat (w - r)" and "unat (w - r) < N"
  shows "ring_items N (d[unat w mod N := c]) r m = ring_items N d r m"
proof -
  have w: "unat w mod N = (unat r + unat (w - r)) mod N" using ring_mod [OF assms(1), of r "w - r"] by simp
  have "(unat r + unat (w - r)) mod N \<noteq> (unat r + k) mod N" if "k < unat (m - r)" for k
  proof (rule not_sym, rule ring_slot_neq)
    show "k < unat (w - r)" using that assms(2) by (rule order_less_le_trans)
  qed (rule assms(3))
  then show ?thesis by (auto simp: ring_items_def w nth_update_if)
qed

lemma ring_take:
  "unat (m - r) \<le> unat (w - r) \<Longrightarrow> take (unat (m - r)) (ring_items N d r w) = ring_items N d r m"
  by (simp add: ring_items_def take_map)

lemma ring_drop1:
  assumes "ring_size N" and "w \<noteq> r"
  shows "ring_items N d r w = d ! (unat r mod N) # ring_items N d (r + 1) w"
proof -
  define l where "l = unat (w - (r + 1))"
  have "w - (r + 1) = w - r - 1" by (simp add: algebra_simps)
  then have u: "unat (w - r) = Suc l" using unat_pred_diff [OF assms(2)] by (simp only: l_def)
  have m: "(unat (r + 1) + k) mod N = (unat r + Suc k) mod N" for k
  proof -
    have "unat (r + 1) mod N = (unat r + 1) mod N" using ring_mod [OF assms(1), of r 1] by simp
    then have "(unat (r + 1) + k) mod N = (unat r + 1 + k) mod N" by (rule mod_add_cong) simp
    then show ?thesis by (simp only: add.assoc plus_1_eq_Suc)
  qed
  show ?thesis
    unfolding ring_items_def u upt_conv_Cons [OF zero_less_Suc] map_Suc_upt [symmetric]
    by (simp add: l_def [symmetric] m)
qed

lemma ring_unput:
  assumes "w \<noteq> r"
  shows "ring_items N d r (w - 1) = butlast (ring_items N d r w)"
proof -
  have "w - 1 - r = w - r - 1" by simp
  then have "unat (w - 1 - r) = unat (w - r - 1)" by (simp only:)
  then show ?thesis using unat_pred_diff [OF assms] by (simp add: ring_items_def)
qed

lemma last_ring:
  assumes "ring_size N" and "w \<noteq> r"
  shows "d ! (unat (w - 1) mod N) = last (ring_items N d r w)"
  using ring_last [OF assms] unat_pred_diff [OF assms(2)] by (simp add: ring_items_def)

end
