(* ===== verification/Sample.thy ===== *)
theory Sample
  imports Trap Log_Props
begin

text \<open>
  A concrete kernel state, on which the properties of the upper layers are shown to apply: one running
  process, an idle buffer cache over the empty image, no open transaction, empty tables.
\<close>

definition inode0 :: inode where
  "inode0 = \<lparr>i_dev = 0, i_inum = 0, i_ref = 0, i_flags = 0, i_type = 0, i_major = 0, i_minor = 0, i_nlink = 0,
     i_size = 0, i_addrs = replicate 13 0\<rparr>"

definition kern0 :: tstate where
  "kern0 = \<lparr>mcpu = \<lparr>cid = 0, iflag = True, ncli = 0, intena = True\<rparr>,
     mlocks = \<lambda>_. \<lparr>locked = 0, lkname = [], lkcpu = None\<rparr>,
     kmem_bytes = \<lambda>_. 0, kend = 0x80100000, use_lock = True, freelist = 0,
     procs = [proc0], curproc = Some 0, initproc = Some 0, nextpid = 2,
     memdisk = image0, disksize = 100, dwrites = [], bufs = idle_bufs, lg = log0 (head0 0 0) 0,
     sb = sb_of (image0 1), icache = replicate NINODE inode0,
     devsws = [], cons_locking = True, panicked = False, uart = True, uart_out = [], crt_pos = 0,
     in_buf = replicate INPUT_BUF 0, in_r = 0, in_w = 0, in_e = 0,
     pipes = (\<lambda>_. None), ftable = [], kpgdir = 0, cr3 = 0, ts_esp0 = 0, kdata = 0x80110000,
     ticks = 0, sym_trapret = 0, sym_forkret = 0, initcode = [], forkret_first = True,
     cmos_reads = 0, cmos_chip = (\<lambda>_ _. 0)\<rparr>"

lemma kern0_sel [simp]:
  "no_locks kern0" "ncli (mcpu kern0) = 0" "curproc kern0 = Some 0" "procs kern0 = [proc0]" "nextpid kern0 = 2"
  "memdisk kern0 = image0" "disksize kern0 = 100" "bufs kern0 = idle_bufs" "lg kern0 = log0 (head0 0 0) 0"
  "icache kern0 = replicate NINODE inode0" "in_buf kern0 = replicate INPUT_BUF 0"
  "in_r kern0 = 0" "in_w kern0 = 0" "in_e kern0 = 0" "ftable kern0 = []"
  by (simp_all add: kern0_def no_locks_def cli_ok_def lk_free_def del: no_locks_free no_locks_cli)

end
