(* ===== verification/Pipe_Props.thy ===== *)
theory Pipe_Props
  imports Pipe Ring Sample
begin

text \<open>
  Properties of pipes. The ring with its two wrapping counters implements a bounded queue of bytes: the
  contract of such a queue is a locale, and what follows from it is shown there once.
\<close>

section \<open>Bounded queues\<close>

locale bounded_queue =
  fixes inv :: "'q \<Rightarrow> bool" and items :: "'q \<Rightarrow> 'e list" and cap :: nat
    and put :: "'e \<Rightarrow> 'q \<Rightarrow> 'q" and front :: "'q \<Rightarrow> 'e" and pop :: "'q \<Rightarrow> 'q"
  assumes cap: "inv q \<Longrightarrow> length (items q) \<le> cap"
    and inv_put: "inv q \<Longrightarrow> length (items q) < cap \<Longrightarrow> inv (put e q)"
    and items_put: "inv q \<Longrightarrow> length (items q) < cap \<Longrightarrow> items (put e q) = items q @ [e]"
    and inv_pop: "inv q \<Longrightarrow> items q \<noteq> [] \<Longrightarrow> inv (pop q)"
    and items_pop: "inv q \<Longrightarrow> items q \<noteq> [] \<Longrightarrow> items q = front q # items (pop q)"
begin

lemma put_many:
  "inv q \<Longrightarrow> length (items q) + length es \<le> cap \<Longrightarrow> inv (fold put es q) \<and> items (fold put es q) = items q @ es"
proof (induction es arbitrary: q)
  case (Cons e es)
  have "inv (put e q)" "items (put e q) = items q @ [e]" using Cons.prems by (simp_all add: inv_put items_put)
  with Cons.IH [of "put e q"] Cons.prems(2) show ?case by simp
qed simp

lemma pop_many:
  "inv q \<Longrightarrow> n \<le> length (items q) \<Longrightarrow> inv ((pop ^^ n) q) \<and> items ((pop ^^ n) q) = drop n (items q)"
proof (induction n arbitrary: q)
  case (Suc n)
  have ne: "items q \<noteq> []" using Suc.prems(2) by auto
  have "inv (pop q)" "items q = front q # items (pop q)" using Suc.prems(1) ne inv_pop items_pop by blast+
  with Suc.IH [of "pop q"] Suc.prems(2) show ?case
    by (metis Suc_le_mono drop_Suc_Cons funpow_swap1 funpow.simps(2) comp_apply length_Cons)
qed simp

end

section \<open>The ring of a pipe\<close>

definition pipe_items :: "pipe \<Rightarrow> u8 list" where
  "pipe_items x = ring_items PIPESIZE (pp_data x) (pp_nread x) (pp_nwrite x)"

definition pipe_inv :: "pipe \<Rightarrow> bool" where
  "pipe_inv x \<longleftrightarrow> length (pp_data x) = PIPESIZE \<and> unat (pp_nwrite x - pp_nread x) \<le> PIPESIZE"

lemma pipe_ring [simp]: "ring_size PIPESIZE"
  by (simp add: ring_size_def PIPESIZE_def)

lemma length_pipe_items [simp]: "length (pipe_items x) = unat (pp_nwrite x - pp_nread x)"
  by (simp add: pipe_items_def)

lemma pipe_empty_iff: "pp_nread x = pp_nwrite x \<longleftrightarrow> pipe_items x = []"
  by (simp add: pipe_items_def ring_eq_Nil)

lemma pipe_put_items:
  assumes "pipe_inv x" and "length (pipe_items x) < PIPESIZE"
  shows "pipe_inv (pipe_put c x)" and "pipe_items (pipe_put c x) = pipe_items x @ [c]"
  using assms unat_Suc_diff [of "pp_nwrite x" "pp_nread x" PIPESIZE] pipe_ring
  by (simp_all add: pipe_inv_def pipe_put_def pipe_items_def ring_put ring_size_def)

lemma pipe_drop_items:
  assumes "pipe_inv x" and "pipe_items x \<noteq> []"
  shows "pipe_inv (pipe_drop x)" and "pipe_items x = pipe_front x # pipe_items (pipe_drop x)"
proof -
  have ne: "pp_nwrite x \<noteq> pp_nread x" using assms(2) pipe_empty_iff [of x] by metis
  have d: "pipe_items x = pipe_front x # pipe_items (pipe_drop x)"
    unfolding pipe_items_def using ring_drop1 [OF pipe_ring ne] by (simp add: pipe_front_def pipe_drop_def)
  then show "pipe_items x = pipe_front x # pipe_items (pipe_drop x)" .
  show "pipe_inv (pipe_drop x)"
    using arg_cong [OF d, of length] assms(1) by (simp add: pipe_inv_def pipe_drop_def)
qed

lemma pipe_inv_cap: "pipe_inv x \<Longrightarrow> length (pipe_items x) \<le> PIPESIZE"
  by (simp add: pipe_inv_def)

interpretation pq: bounded_queue pipe_inv pipe_items PIPESIZE pipe_put pipe_front pipe_drop
  by unfold_locales (fact pipe_inv_cap pipe_put_items pipe_drop_items)+

section \<open>Running the operations\<close>

lemma lk_take_ppstate [simp]:
  "pipes (lk_take lk s) = pipes s" "(lk_take lk s)\<lparr>pipes := f\<rparr> = lk_take lk (s\<lparr>pipes := f\<rparr>)"
  by (simp_all add: lk_take_def)

lemma lk_free_ppstate [simp]: "lk_free lk (s\<lparr>pipes := f\<rparr>) = lk_free lk s"
  by (simp add: lk_free_def)

lemma no_locks_ppstate [simp]: "no_locks (s\<lparr>pipes := f\<rparr>) = no_locks s"
  by (simp add: no_locks_def del: no_locks_free no_locks_cli)

lemma cli_ok_take [simp]: "cli_ok (mcpu s) \<Longrightarrow> cli_ok (mcpu (lk_take lk s))"
  by (simp add: lk_take_def)

text \<open>The state in which the pipe at \<open>p\<close> is \<open>x\<close>.\<close>

definition with_pipe :: "u32 \<Rightarrow> pipe \<Rightarrow> 'a ppstate_scheme \<Rightarrow> 'a ppstate_scheme" where
  "with_pipe p x s = s\<lparr>pipes := (pipes s)(p \<mapsto> x)\<rparr>"

lemma with_pipe_simps [simp]:
  "pipes (with_pipe p x s) = (pipes s)(p \<mapsto> x)" "procs (with_pipe p x s) = procs s"
  "curproc (with_pipe p x s) = curproc s" "mcpu (with_pipe p x s) = mcpu s"
  "no_locks (with_pipe p x s) = no_locks s" "lk_free lk (with_pipe p x s) = lk_free lk s"
  "with_pipe p y (with_pipe p x s) = with_pipe p y s"
  "with_pipe p x (lk_take lk s) = lk_take lk (with_pipe p x s)"
  by (simp_all add: with_pipe_def)

lemma with_pipe_same: "pipes s p = Some x \<Longrightarrow> with_pipe p x s = s"
  by (simp add: with_pipe_def fun_upd_idem)

lemma get_pipe_run [run]: "pipes s p = Some x \<Longrightarrow> get_pipe p s = Inr (x, s)"
  by (simp add: get_pipe_def run)

lemma set_pipe_run [run]: "pipes s p = Some x \<Longrightarrow> set_pipe p f s = Inr ((), with_pipe p (f x) s)"
  by (simp add: set_pipe_def run with_pipe_def)

lemma proc_killed_run [run]: "curproc s = Some i \<Longrightarrow> proc_killed s = Inr (p_killed (procs s ! i), s)"
  by (simp add: proc_killed_def myproc_def run)

lemma pipe_full_iff:
  assumes "pipe_inv x"
  shows "pp_nwrite x = pp_nread x + of_nat PIPESIZE \<longleftrightarrow> length (pipe_items x) = PIPESIZE"
proof
  assume "length (pipe_items x) = PIPESIZE"
  then have "unat (pp_nwrite x - pp_nread x) = unat (of_nat PIPESIZE :: u32)" by (simp add: PIPESIZE_def)
  then have "pp_nwrite x - pp_nread x = of_nat PIPESIZE" by (rule word_unat_eq_iff [THEN iffD2])
  then show "pp_nwrite x = pp_nread x + of_nat PIPESIZE" by (metis add.commute diff_add_cancel)
qed (simp add: PIPESIZE_def)

lemma fold_readopen: "pp_readopen (fold pipe_put cs x) = pp_readopen x"
  by (induction cs arbitrary: x) (simp_all add: pipe_put_def)

lemma pipewrite_fill:
  assumes "pipe_inv x" and "length (pipe_items x) + length cs \<le> PIPESIZE"
  shows "pipewrite_loop p n (cs @ ds) (lk_take lk (with_pipe p x s)) =
    pipewrite_loop p n ds (lk_take lk (with_pipe p (fold pipe_put cs x) s))"
  using assms
proof (induction cs arbitrary: x)
  case (Cons c cs)
  have lt: "length (pipe_items x) < PIPESIZE" using Cons.prems(2) by (simp del: length_pipe_items)
  have nf: "pp_nwrite x \<noteq> pp_nread x + of_nat PIPESIZE"
    using pipe_full_iff [OF Cons.prems(1)] lt by (metis nat_neq_iff)
  have "pipewrite_loop p n ((c # cs) @ ds) (lk_take lk (with_pipe p x s)) =
      pipewrite_loop p n (cs @ ds) (lk_take lk (with_pipe p (pipe_put c x) s))"
    using nf by (simp add: bnd_def run)
  also have "\<dots> = pipewrite_loop p n ds (lk_take lk (with_pipe p (fold pipe_put cs (pipe_put c x)) s))"
    using pipe_put_items [OF Cons.prems(1) lt, of c] Cons.prems(2)
    by (intro Cons.IH) (simp_all del: length_pipe_items)
  finally show ?case by (simp only: fold_simps)
qed simp

lemma piperead_drain:
  assumes "pipe_inv x"
  shows "piperead_copy p n (lk_take lk (with_pipe p x s)) =
    Inr (take n (pipe_items x), lk_take lk (with_pipe p ((pipe_drop ^^ min n (length (pipe_items x))) x) s))"
  using assms
proof (induction n arbitrary: x)
  case (Suc n)
  show ?case
  proof (cases "pipe_items x = []")
    case True
    then have "pp_nread x = pp_nwrite x" by (simp add: pipe_empty_iff)
    with True show ?thesis by (simp add: bnd_def run)
  next
    case False
    note d = pipe_drop_items [OF Suc.prems False]
    have ne: "pp_nread x \<noteq> pp_nwrite x" using False by (simp add: pipe_empty_iff)
    let ?m = "min n (length (pipe_items (pipe_drop x)))"
    have m: "min (Suc n) (length (pipe_items x)) = Suc ?m"
      using arg_cong [OF d(2), of length] by (simp del: length_pipe_items)
    have "piperead_copy p (Suc n) (lk_take lk (with_pipe p x s)) =
      Inr (pipe_front x # take n (pipe_items (pipe_drop x)), lk_take lk (with_pipe p ((pipe_drop ^^ ?m) (pipe_drop x)) s))"
      using ne by (simp add: bnd_def run Suc.IH [OF d(1)] del: length_pipe_items)
    then show ?thesis unfolding m using d(2) by (simp add: funpow_swap1 del: length_pipe_items)
  qed
qed (simp add: run)

section \<open>Properties\<close>

text \<open>
  C12. A write to a pipe, on every branch. The bytes that fit are appended to the queue. If all fit, the
  write returns its count; if not, it returns -1 when no reader is left or the writer has been killed, and
  otherwise the writer sleeps on the pipe with the queue full and the pipe's lock given back.
\<close>

theorem pipewrite_fifo:
  fixes s :: "'a ppstate_scheme" and n :: int and addr :: "u8 list"
  assumes "no_locks s" and "ncli (mcpu s) = 0" and "curproc s = Some i" and "i < length (procs s)"
    and "pipes s p = Some x" and "pipe_inv x"
  defines "room \<equiv> PIPESIZE - length (pipe_items x)" and "cs \<equiv> take (nat n) addr"
  shows "case pipewrite p addr n s of
     Inr (r, t) \<Rightarrow> no_locks t \<and> (\<exists>y. pipes t = (pipes s)(p \<mapsto> y) \<and> pipe_inv y \<and> pipe_items y = pipe_items x @ take room cs)
       \<and> (if length cs \<le> room then r = n else r = - 1 \<and> (pp_readopen x \<longrightarrow> p_killed (procs s ! i)))
   | Inl (e, t) \<Rightarrow> e = Swtch \<and> room < length cs \<and> pp_readopen x \<and> \<not> p_killed (procs s ! i) \<and> lk_free (Lk_pipe p) t
       \<and> (\<exists>y. pipes t = (pipes s)(p \<mapsto> y) \<and> pipe_inv y \<and> pipe_items y = pipe_items x @ take room cs)
       \<and> p_state (procs t ! i) = SLEEPING \<and> p_chan (procs t ! i) = ChPipeWrite p"
proof -
  define y where "y = fold pipe_put (take room cs) x"
  define ds where "ds = drop room cs"
  let ?t = "with_pipe p y s"
  have le: "length (pipe_items x) + length (take room cs) \<le> PIPESIZE"
    using pipe_inv_cap [OF assms(6)] unfolding room_def by simp
  have y: "pipe_inv y" "pipe_items y = pipe_items x @ take room cs"
    unfolding y_def using pq.put_many [OF assms(6) le] by auto
  have sx: "with_pipe p x s = s" using assms(5) by (rule with_pipe_same)
  have oy: "pp_readopen y = pp_readopen x" unfolding y_def by (rule fold_readopen)
  have w: "pipewrite p addr n s = pipewrite_loop p n ds (lk_take (Lk_pipe p) ?t)"
  proof -
    have "pipewrite p addr n s = pipewrite_loop p n (take room cs @ ds) (lk_take (Lk_pipe p) (with_pipe p x s))"
      using assms(1) by (simp only: pipewrite_def bnd_def acquire_run no_locks_free sx ds_def append_take_drop_id cs_def sum.case prod.case)
    then show ?thesis unfolding y_def pipewrite_fill [OF assms(6) le] .
  qed
  show ?thesis
  proof (cases "length cs \<le> room")
    case True
    then have "ds = []" by (simp add: ds_def)
    then have "pipewrite p addr n s = Inr (n, ?t\<lparr>procs := map (wake (ChPipeRead p)) (procs s)\<rparr>)"
      using assms(1) unfolding w by (simp add: bnd_def wakeup_run release_take run)
    then show ?thesis using True y assms(1) by auto
  next
    case False
    then obtain d ds' where ds: "ds = d # ds'" by (cases ds) (auto simp: ds_def)
    have full: "pp_nwrite y = pp_nread y + of_nat PIPESIZE"
      unfolding pipe_full_iff [OF y(1)] y(2) using False pipe_inv_cap [OF assms(6)] by (simp add: room_def)
    show ?thesis
    proof (cases "pp_readopen x \<and> \<not> p_killed (procs s ! i)")
      case True
      let ?ps = "map (wake (ChPipeRead p)) (procs s)"
      let ?u = "?t\<lparr>procs := ?ps\<rparr>"
      have sl: "(sleep (ChPipeWrite p) (Lk_pipe p) :: ('a ppstate_scheme, int) km) (lk_take (Lk_pipe p) ?u) =
          Inl (Swtch, lk_take Lk_ptable (?u\<lparr>procs := ?ps[i := (?ps ! i)\<lparr>p_chan := ChPipeWrite p, p_state := SLEEPING\<rparr>]\<rparr>))"
        using sleep_run [of ?u i] assms(1-4) by simp
      have "pipewrite p addr n s = (sleep (ChPipeWrite p) (Lk_pipe p)) (lk_take (Lk_pipe p) ?u)"
        using assms(1,3) True full oy unfolding w ds by (simp add: bnd_def run wakeup_run)
      then show ?thesis unfolding sl using True False y assms(1,4) by auto
    next
      case nw: False
      then have "pipewrite p addr n s = Inr (- 1, ?t)"
        using assms(1,3) full oy unfolding w ds by (auto simp: bnd_def run release_take)
      then show ?thesis using False nw y assms(1) by auto
    qed
  qed
qed

text \<open>
  C13. A read from a pipe, on every branch. If the queue is empty while a writer is left, the reader sleeps,
  or returns -1 when it has been killed. Otherwise it gets the first bytes of the queue in the order they
  were written, up to the count it asked for, and those are removed; at the end of the file that is none.
\<close>

theorem piperead_fifo:
  fixes s :: "'a ppstate_scheme" and n :: int
  assumes "no_locks s" and "ncli (mcpu s) = 0" and "curproc s = Some i" and "i < length (procs s)"
    and "pipes s p = Some x" and "pipe_inv x"
  shows "case piperead p n s of
     Inr ((r, bs), t) \<Rightarrow> no_locks t \<and>
       (if pipe_items x = [] \<and> pp_writeopen x then r = - 1 \<and> bs = [] \<and> pipes t = pipes s \<and> p_killed (procs s ! i)
        else r = int (length bs) \<and> bs = take (nat n) (pipe_items x)
          \<and> (\<exists>y. pipes t = (pipes s)(p \<mapsto> y) \<and> pipe_inv y \<and> pipe_items y = drop (nat n) (pipe_items x)))
   | Inl (e, t) \<Rightarrow> e = Swtch \<and> pipe_items x = [] \<and> pp_writeopen x \<and> \<not> p_killed (procs s ! i) \<and> lk_free (Lk_pipe p) t
       \<and> pipes t = pipes s \<and> p_state (procs t ! i) = SLEEPING \<and> p_chan (procs t ! i) = ChPipeRead p"
proof -
  have sx: "with_pipe p x s = s" using assms(5) by (rule with_pipe_same)
  have r: "piperead p n s = piperead_loop p n (lk_take (Lk_pipe p) s)"
    using assms(1) by (simp add: piperead_def bnd_def acquire_run)
  show ?thesis
  proof (cases "pipe_items x = [] \<and> pp_writeopen x")
    case True
    then have e: "pp_nread x = pp_nwrite x \<and> pp_writeopen x" by (simp add: pipe_empty_iff)
    show ?thesis
    proof (cases "p_killed (procs s ! i)")
      case k: True
      have "piperead p n s = Inr ((- 1, []), s)"
        using assms(1,3,5) e k unfolding r by (simp add: piperead_loop_def bnd_def run release_take)
      then show ?thesis using True k assms(1) by simp
    next
      case nk: False
      have "piperead p n s = sleep (ChPipeRead p) (Lk_pipe p) (lk_take (Lk_pipe p) s)"
        using assms(1,3,5) e nk unfolding r by (simp add: piperead_loop_def bnd_def run)
      then show ?thesis using True nk assms(1,4) by (simp add: sleep_run [OF assms(1-4)])
    qed
  next
    case False
    then have e: "\<not> (pp_nread x = pp_nwrite x \<and> pp_writeopen x)" by (simp add: pipe_empty_iff)
    let ?m = "min (nat n) (length (pipe_items x))"
    let ?y = "(pipe_drop ^^ ?m) x"
    have c: "piperead_copy p (nat n) (lk_take (Lk_pipe p) s) =
        Inr (take (nat n) (pipe_items x), lk_take (Lk_pipe p) (with_pipe p ?y s))"
      using piperead_drain [OF assms(6), of p "nat n" "Lk_pipe p" s] unfolding sx .
    have y: "pipe_inv ?y" "pipe_items ?y = drop (nat n) (pipe_items x)"
      using pq.pop_many [OF assms(6), of ?m] by (auto simp: min_def)
    have "piperead p n s = Inr ((int (length (take (nat n) (pipe_items x))), take (nat n) (pipe_items x)),
        (with_pipe p ?y s)\<lparr>procs := map (wake (ChPipeWrite p)) (procs s)\<rparr>)"
      using assms(1,5) e unfolding r
      by (auto simp: piperead_loop_def bnd_def run c wakeup_run release_take simp del: length_take length_pipe_items)
    then show ?thesis using False y assms(1) by (auto simp del: length_pipe_items)
  qed
qed

subsection \<open>The properties on a concrete pipe\<close>

text \<open>A pipe whose counters are about to wrap around, with two bytes in it.\<close>

definition pipe0 :: pipe where
  "pipe0 = \<lparr>pp_data = replicate 511 7 @ [8], pp_nread = 4294967294, pp_nwrite = 0, pp_readopen = True, pp_writeopen = True\<rparr>"

lemma pipe0: "pipe_inv pipe0" "pipe_items pipe0 = [7, 8]"
  by (simp_all add: pipe_inv_def pipe_items_def ring_items_def pipe0_def PIPESIZE_def nth_append upt_rec)

lemma pipewrite_fifo_witness:
  "ok (pipewrite 0x80200000 [1, 2, 3] 2) (with_pipe 0x80200000 pipe0 kern0)
     (\<lambda>r t. r = 2 \<and> (\<exists>y. pipes t 0x80200000 = Some y \<and> pipe_items y = [7, 8, 1, 2]))"
  using pipewrite_fifo [where s = "with_pipe 0x80200000 pipe0 kern0" and p = "0x80200000" and x = pipe0 and i = 0
      and n = 2 and addr = "[1, 2, 3]"] pipe0
  by (auto simp: ok_def PIPESIZE_def numeral_2_eq_2 simp del: length_pipe_items split: sum.splits)

lemma piperead_fifo_witness:
  "ok (piperead 0x80200000 1) (with_pipe 0x80200000 pipe0 kern0)
     (\<lambda>(r, bs) t. r = 1 \<and> bs = [7] \<and> (\<exists>y. pipes t 0x80200000 = Some y \<and> pipe_items y = [8]))"
  using piperead_fifo [where s = "with_pipe 0x80200000 pipe0 kern0" and p = "0x80200000" and x = pipe0 and i = 0 and n = 1] pipe0
  by (auto simp: ok_def split: sum.splits)

end
