(* ===== verification/Console_Props.thy ===== *)
theory Console_Props
  imports Console Ring Sample
begin

text \<open>
  Properties of the console: output stays on the screen, and the input buffer with its three indices
  implements a line editor.
\<close>

section \<open>Output\<close>

text \<open>The screen: 24 lines of 80 characters; the cursor is always on it.\<close>

definition on_screen :: "u32 \<Rightarrow> bool" where
  "on_screen a \<longleftrightarrow> unat (a - crt) < 2 * 24 * 80"

definition con_ok :: "'a cnstate_scheme \<Rightarrow> bool" where
  "con_ok s \<longleftrightarrow> \<not> panicked s \<and> unat (crt_pos s) < 24 * 80"

text \<open>What output may change: the bytes on the screen, the cursor and what the serial line has sent.\<close>

definition con_frame :: "'a cnstate_scheme \<Rightarrow> 'a cnstate_scheme \<Rightarrow> bool" where
  "con_frame s t \<longleftrightarrow> t = s\<lparr>kmem_bytes := kmem_bytes t, crt_pos := crt_pos t, uart_out := uart_out t\<rparr>
     \<and> (\<forall>a. \<not> on_screen a \<longrightarrow> kmem_bytes t a = kmem_bytes s a)"

lemma con_frame_refl [simp]: "con_frame s s"
  by (simp add: con_frame_def)

lemma con_frame_trans: "con_frame s t \<Longrightarrow> con_frame t u \<Longrightarrow> con_frame s u"
  unfolding con_frame_def
proof (elim conjE, intro conjI)
  assume t: "t = s\<lparr>kmem_bytes := kmem_bytes t, crt_pos := crt_pos t, uart_out := uart_out t\<rparr>"
    and u: "u = t\<lparr>kmem_bytes := kmem_bytes u, crt_pos := crt_pos u, uart_out := uart_out u\<rparr>"
  show "u = s\<lparr>kmem_bytes := kmem_bytes u, crt_pos := crt_pos u, uart_out := uart_out u\<rparr>"
    by (subst u, subst t) simp
qed auto

lemma screen_range:
  assumes "unat (b - (crt + d)) + unat d < 2 * 24 * 80"
  shows "on_screen b"
proof -
  have "b - crt = (b - (crt + d)) + d" by simp
  then have "unat (b - crt) = unat ((b - (crt + d)) + d)" by (simp only:)
  also have "\<dots> = unat (b - (crt + d)) + unat d" using assms by (subst unat_word_ariths(1)) simp
  finally show ?thesis using assms by (simp add: on_screen_def)
qed

lemma unat_pos: "0 \<le> p \<Longrightarrow> p < 24 * 80 \<Longrightarrow> unat (2 * word_of_int p :: u32) = 2 * nat p"
proof -
  assume "0 \<le> p" "p < 24 * 80"
  then have "(2 * word_of_int p :: u32) = of_nat (2 * nat p)" "2 * nat p < 2 ^ 32" by simp_all
  then show ?thesis by (simp only: unat_of_nat32)
qed

lemma set_crt_ok:
  assumes "0 \<le> p" and "p < 24 * 80"
  shows "ok (set_crt p v) s (\<lambda>_ t. con_frame s t \<and> crt_pos t = crt_pos s)"
proof -
  have "b \<noteq> crt + 2 * word_of_int p \<and> b \<noteq> crt + 2 * word_of_int p + 1" if "\<not> on_screen b" for b
  proof -
    have "on_screen (crt + 2 * word_of_int p)" "on_screen (crt + 2 * word_of_int p + 1)"
      using assms unat_pos [OF assms] by (auto intro!: screen_range [where d = "2 * word_of_int p"])
    with that show ?thesis by auto
  qed
  then show ?thesis by (simp add: set_crt_def con_frame_def st16_def)
qed

lemma scroll_frame:
  assumes "24 * 80 \<le> p" and "p \<le> 25 * 80" and "\<not> on_screen b"
  shows "memset (memmove m crt (crt + 2 * 80) (2 * 23 * 80)) (crt + 2 * word_of_int (p - 80)) 0
    (2 * word_of_int (24 * 80 - (p - 80))) b = m b"
proof -
  have 1: "memmove m crt (crt + 2 * 80) (2 * 23 * 80) b = m b"
    using assms(3) by (subst memmove_moved) (auto simp: moved_def on_screen_def crt_def p2v_def KERNBASE_def word_less_nat_alt)
  have 2: "unat (2 * word_of_int (p - 80) :: u32) = 2 * nat (p - 80)"
    if "p - 80 < 24 * 80" using unat_pos [of "p - 80"] assms that by simp
  have 3: "unat (2 * word_of_int (24 * 80 - (p - 80)) :: u32) = 2 * nat (24 * 80 - (p - 80))"
    using unat_pos [of "24 * 80 - (p - 80)"] assms by simp
  have "stosb m' (crt + 2 * word_of_int (p - 80)) 0 (unat (2 * word_of_int (24 * 80 - (p - 80)) :: u32)) b = m' b" for m' :: mem
  proof (cases "p = 25 * 80")
    case True
    then show ?thesis using 3 by simp
  next
    case False
    then have "p - 80 < 24 * 80" using assms(2) by simp
    note 2 = 2 [OF this]
    have "\<not> unat (b - (crt + 2 * word_of_int (p - 80))) < unat (2 * word_of_int (24 * 80 - (p - 80)) :: u32)"
    proof
      assume lt: "unat (b - (crt + 2 * word_of_int (p - 80))) < unat (2 * word_of_int (24 * 80 - (p - 80)) :: u32)"
      have "nat (p - 80) + nat (24 * 80 - (p - 80)) = 24 * 80" using assms(1,2) by simp
      then have "unat (b - (crt + 2 * word_of_int (p - 80))) + unat (2 * word_of_int (p - 80) :: u32) < 2 * 24 * 80"
        using lt unfolding 2 3 by linarith
      with assms(3) screen_range show False by blast
    qed
    then show ?thesis by (simp only: stosb_apply [OF less_imp_le [OF unat32_less]] if_False)
  qed
  then show ?thesis using 1 by (simp add: memset_eq_stosb)
qed

lemma con_frame_pos: "con_frame s t \<Longrightarrow> con_frame s (t\<lparr>crt_pos := p\<rparr>)"
  unfolding con_frame_def
proof (elim conjE, intro conjI)
  assume t: "t = s\<lparr>kmem_bytes := kmem_bytes t, crt_pos := crt_pos t, uart_out := uart_out t\<rparr>"
  show "t\<lparr>crt_pos := p\<rparr> = s\<lparr>kmem_bytes := kmem_bytes (t\<lparr>crt_pos := p\<rparr>), crt_pos := crt_pos (t\<lparr>crt_pos := p\<rparr>),
      uart_out := uart_out (t\<lparr>crt_pos := p\<rparr>)\<rparr>"
    by (subst t) simp
qed auto

text \<open>The second half of \<open>cgaputc\<close>: scrolling and the cursor.\<close>

lemma cga_finish_ok:
  assumes "0 \<le> pos" and "pos \<le> 24 * 80"
  shows "ok (if pos < 0 \<or> pos > 25 * 80 then panic ''pos under/overflow''
     else
       bnd (if pos div 80 \<ge> 24 then
              bnd (upd (\<lambda>s. s\<lparr>kmem_bytes := memmove (kmem_bytes s) crt (crt + 2 * 80) (2 * 23 * 80)\<rparr>)) (\<lambda>_.
              bnd (upd (\<lambda>s. s\<lparr>kmem_bytes := memset (kmem_bytes s) (crt + 2 * word_of_int (pos - 80)) 0
                     (2 * word_of_int (24 * 80 - (pos - 80)))\<rparr>)) (\<lambda>_.
              ret (pos - 80)))
            else ret pos) (\<lambda>pos.
       bnd (upd (\<lambda>s. s\<lparr>crt_pos := word_of_int pos\<rparr>)) (\<lambda>_.
       set_crt pos (0x20 OR 0x0700)))) s (\<lambda>_ t. con_frame s t \<and> unat (crt_pos t) < 24 * 80)"
proof -
  have fin: "ok (bnd (upd (\<lambda>s. s\<lparr>crt_pos := word_of_int q\<rparr>)) (\<lambda>_. set_crt q v)) t (\<lambda>_ u. con_frame s u \<and> unat (crt_pos u) < 24 * 80)"
    if "0 \<le> q" "q < 24 * 80" "con_frame s t" for q t v
  proof -
    have "unat (word_of_int q :: u16) < 24 * 80"
    proof -
      obtain k where "q = int k" using zero_le_imp_eq_int [OF \<open>0 \<le> q\<close>] by (elim exE)
      then show ?thesis using that(2) by (simp add: unat_of_nat)
    qed
    then show ?thesis unfolding ok_bnd ok_upd
      by (intro ok_mono [OF set_crt_ok [OF that(1,2)]]) (use con_frame_trans [OF con_frame_pos [OF that(3)]] in auto)
  qed
  show ?thesis
  proof (cases "pos div 80 \<ge> 24")
    case True
    then have p: "24 * 80 \<le> pos" by simp
    have "con_frame s (s\<lparr>kmem_bytes := memset (memmove (kmem_bytes s) crt (crt + 2 * 80) (2 * 23 * 80)) (crt + 2 * word_of_int (pos - 80)) 0
        (2 * word_of_int (24 * 80 - (pos - 80)))\<rparr>)"
      using scroll_frame [OF p] assms(2) by (simp add: con_frame_def)
    then show ?thesis using True p assms fin [of "pos - 80"] by (simp add: ok_bnd)
  next
    case False
    then show ?thesis using assms fin [of pos s] by (simp add: ok_bnd)
  qed
qed

lemma cgaputc_ok:
  assumes "unat (crt_pos s) < 24 * 80"
  shows "ok (cgaputc c) s (\<lambda>_ t. con_frame s t \<and> unat (crt_pos t) < 24 * 80)"
proof -
  define pos where "pos = int (unat (crt_pos s))"
  have pos: "0 \<le> pos" "pos < 24 * 80" unfolding pos_def using assms by linarith+
  have "ok (if c = 10 then ret (pos + 80 - pos mod 80)
          else if c = BACKSPACE then ret (if pos > 0 then pos - 1 else pos)
          else bnd (set_crt pos (ucast (c AND 0xff) OR 0x0700)) (\<lambda>_. ret (pos + 1))) s
        (\<lambda>q t. con_frame s t \<and> 0 \<le> q \<and> q \<le> 24 * 80)"
  proof -
    have "pos + 80 - pos mod 80 \<le> 24 * 80" "0 \<le> pos + 80 - pos mod 80"
      using pos by presburger+
    moreover have "ok (set_crt pos v) s (\<lambda>_ t. con_frame s t \<and> 0 \<le> pos + 1 \<and> pos + 1 \<le> 24 * 80)" for v
      by (rule ok_mono [OF set_crt_ok [OF pos]]) (use pos in auto)
    ultimately show ?thesis using pos by (simp add: ok_bnd)
  qed
  note first = this
  show ?thesis
    unfolding cgaputc_def ok_bnd [of "gets _"] ok_gets pos_def [symmetric]
    by (rule ok_bndI [OF first], rule ok_mono [OF cga_finish_ok]) (use con_frame_trans in blast)+
qed

lemma uartputc_ok: "ok (uartputc c) s (\<lambda>_ t. con_frame s t \<and> crt_pos t = crt_pos s)"
  by (simp add: uartputc_def con_frame_def)

lemma con_frame_sel:
  assumes "con_frame s t"
  shows "panicked t = panicked s" "procs t = procs s" "mcpu t = mcpu s" "mlocks t = mlocks s" "curproc t = curproc s"
    "in_buf t = in_buf s" "in_r t = in_r s" "in_w t = in_w s" "in_e t = in_e s" "cons_locking t = cons_locking s"
    "icache t = icache s"
proof -
  have t: "t = s\<lparr>kmem_bytes := kmem_bytes t, crt_pos := crt_pos t, uart_out := uart_out t\<rparr>"
    using assms by (simp add: con_frame_def)
  show "panicked t = panicked s" "procs t = procs s" "mcpu t = mcpu s" "mlocks t = mlocks s" "curproc t = curproc s"
    "in_buf t = in_buf s" "in_r t = in_r s" "in_w t = in_w s" "in_e t = in_e s" "cons_locking t = cons_locking s"
    "icache t = icache s"
    by (subst t, simp)+
qed

lemma consputc_ok:
  assumes "con_ok s"
  shows "ok (consputc c) s (\<lambda>_ t. con_frame s t \<and> con_ok t)"
proof -
  have c: "ok (cgaputc c) t (\<lambda>_ u. con_frame s u \<and> con_ok u)" if "con_frame s t" "crt_pos t = crt_pos s" for t
  proof -
    have "unat (crt_pos t) < 24 * 80" using that assms by (simp add: con_ok_def)
    then show ?thesis
      by (rule ok_mono [OF cgaputc_ok]) (use con_frame_trans [OF that(1)] con_frame_sel(1) assms con_ok_def in metis)
  qed
  have u: "ok (uartputc v) t (\<lambda>_ u. con_frame s u \<and> crt_pos u = crt_pos s)" if "con_frame s t" "crt_pos t = crt_pos s" for v t
    by (rule ok_mono [OF uartputc_ok]) (use con_frame_trans [OF that(1)] that(2) in auto)
  have "ok (if c = BACKSPACE then bnd (uartputc 8) (\<lambda>_. bnd (uartputc 32) (\<lambda>_. uartputc 8)) else uartputc c) s
      (\<lambda>_ u. con_frame s u \<and> crt_pos u = crt_pos s)"
    using u by (auto intro!: ok_bndI [OF u] u)
  then have "ok (bnd (if c = BACKSPACE then bnd (uartputc 8) (\<lambda>_. bnd (uartputc 32) (\<lambda>_. uartputc 8)) else uartputc c)
      (\<lambda>_. cgaputc c)) s (\<lambda>_ t. con_frame s t \<and> con_ok t)"
    by (rule ok_bndI) (use c in blast)
  then show ?thesis using assms by (simp add: consputc_def ok_bnd [of "gets _"] con_ok_def [of s])
qed

text \<open>Routines that only print. They are closed under sequencing.\<close>

definition prints :: "('a cnstate_scheme, unit) km \<Rightarrow> bool" where
  "prints m \<longleftrightarrow> (\<forall>s. con_ok s \<longrightarrow> ok m s (\<lambda>_ t. con_frame s t \<and> con_ok t))"

lemma prints_ret: "prints (ret ())"
  by (simp add: prints_def)

lemma prints_bnd: "prints (m :: ('b cnstate_scheme, unit) km) \<Longrightarrow> (\<And>x. prints (f x)) \<Longrightarrow> prints (bnd m f)"
  unfolding prints_def
proof (intro allI impI)
  fix s :: "'b cnstate_scheme"
  assume m: "\<forall>s. con_ok s \<longrightarrow> ok m s (\<lambda>_ t. con_frame s t \<and> con_ok t)"
    and f: "\<And>x. \<forall>s. con_ok s \<longrightarrow> ok (f x) s (\<lambda>_ t. con_frame s t \<and> con_ok t)" and s: "con_ok s"
  from m s have "ok m s (\<lambda>_ t. con_frame s t \<and> con_ok t)" by blast
  then show "ok (bnd m f) s (\<lambda>_ t. con_frame s t \<and> con_ok t)"
  proof (rule ok_bndI)
    fix x t assume t: "con_frame s t \<and> con_ok t"
    with f have "ok (f x) t (\<lambda>_ u. con_frame t u \<and> con_ok u)" by blast
    then show "ok (f x) t (\<lambda>_ u. con_frame s u \<and> con_ok u)" by (rule ok_mono) (use t con_frame_trans in blast)
  qed
qed

lemma prints_consputc: "prints (consputc c)"
  using consputc_ok by (auto simp: prints_def)

lemma prints_foreach: "(\<And>x. prints (f x)) \<Longrightarrow> prints (foreach xs f)"
  by (induction xs) (auto intro: prints_ret prints_bnd)

lemma prints_printint: "prints (cons_printint x b sg)"
  unfolding cons_printint_def by (intro prints_foreach prints_consputc)

lemmas prints_rules = prints_ret prints_bnd prints_consputc prints_foreach prints_printint

lemma procdump_formats:
  "prints (cprintf_loop (str ''%d %s %s'') [PInt a, PStr (Some b), PStr (Some c)])"
  "prints (cprintf_loop (str '' %p'') [PInt a])"
  "prints (cprintf_loop (str [CHR 0x0A]) [])"
  by (auto intro!: prints_rules)

text \<open>Giving a lock back after a routine that left the CPU's and the locks' state alone.\<close>

lemma release_after:
  assumes "mcpu t = mcpu (lk_take lk s)" and "mlocks t = mlocks (lk_take lk s)" and "no_locks s"
  shows "release lk t = Inr ((), t\<lparr>mcpu := mcpu s, mlocks := mlocks s\<rparr>)"
proof -
  have "lk_take lk (t\<lparr>mcpu := mcpu s, mlocks := mlocks s\<rparr>) = t\<lparr>mcpu := mcpu t, mlocks := mlocks t\<rparr>"
    unfolding assms(1,2) by (simp add: lk_take_def)
  then have "t = lk_take lk (t\<lparr>mcpu := mcpu s, mlocks := mlocks s\<rparr>)" by simp
  moreover have "no_locks (t\<lparr>mcpu := mcpu s, mlocks := mlocks s\<rparr>)"
    using assms(3) by (rule no_locks_cong [THEN iffD2, rotated 2]) simp_all
  ultimately show ?thesis using release_take [of lk "t\<lparr>mcpu := mcpu s, mlocks := mlocks s\<rparr>"]
    by (metis no_locks_cli no_locks_free)
qed

lemma con_frame_locks:
  assumes "con_frame (lk_take lk s) t"
  shows "con_frame s (t\<lparr>mcpu := mcpu s, mlocks := mlocks s\<rparr>)"
proof -
  have t: "t = (lk_take lk s)\<lparr>kmem_bytes := kmem_bytes t, crt_pos := crt_pos t, uart_out := uart_out t\<rparr>"
    using assms by (simp add: con_frame_def)
  have "t\<lparr>mcpu := mcpu s, mlocks := mlocks s\<rparr> = s\<lparr>kmem_bytes := kmem_bytes t, crt_pos := crt_pos t, uart_out := uart_out t\<rparr>"
    by (subst t) (simp add: lk_take_def)
  then show ?thesis using assms by (simp add: con_frame_def)
qed

lemma cprintf_ok:
  fixes s :: "'a cnstate_scheme"
  assumes "no_locks s" and "con_ok s" and "prints (cprintf_loop (str fmt) args :: ('a cnstate_scheme, unit) km)"
  shows "ok (cprintf fmt args) s (\<lambda>_ t. con_frame s t \<and> con_ok t)"
proof (cases "cons_locking s")
  case True
  have "con_ok (lk_take Lk_cons s)" using assms(2) by (simp add: con_ok_def lk_take_def)
  with assms(3) have "ok (cprintf_loop (str fmt) args) (lk_take Lk_cons s) (\<lambda>_ t. con_frame (lk_take Lk_cons s) t \<and> con_ok t)"
    by (simp add: prints_def)
  then have "ok (bnd (cprintf_loop (str fmt) args) (\<lambda>_. release Lk_cons)) (lk_take Lk_cons s) (\<lambda>_ t. con_frame s t \<and> con_ok t)"
  proof (rule ok_bndI)
    fix x t assume t: "con_frame (lk_take Lk_cons s) t \<and> con_ok t"
    have "release Lk_cons t = Inr ((), t\<lparr>mcpu := mcpu s, mlocks := mlocks s\<rparr>)"
      by (rule release_after [OF con_frame_sel(3,4) [OF conjunct1 [OF t]] assms(1)])
    then show "ok (release Lk_cons) t (\<lambda>_ t. con_frame s t \<and> con_ok t)"
      using t con_frame_locks by (auto intro!: okI simp: con_ok_def)
  qed
  then show ?thesis using True assms(1) by (simp add: cprintf_def ok_def bnd_def run acquire_run)
next
  case False
  then show ?thesis
    using assms(3) [unfolded prints_def, rule_format, OF assms(2)] by (simp add: cprintf_def ok_bnd del: ok_if)
qed

lemma procdump_ok:
  fixes s :: "'a cnstate_scheme"
  assumes "no_locks s" and "con_ok s"
  shows "ok procdump s (\<lambda>_ t. con_frame s t \<and> con_ok t)"
proof -
  have step: "ok (cprintf fmt args) t (\<lambda>_ u. con_frame s u \<and> con_ok u)"
    if "con_frame s t \<and> con_ok t" "prints (cprintf_loop (str fmt) args :: ('a cnstate_scheme, unit) km)" for fmt args t
  proof -
    have "no_locks t"
      using assms(1) no_locks_cong [OF con_frame_sel(3,4) [OF conjunct1 [OF that(1)]]] by simp
    from cprintf_ok [OF this conjunct2 [OF that(1)] that(2)] show ?thesis
      by (rule ok_mono) (use con_frame_trans [OF conjunct1 [OF that(1)]] in auto)
  qed
  have pcs: "ok (foreach pcs (\<lambda>pc. cprintf '' %p'' [PInt pc])) t (\<lambda>_ u. con_frame s u \<and> con_ok u)"
    if "con_frame s t \<and> con_ok t" for pcs t
    by (rule ok_foreach [where I = "\<lambda>_ u. con_frame s u \<and> con_ok u"])
      (use that in simp, rule step [OF _ procdump_formats(2)])
  show ?thesis unfolding procdump_def ok_bnd [of "gets _"] ok_gets
  proof (rule ok_foreach [where I = "\<lambda>_ u. con_frame s u \<and> con_ok u"])
    fix p :: proc and ys zs t assume t: "con_frame s t \<and> con_ok t"
    show "ok (if p_state p = UNUSED then ret ()
     else
       bnd (cprintf ''%d %s %s'' [PInt (word_of_int (p_pid p)), PStr (Some (str (state_name (p_state p)))), PStr (Some (p_name p))]) (\<lambda>_.
       bnd (if p_state p = SLEEPING then
              bnd (gets kmem_bytes) (\<lambda>m.
              foreach (takeWhile (\<lambda>pc. pc \<noteq> 0) (getcallerpcs m (ld32 m (p_context p + 12) + 8))) (\<lambda>pc. cprintf '' %p'' [PInt pc]))
            else ret ()) (\<lambda>_.
       cprintf [CHR 0x0A] []))) t (\<lambda>_ u. con_frame s u \<and> con_ok u)"
    proof (cases "p_state p = UNUSED")
      case False
      show ?thesis unfolding if_not_P [OF False]
        by (rule ok_bndI [OF step [OF t procdump_formats(1)]], rule ok_bndI [where P = "\<lambda>_ u. con_frame s u \<and> con_ok u"])
          (auto simp: ok_bnd intro: pcs step procdump_formats(3))
    qed (use t in simp)
  qed (use assms(2) in simp)
qed

section \<open>The line editor\<close>

text \<open>
  The input buffer holds finished input (from \<open>r\<close> to \<open>w\<close>) followed by the line being edited (from \<open>w\<close> to \<open>e\<close>).
\<close>

definition in_ready :: "'a cnstate_scheme \<Rightarrow> u8 list" where
  "in_ready s = ring_items INPUT_BUF (in_buf s) (in_r s) (in_w s)"

definition in_edit :: "'a cnstate_scheme \<Rightarrow> u8 list" where
  "in_edit s = drop (unat (in_w s - in_r s)) (ring_items INPUT_BUF (in_buf s) (in_r s) (in_e s))"

definition in_inv :: "'a cnstate_scheme \<Rightarrow> bool" where
  "in_inv s \<longleftrightarrow> length (in_buf s) = INPUT_BUF \<and> unat (in_w s - in_r s) \<le> unat (in_e s - in_r s)
     \<and> unat (in_e s - in_r s) \<le> INPUT_BUF \<and> 10 \<notin> set (in_edit s)"

text \<open>What a key does, on finished input and edited line.\<close>

definition key_spec :: "u32 \<Rightarrow> u8 list \<times> u8 list \<Rightarrow> u8 list \<times> u8 list" where
  "key_spec c st =
     (case st of (rd, ed) \<Rightarrow>
        if c = 16 then (rd, ed)
        else if c = 21 then (rd, [])
        else if c = 8 \<or> c = 0x7f then (rd, butlast ed)
        else if c = 0 \<or> INPUT_BUF \<le> length rd + length ed then (rd, ed)
        else
          (let b = (if c = 13 then 10 else ucast c) in
           if b = 10 \<or> b = 4 \<or> Suc (length rd + length ed) = INPUT_BUF then (rd @ ed @ [b], [])
           else (rd, ed @ [b])))"

lemma in_ring [simp]: "ring_size INPUT_BUF"
  by (simp add: ring_size_def INPUT_BUF_def)

lemma in_all: "in_inv s \<Longrightarrow> ring_items INPUT_BUF (in_buf s) (in_r s) (in_e s) = in_ready s @ in_edit s"
  using ring_take [of "in_w s" "in_r s" "in_e s" INPUT_BUF "in_buf s"]
  by (metis append_take_drop_id in_edit_def in_inv_def in_ready_def)

lemma in_lengths:
  assumes "in_inv s"
  shows "length (in_ready s) = unat (in_w s - in_r s)" "length (in_ready s) + length (in_edit s) = unat (in_e s - in_r s)"
  using assms by (simp_all add: in_ready_def in_edit_def in_inv_def)

text \<open>Two states with the same input buffer.\<close>

lemma in_cong:
  assumes "in_buf t = in_buf s" and "in_r t = in_r s" and "in_w t = in_w s" and "in_e t = in_e s"
  shows "in_ready t = in_ready s" "in_edit t = in_edit s" "in_inv t = in_inv s"
  using assms by (simp_all add: in_ready_def in_edit_def in_inv_def)

lemma unput_input:
  assumes "in_inv s" and "in_e s \<noteq> in_w s"
  defines "t \<equiv> s\<lparr>in_e := in_e s - 1\<rparr>"
  shows "in_inv t" "in_ready t = in_ready s" "in_edit t = butlast (in_edit s)" "in_edit s \<noteq> []"
proof -
  have ne: "in_edit s \<noteq> []"
  proof
    assume "in_edit s = []"
    then have "unat (in_w s - in_r s) = unat (in_e s - in_r s)" using in_lengths [OF assms(1)] by simp
    then have "in_w s - in_r s = in_e s - in_r s" by (rule word_unat_eq_iff [THEN iffD2])
    with assms(2) show False by (metis diff_add_cancel)
  qed
  then show "in_edit s \<noteq> []" .
  have er: "in_e s \<noteq> in_r s"
    using ne in_lengths [OF assms(1)] by auto
  have all: "ring_items INPUT_BUF (in_buf s) (in_r s) (in_e s - 1) = in_ready s @ butlast (in_edit s)"
    using ring_unput [OF er, of INPUT_BUF "in_buf s"] in_all [OF assms(1)] ne by (simp add: butlast_append)
  show r: "in_ready t = in_ready s" by (simp add: in_ready_def t_def)
  show e: "in_edit t = butlast (in_edit s)"
    using all in_lengths(1) [OF assms(1)] by (simp add: in_edit_def t_def)
  have l: "unat (in_e s - 1 - in_r s) = length (in_ready s) + length (butlast (in_edit s))"
    using arg_cong [OF all, of length] by simp
  show "in_inv t"
    using assms(1) l in_lengths [OF assms(1)] e in_set_butlastD [of 10 "in_edit s"]
    by (auto simp: in_inv_def t_def)
qed

lemma put_input:
  assumes "in_inv s" and "length (in_ready s) + length (in_edit s) < INPUT_BUF"
  defines "t b \<equiv> s\<lparr>in_buf := (in_buf s)[unat (in_e s) mod INPUT_BUF := b], in_e := in_e s + 1\<rparr>"
  shows "in_ready (t b) = in_ready s" "in_edit (t b) = in_edit s @ [b]" "b \<noteq> 10 \<Longrightarrow> in_inv (t b)"
    "in_inv ((t b)\<lparr>in_w := in_e (t b)\<rparr>)" "in_ready ((t b)\<lparr>in_w := in_e (t b)\<rparr>) = in_ready s @ in_edit s @ [b]"
    "in_edit ((t b)\<lparr>in_w := in_e (t b)\<rparr>) = []"
proof -
  note i = assms(1) [unfolded in_inv_def]
  have lt: "unat (in_e s - in_r s) < INPUT_BUF" using assms(2) in_lengths [OF assms(1)] by simp
  have all: "ring_items INPUT_BUF ((in_buf s)[unat (in_e s) mod INPUT_BUF := b]) (in_r s) (in_e s + 1) = in_ready s @ in_edit s @ [b]"
    unfolding ring_put [OF in_ring conjunct1 [OF i] lt] in_all [OF assms(1)] by simp
  have u: "unat (in_e s + 1 - in_r s) = Suc (unat (in_e s - in_r s))"
    by (rule unat_Suc_diff [OF lt]) (simp add: INPUT_BUF_def)
  show r: "in_ready (t b) = in_ready s"
    using ring_put_other [OF in_ring conjunct1 [OF conjunct2 [OF i]] lt] by (simp add: in_ready_def t_def)
  show e: "in_edit (t b) = in_edit s @ [b]"
    using all in_lengths(1) [OF assms(1)] by (simp add: in_edit_def t_def)
  show "in_inv (t b)" if "b \<noteq> 10"
    using i lt u e that by (auto simp: in_inv_def t_def)
  show w: "in_edit ((t b)\<lparr>in_w := in_e (t b)\<rparr>) = []"
    by (simp add: in_edit_def)
  show "in_inv ((t b)\<lparr>in_w := in_e (t b)\<rparr>)"
    using i lt u w by (auto simp: in_inv_def t_def)
  show "in_ready ((t b)\<lparr>in_w := in_e (t b)\<rparr>) = in_ready s @ in_edit s @ [b]"
    using all by (simp add: in_ready_def t_def)
qed

definition ed_state :: "'a cnstate_scheme \<Rightarrow> u8 list \<times> u8 list \<Rightarrow> 'a cnstate_scheme \<Rightarrow> bool" where
  "ed_state s st t \<longleftrightarrow> con_ok t \<and> in_inv t \<and> mcpu t = mcpu s \<and> mlocks t = mlocks s \<and> (in_ready t, in_edit t) = st"

lemma consputc_ed: "ed_state s st t \<Longrightarrow> ok (consputc c) t (\<lambda>_ u. ed_state s st u)"
proof -
  assume t: "ed_state s st t"
  then have "con_ok t" by (simp add: ed_state_def)
  then show ?thesis
  proof (rule ok_mono [OF consputc_ok], elim conjE)
    fix u assume f: "con_frame t u" and "con_ok u"
    note c = con_frame_sel [OF f]
    show "ed_state s st u" using t \<open>con_ok u\<close> in_cong [OF c(6-9)] c(3,4) by (simp add: ed_state_def)
  qed
qed

lemma at_end: "in_inv s \<Longrightarrow> in_e s = in_w s \<Longrightarrow> in_edit s = []"
  by (simp add: in_edit_def)

lemma in_at_last:
  assumes "in_inv s" and "in_e s \<noteq> in_w s"
  shows "in_at s (in_e s - 1) = last (in_edit s)"
proof -
  have ne: "in_edit s \<noteq> []" by (rule unput_input(4) [OF assms])
  then have "in_e s \<noteq> in_r s" using in_lengths [OF assms(1)] by auto
  from last_ring [OF in_ring this, of "in_buf s"] show ?thesis
    using in_all [OF assms(1)] ne by (simp add: in_at_def)
qed

lemma unput_ed:
  assumes "ed_state s (rd, ed) t" and "in_e t \<noteq> in_w t"
  shows "ed_state s (rd, butlast ed) (t\<lparr>in_e := in_e t - 1\<rparr>)" and "ed \<noteq> []"
proof -
  have i: "in_inv t" using assms(1) by (simp add: ed_state_def)
  show "ed_state s (rd, butlast ed) (t\<lparr>in_e := in_e t - 1\<rparr>)" "ed \<noteq> []"
    using unput_input [OF i assms(2)] assms(1) by (auto simp: ed_state_def con_ok_def)
qed

lemma kill_line_ed:
  "ed_state s (rd, ed) t \<Longrightarrow> length ed < k \<Longrightarrow> ok (kill_line k) t (\<lambda>_ u. ed_state s (rd, []) u)"
proof (induction k arbitrary: ed t)
  case (Suc k)
  have i: "in_inv t" and e: "in_edit t = ed" using Suc.prems(1) by (simp_all add: ed_state_def)
  show ?case
  proof (cases "in_e t \<noteq> in_w t")
    case True
    note u = unput_ed [OF Suc.prems(1) True]
    have "10 \<notin> set ed" using i e by (auto simp: in_inv_def)
    then have "in_at t (in_e t - 1) \<noteq> 10" using in_at_last [OF i True] e u(2) last_in_set by metis
    moreover have "length (butlast ed) < k" using u(2) Suc.prems(2) by (cases ed) auto
    then have "ok (bnd (consputc BACKSPACE) (\<lambda>_. kill_line k)) (t\<lparr>in_e := in_e t - 1\<rparr>) (\<lambda>_ v. ed_state s (rd, []) v)"
      by (intro ok_bndI [OF consputc_ed [OF u(1)]] Suc.IH)
    ultimately show ?thesis using True by (simp add: ok_bnd)
  next
    case False
    then show ?thesis using Suc.prems(1) at_end [OF i] e by (auto simp: ok_bnd)
  qed
qed simp

lemma byte_eq: "c < 256 \<Longrightarrow> (ucast (c :: u32) :: u8) = ucast (d :: u32) \<longleftrightarrow> c = d" if "d < 256"
proof
  assume "c < 256" "(ucast c :: u8) = ucast d"
  then have "unat (ucast c :: u8) = unat (ucast d :: u8)" by simp
  then have "unat c mod 256 = unat d mod 256" by (simp add: unsigned_ucast_eq take_bit_eq_mod)
  then show "c = d" using \<open>c < 256\<close> that by (simp add: word_less_nat_alt word_unat_eq_iff)
qed simp

lemma wakeup_ed:
  assumes "ed_state s st t" and "lk_free Lk_ptable s" and "cli_ok (mcpu s)"
  shows "ok (wakeup ch) t (\<lambda>_ u. ed_state s st u)"
proof -
  have "lk_free Lk_ptable t" "cli_ok (mcpu t)" using assms by (simp_all add: ed_state_def lk_free_def)
  then have w: "wakeup ch t = Inr ((), t\<lparr>procs := map (wake ch) (procs t)\<rparr>)" by (rule wakeup_run)
  show ?thesis
    using assms(1) by (simp add: ok_def w ed_state_def con_ok_def in_ready_def in_edit_def in_inv_def)
qed

lemma in_full:
  assumes "in_inv s" and "length (in_ready s) + length (in_edit s) = n" and "n \<le> INPUT_BUF"
  shows "in_e s - in_r s < of_nat INPUT_BUF \<longleftrightarrow> n < INPUT_BUF" "in_e s = in_r s + of_nat INPUT_BUF \<longleftrightarrow> n = INPUT_BUF"
proof -
  have u: "unat (in_e s - in_r s) = n" using in_lengths [OF assms(1)] assms(2) by simp
  show "in_e s - in_r s < of_nat INPUT_BUF \<longleftrightarrow> n < INPUT_BUF" using u by (simp add: word_less_nat_alt INPUT_BUF_def)
  have "in_e s = in_r s + of_nat INPUT_BUF \<longleftrightarrow> in_e s - in_r s = of_nat INPUT_BUF" by (metis add.commute add_diff_cancel diff_add_cancel)
  also have "\<dots> \<longleftrightarrow> n = INPUT_BUF" unfolding word_unat_eq_iff u by (simp add: INPUT_BUF_def)
  finally show "in_e s = in_r s + of_nat INPUT_BUF \<longleftrightarrow> n = INPUT_BUF" .
qed

lemma key_store:
  assumes "ed_state s (rd, ed) t" and "length rd + length ed < INPUT_BUF"
  defines "u b \<equiv> t\<lparr>in_buf := (in_buf t)[unat (in_e t) mod INPUT_BUF := b], in_e := in_e t + 1\<rparr>"
  shows "b \<noteq> 10 \<Longrightarrow> ed_state s (rd, ed @ [b]) (u b)"
    "ed_state s (rd @ ed @ [b], []) ((u b)\<lparr>in_w := in_e (u b)\<rparr>)"
proof -
  have t: "in_inv t" "in_ready t = rd" "in_edit t = ed" using assms(1) by (simp_all add: ed_state_def)
  note p = put_input [OF t(1), unfolded t, OF assms(2)]
  show "b \<noteq> 10 \<Longrightarrow> ed_state s (rd, ed @ [b]) (u b)" "ed_state s (rd @ ed @ [b], []) ((u b)\<lparr>in_w := in_e (u b)\<rparr>)"
    unfolding u_def using p assms(1) by (simp_all add: ed_state_def con_ok_def)
qed

text \<open>Echoing a character leaves the input buffer alone.\<close>

lemma echo_then:
  assumes "con_ok t" and "\<And>u. con_frame t u \<Longrightarrow> con_ok u \<Longrightarrow> ok m u Q"
  shows "ok (bnd (consputc c) (\<lambda>_. m)) t Q"
  by (rule ok_bndI [OF consputc_ok [OF assms(1)]]) (use assms(2) in blast)

lemma ed_state_frame: "ed_state s st t \<Longrightarrow> con_frame t u \<Longrightarrow> con_ok u \<Longrightarrow> ed_state s st u"
  using in_cong [OF con_frame_sel(6-9), of t u] con_frame_sel(3,4) [of t u] by (simp add: ed_state_def)

lemma finish_frame:
  assumes "ed_state s st (t\<lparr>in_w := in_e t\<rparr>)" and "con_frame t u" and "con_ok u"
  shows "ed_state s st (u\<lparr>in_w := in_e u\<rparr>)"
  using assms con_frame_sel [OF assms(2)]
  by (simp add: ed_state_def con_ok_def in_ready_def in_edit_def in_inv_def)

lemma key_ed:
  assumes "ed_state s (rd, ed) t" and "c < 256" and "c \<notin> {16, 21, 8, 0x7f}" and "length rd + length ed \<le> INPUT_BUF"
    and "lk_free Lk_ptable s" and "cli_ok (mcpu s)"
  shows "ok (consoleintr_key c) t (\<lambda>_ u. ed_state s (key_spec c (rd, ed)) u)"
proof (cases "c = 0 \<or> INPUT_BUF \<le> length rd + length ed")
  case True
  then show ?thesis
    using assms in_full [of t "length rd + length ed"]
    by (auto simp: consoleintr_key_def key_spec_def ok_bnd ed_state_def)
next
  case False
  define d where "d = (if c = 13 then 10 else c)"
  define b :: u8 where "b = ucast d"
  let ?u = "t\<lparr>in_buf := (in_buf t)[unat (in_e t) mod INPUT_BUF := b], in_e := in_e t + 1\<rparr>"
  have t: "in_inv t" "in_ready t = rd" "in_edit t = ed" "con_ok t" using assms(1) by (simp_all add: ed_state_def)
  have lt: "length rd + length ed < INPUT_BUF" using False by simp
  have room: "in_e t - in_r t < of_nat INPUT_BUF" using in_full(1) [OF t(1)] lt t by simp
  have d: "d < 256" using assms(2) by (simp add: d_def)
  have b10: "b = 10 \<longleftrightarrow> d = 10" and b4: "b = 4 \<longleftrightarrow> d = 4"
    using byte_eq [OF _ d, of 10] byte_eq [OF _ d, of 4] by (simp_all add: b_def)
  have sp: "key_spec c (rd, ed) = (if d = 10 \<or> d = 4 \<or> Suc (length rd + length ed) = INPUT_BUF then (rd @ ed @ [b], []) else (rd, ed @ [b]))"
    using False assms(3) b10 b4 by (auto simp: key_spec_def d_def b_def Let_def)
  have full: "in_e u = in_r u + of_nat INPUT_BUF \<longleftrightarrow> Suc (length rd + length ed) = INPUT_BUF" if "con_frame ?u u" for u
  proof -
    have "unat (in_e t - in_r t) = length rd + length ed" using in_lengths [OF t(1)] t by simp
    then have "unat (in_e t + 1 - in_r t) = Suc (length rd + length ed)"
      using unat_Suc_diff [of "in_e t" "in_r t" INPUT_BUF] lt by (simp add: INPUT_BUF_def)
    moreover have "in_e t + 1 = in_r t + of_nat INPUT_BUF \<longleftrightarrow> in_e t + 1 - in_r t = of_nat INPUT_BUF"
      by (metis add.commute add_diff_cancel diff_add_cancel)
    ultimately have "in_e t + 1 = in_r t + of_nat INPUT_BUF \<longleftrightarrow> Suc (length rd + length ed) = INPUT_BUF"
      by (simp add: word_unat_eq_iff INPUT_BUF_def)
    then show ?thesis using con_frame_sel(7,9) [OF that] by simp
  qed
  note k = key_store [OF assms(1) lt, of b]
  have "ok (bnd (consputc d) (\<lambda>_. bnd (gets (\<lambda>s. in_e s = in_r s + of_nat INPUT_BUF)) (\<lambda>full.
        if d = 10 \<or> d = 4 \<or> full then bnd (upd (\<lambda>s. s\<lparr>in_w := in_e s\<rparr>)) (\<lambda>_. wakeup ChInput) else ret ()))) ?u
      (\<lambda>_ u. ed_state s (key_spec c (rd, ed)) u)"
  proof (rule echo_then)
    fix u assume f: "con_frame ?u u" "con_ok u"
    have "ok (wakeup ChInput) (u\<lparr>in_w := in_e u\<rparr>) (\<lambda>_ v. ed_state s (rd @ ed @ [b], []) v)"
      by (rule wakeup_ed [OF finish_frame [OF k(2) f] assms(5,6)])
    moreover have "d \<noteq> 10 \<Longrightarrow> ed_state s (rd, ed @ [b]) u"
      using ed_state_frame [OF k(1) f] b10 by blast
    ultimately show "ok (bnd (gets (\<lambda>s. in_e s = in_r s + of_nat INPUT_BUF)) (\<lambda>full.
        if d = 10 \<or> d = 4 \<or> full then bnd (upd (\<lambda>s. s\<lparr>in_w := in_e s\<rparr>)) (\<lambda>_. wakeup ChInput) else ret ())) u
      (\<lambda>_ u. ed_state s (key_spec c (rd, ed)) u)"
      by (simp add: ok_bnd sp full [OF f(1)])
  qed (use t(4) in \<open>simp add: con_ok_def\<close>)
  then show ?thesis
    unfolding consoleintr_key_def ok_bnd [of "gets _"] ok_gets using False room
    by (simp add: d_def [symmetric] b_def [symmetric] ok_bnd [of "upd _"])
qed

lemma key_spec_inv:
  "length rd + length ed \<le> INPUT_BUF \<Longrightarrow> key_spec c (rd, ed) = (rd', ed') \<Longrightarrow> length rd' + length ed' \<le> INPUT_BUF"
  by (auto simp: key_spec_def Let_def split: if_splits)

lemma loop_ed:
  assumes "lk_free Lk_ptable s" and "cli_ok (mcpu s)"
  shows "ed_state s st t \<Longrightarrow> list_all (\<lambda>c. c < 256) cs \<Longrightarrow> length (fst st) + length (snd st) \<le> INPUT_BUF \<Longrightarrow>
    ok (consoleintr_loop cs dump) t (\<lambda>d u. ed_state s (fold key_spec cs st) u \<and> d = (dump \<or> 16 \<in> set cs))"
proof (induction cs arbitrary: st t dump)
  case (Cons c cs)
  obtain rd ed where st: "st = (rd, ed)" by (cases st)
  have len: "length rd + length ed \<le> INPUT_BUF" using Cons.prems(3) st by simp
  define st' where "st' = key_spec c (rd, ed)"
  have len': "length (fst st') + length (snd st') \<le> INPUT_BUF"
    using key_spec_inv [OF len, of c] by (cases st') (auto simp: st'_def)
  have next_ok: "ok (consoleintr_loop cs d) u (\<lambda>d' v. ed_state s (fold key_spec cs st') v \<and> d' = (d \<or> 16 \<in> set cs))"
    if "ed_state s st' u" for d u
    using Cons.IH [OF that _ len'] Cons.prems(2) by simp
  have goal: "fold key_spec (c # cs) st = fold key_spec cs st'" by (simp add: st'_def st)
  note t = Cons.prems(1) [unfolded st]
  consider "c = 16" | "c = 21" | "c = 8 \<or> c = 0x7f" | "c \<notin> {16, 21, 8, 0x7f}" by blast
  then show ?case
  proof cases
    case 1
    then have "st' = (rd, ed)" by (simp add: st'_def key_spec_def)
    then show ?thesis unfolding goal using 1 next_ok [of t True] t by simp
  next
    case 2
    then have s': "st' = (rd, [])" by (simp add: st'_def key_spec_def)
    have "length ed < INPUT_BUF + 1" using len by simp
    from ok_bndI [OF kill_line_ed [OF t this] next_ok [unfolded s']] show ?thesis
      unfolding goal using 2 s' by (simp del: kill_line.simps)
  next
    case 3
    then have s': "st' = (rd, butlast ed)" by (auto simp: st'_def key_spec_def)
    have "ok (bnd (gets (\<lambda>s. in_e s \<noteq> in_w s)) (\<lambda>b.
        if b then bnd (upd (\<lambda>s. s\<lparr>in_e := in_e s - 1\<rparr>)) (\<lambda>_. consputc BACKSPACE) else ret ())) t (\<lambda>_ u. ed_state s st' u)"
    proof (cases "in_e t \<noteq> in_w t")
      case True
      then show ?thesis using consputc_ed [OF unput_ed(1) [OF t True]] s' by (simp add: ok_bnd)
    next
      case False
      then have "ed = []" using at_end [of t] t by (auto simp: ed_state_def)
      then show ?thesis using False t s' by (simp add: ok_bnd)
    qed
    from ok_bndI [OF this next_ok] show ?thesis unfolding goal using 3 by (auto simp: ok_bnd)
  next
    case 4
    have "ok (consoleintr_key c) t (\<lambda>_ u. ed_state s st' u)"
      unfolding st'_def using Cons.prems(2) by (intro key_ed [OF t _ 4 len assms]) simp
    from ok_bndI [OF this next_ok] show ?thesis unfolding goal using 4 by simp
  qed
qed simp

section \<open>Properties\<close>

text \<open>
  C14. The console interrupt is a line editor. Whatever keys arrive, \<open>consoleintr\<close> returns, and finished input and
  edited line are those of a plain list editor: a character is appended, backspace removes the last one,
  ^U clears the line, a line end, ^D or a full buffer hands the line over, and nothing is taken when the
  buffer is full. Input that is already finished is never changed, whatever wraps around.
\<close>

theorem consoleintr_line_editor:
  assumes "no_locks s" and "con_ok s" and "in_inv s" and "list_all (\<lambda>c. c < 256) cs"
  shows "ok (consoleintr cs) s (\<lambda>_ t. no_locks t \<and> con_ok t \<and> in_inv t
     \<and> (in_ready t, in_edit t) = fold key_spec cs (in_ready s, in_edit s))"
proof -
  let ?s = "lk_take Lk_cons s" and ?st = "fold key_spec cs (in_ready s, in_edit s)"
  have "ed_state ?s (in_ready s, in_edit s) ?s"
    using assms(2,3) by (simp add: ed_state_def con_ok_def in_ready_def in_edit_def in_inv_def lk_take_def)
  moreover have "length (in_ready s) + length (in_edit s) \<le> INPUT_BUF"
    using in_lengths [OF assms(3)] assms(3) by (simp add: in_inv_def)
  ultimately have l: "ok (consoleintr_loop cs False) ?s (\<lambda>d u. ed_state ?s ?st u \<and> d = (False \<or> 16 \<in> set cs))"
    using assms(1,4) by (intro loop_ed) simp_all
  have "ok (bnd (consoleintr_loop cs False) (\<lambda>dump. bnd (release Lk_cons) (\<lambda>_. if dump then procdump else ret ()))) ?s
      (\<lambda>_ t. no_locks t \<and> con_ok t \<and> in_inv t \<and> (in_ready t, in_edit t) = ?st)"
  proof (rule ok_bndI [OF l])
    fix d u assume u: "ed_state ?s ?st u \<and> d = (False \<or> 16 \<in> set cs)"
    let ?u = "u\<lparr>mcpu := mcpu s, mlocks := mlocks s\<rparr>"
    have r: "release Lk_cons u = Inr ((), ?u)"
      using u by (intro release_after assms(1)) (simp_all add: ed_state_def)
    have n: "no_locks ?u" using assms(1) by (rule no_locks_cong [THEN iffD2, rotated 2]) simp_all
    have e: "ed_state s ?st ?u" using u by (simp add: ed_state_def con_ok_def in_ready_def in_edit_def in_inv_def)
    then have "con_ok ?u" by (simp add: ed_state_def)
    from procdump_ok [OF n this] have "ok procdump ?u (\<lambda>_ t. no_locks t \<and> ed_state s ?st t)"
    proof (rule ok_mono, elim conjE)
      fix t assume f: "con_frame ?u t" "con_ok t"
      have "no_locks t" using n by (rule no_locks_cong [THEN iffD2, rotated 2]) (use con_frame_sel [OF f(1)] in simp_all)
      then show "no_locks t \<and> ed_state s ?st t" using ed_state_frame [OF e f] by simp
    qed
    then have "ok (if d then procdump else ret ()) ?u (\<lambda>_ t. no_locks t \<and> ed_state s ?st t)" using n e by simp
    then have "ok (if d then procdump else ret ()) ?u
        (\<lambda>_ t. no_locks t \<and> con_ok t \<and> in_inv t \<and> (in_ready t, in_edit t) = ?st)"
      by (rule ok_mono) (simp add: ed_state_def)
    then show "ok (bnd (release Lk_cons) (\<lambda>_. if d then procdump else ret ())) u
        (\<lambda>_ t. no_locks t \<and> con_ok t \<and> in_inv t \<and> (in_ready t, in_edit t) = ?st)"
      unfolding ok_def bnd_Inr [where m = "release Lk_cons" and s = u, OF r] .
  qed
  then show ?thesis using assms(1) by (simp add: consoleintr_def ok_def bnd_def acquire_run)
qed

lemma consoleintr_line_editor_witness:
  "ok (consoleintr [104, 120, 8, 105, 13, 97]) kern0 (\<lambda>_ t. in_ready t = [104, 105, 10] \<and> in_edit t = [97])"
proof -
  have "con_ok kern0" "in_inv kern0" "in_ready kern0 = []" "in_edit kern0 = []"
    by (simp_all add: con_ok_def in_inv_def in_ready_def in_edit_def) (simp_all add: kern0_def)
  with consoleintr_line_editor [of kern0 "[104, 120, 8, 105, 13, 97]"] show ?thesis
    by (auto elim!: ok_mono simp: key_spec_def INPUT_BUF_def)
qed

text \<open>
  C15. Printing a character stays on the screen: from any cursor position on the screen, \<open>consputc\<close> returns, never
  panics, leaves the cursor on the screen and changes no byte of memory but those of the screen.
\<close>

theorem consputc_on_screen:
  assumes "con_ok s"
  shows "ok (consputc c) s (\<lambda>_ t. con_ok t \<and> (\<forall>a. \<not> on_screen a \<longrightarrow> kmem_bytes t a = kmem_bytes s a))"
  by (rule ok_mono [OF consputc_ok [OF assms]]) (auto simp: con_frame_def)

lemma consputc_on_screen_witness:
  "ok (consputc 10) (kern0\<lparr>crt_pos := 1919\<rparr>) (\<lambda>_ t. con_ok t \<and> kmem_bytes t 0 = 0)"
proof -
  have "con_ok (kern0\<lparr>crt_pos := 1919\<rparr>)" by (simp add: con_ok_def kern0_def)
  from consputc_on_screen [OF this, of 10] show ?thesis
    by (rule ok_mono) (auto simp: on_screen_def crt_def p2v_def KERNBASE_def kern0_def)
qed

end
