(* ===== verification/Tx.thy ===== *)
theory Tx
  imports Log_Trans Fs
begin

text \<open>
  Proof rules for code inside a transaction: what \<open>bread\<close>, an access to the data of a held buffer, \<open>log_write\<close> and
  \<open>brelse\<close> do to the blocks as the transaction sees them. The file system's operations are sequences of these.
\<close>

section \<open>The state inside a transaction\<close>

text \<open>What may differ from the state \<open>s\<close>: buffers, the header of the log, and processes that were woken.\<close>

definition tframe :: "'a lstate_scheme \<Rightarrow> 'a lstate_scheme \<Rightarrow> bool" where
  "tframe s t \<longleftrightarrow> (\<exists>ps bs lh. t = s\<lparr>procs := ps, bufs := bs, lg := (lg s)\<lparr>lg_lh := lh\<rparr>\<rparr> \<and> woken (procs s) ps)"

lemma tframeI:
  "t = s\<lparr>procs := ps, bufs := bs, lg := (lg s)\<lparr>lg_lh := lh\<rparr>\<rparr> \<Longrightarrow> woken (procs s) ps \<Longrightarrow> tframe s t"
  by (auto simp: tframe_def)

lemma tframe_refl [simp]: "tframe s s"
  by (rule tframeI [where ps = "procs s" and bs = "bufs s" and lh = "lg_lh (lg s)"]) simp_all

lemma tframe_trans: "tframe s t \<Longrightarrow> tframe t u \<Longrightarrow> tframe s u"
  unfolding tframe_def by (elim exE conjE) (auto intro: woken_trans)

lemma tframe_sel:
  assumes "tframe s t"
  shows "memdisk t = memdisk s" "disksize t = disksize s" "dwrites t = dwrites s" "mcpu t = mcpu s" "mlocks t = mlocks s"
    "kmem_bytes t = kmem_bytes s" "curproc t = curproc s" "lg_start (lg t) = lg_start (lg s)" "lg_size (lg t) = lg_size (lg s)"
    "lg_outstanding (lg t) = lg_outstanding (lg s)" "lg_committing (lg t) = lg_committing (lg s)"
    "length (procs t) = length (procs s)"
  using assms by (auto simp: tframe_def woken_length)

lemma tframe_fs:
  assumes "tframe s t"
  shows "icache t = icache s" "sb t = sb s"
  using assms by (auto simp: tframe_def)

text \<open>
  \<open>H\<close>: the buffers held with their blocks; \<open>U\<close>: blocks that were changed and not yet handed to \<open>log_write\<close>;
  \<open>V\<close>: the blocks as the transaction sees them; \<open>n\<close>: blocks for which there is room left in the log.
\<close>

definition tx ::
  "'a lstate_scheme \<Rightarrow> (nat \<times> u32) set \<Rightarrow> u32 set \<Rightarrow> (u32 \<Rightarrow> u8 list) \<Rightarrow> nat \<Rightarrow> 'a lstate_scheme \<Rightarrow> bool" where
  "tx s H U V n t \<longleftrightarrow> tframe s t \<and> log_inv t \<and> vw t = V \<and> (\<forall>j b. held t j b \<longleftrightarrow> (j, b) \<in> H)
     \<and> (\<forall>b. b \<in> U \<or> b \<in> dset t \<or> V b = memdisk t b) \<and> 1 \<le> lg_outstanding (lg t)
     \<and> lh_n (lg_lh (lg t)) + int n \<le> LOGSIZE - 1 \<and> lh_n (lg_lh (lg t)) + int n \<le> lg_size (lg t) - 1"

lemma hset_held: "hset s = {b. \<exists>i. held s i b}"
  by (auto simp: hset_def held_def)

lemma log_inv_bc: "log_inv s \<Longrightarrow> bc_inv s"
  by (simp add: log_inv_def)

lemma txD:
  assumes "tx s H U V n t"
  shows "tframe s t" "log_inv t" "bc_inv t" "vw t = V" "held t j b \<longleftrightarrow> (j, b) \<in> H" "hset t = snd ` H"
  using assms by (auto simp: tx_def log_inv_bc hset_held image_iff) (metis snd_conv)

lemma tx_weaken: "tx s H U V n t \<Longrightarrow> m \<le> n \<Longrightarrow> tx s H U V m t"
  by (auto simp: tx_def)

lemma tx_trans: "tframe s s' \<Longrightarrow> tx s' H U V n t \<Longrightarrow> tx s H U V n t"
  using tframe_trans by (auto simp: tx_def)

lemma view_length: "bc_inv s \<Longrightarrow> b < disksize s \<Longrightarrow> length (vw s b) = BSIZE"
proof (cases "find_idx (matches b) (take NBUF (bufs s))")
  case None
  assume "bc_inv s" "b < disksize s"
  with None show ?thesis by (simp add: vw_def cview_def bc_inv_def)
next
  case (Some i)
  assume i: "bc_inv s"
  have "i < NBUF" using find_idx_SomeD [OF Some] by simp
  with bc_invD(4) [OF i] Some show ?thesis by (simp add: vw_def cview_def buf_ok_def)
qed

lemma tx_length: "tx s H U V n t \<Longrightarrow> b < disksize s \<Longrightarrow> length (V b) = BSIZE"
proof -
  assume a: "tx s H U V n t" "b < disksize s"
  have "b < disksize t" using a(2) tframe_sel(2) [OF txD(1) [OF a(1)]] by simp
  with view_length [OF txD(3) [OF a(1)]] txD(4) [OF a(1)] show ?thesis by auto
qed

text \<open>The number of blocks that must stay in the cache.\<close>

lemma tx_dset: "tx s H U V n t \<Longrightarrow> card (dset t) + n \<le> 29"
proof -
  assume a: "tx s H U V n t"
  then have i: "log_inv t" "lh_n (lg_lh (lg t)) + int n \<le> 29" by (simp_all add: tx_def)
  have "card (dset t) = length (logged (lg t))" using i(1) by (metis distinct_card log_inv_def)
  also have "\<dots> \<le> nat (lh_n (lg_lh (lg t)))" by (simp add: logged_def)
  finally have c: "card (dset t) \<le> nat (lh_n (lg_lh (lg t)))" .
  have "0 \<le> lh_n (lg_lh (lg t))" using i(1) by (simp add: log_inv_def)
  with c i(2) show ?thesis by linarith
qed

section \<open>Steps\<close>

lemma log_inv_bufs:
  assumes "log_inv s" and "bc_inv t" and "dset t = dset s" and "memdisk t = memdisk s" and "disksize t = disksize s" and "lg t = lg s"
  shows "log_inv t"
  using assms by (simp add: log_inv_def log_geom_def)

lemma tx_bread:
  assumes a: "tx s H U V n t" and b: "b < disksize s" and h: "b \<notin> snd ` H" and c: "finite H" "card H \<le> n"
  shows "ok (bread 1 b) t (\<lambda>i u. tx s (insert (i, b) H) U V n u)"
proof -
  note d = txD [OF a]
  have "card (hset t \<union> dset t) \<le> card (hset t) + card (dset t)" by (rule card_Un_le)
  also have "\<dots> \<le> card H + card (dset t)" unfolding d(6) using card_image_le [OF c(1)] by simp
  finally have "card (hset t \<union> dset t) < NBUF" using c(2) tx_dset [OF a] by (simp add: NBUF_def MAXOPBLOCKS_def)
  moreover have "b < disksize t" using b tframe_sel(2) [OF d(1)] by simp
  ultimately have "ok (bread 1 b) t (bread_post t b)" using h d(3,6) by (intro bread_ok) auto
  then show ?thesis
  proof (rule ok_mono)
    fix i u assume p: "bread_post t b i u"
    then obtain bs where u: "u = t\<lparr>bufs := bs\<rparr>" by (auto simp: bread_post_def)
    note q = p [unfolded bread_post_def]
    have "tframe t u"
      by (rule tframeI [where ps = "procs t" and bs = bs and lh = "lg_lh (lg t)"]) (simp_all add: u)
    moreover have "log_inv u" using d(2) by (rule log_inv_bufs) (use q in \<open>auto simp: u\<close>)
    ultimately show "tx s (insert (i, b) H) U V n u"
      using a q tframe_trans [OF d(1)] unfolding tx_def by (auto simp: u)
  qed
qed

lemma tx_get_buf:
  assumes a: "tx s H U V n t" and h: "(i, b) \<in> H" and Q: "\<And>x. b_data x = V b \<Longrightarrow> ok (f x) t Q"
  shows "ok (bnd (get_buf i) f) t Q"
proof -
  have "held t i b" using h txD(5) [OF a] by simp
  from held_data(1) [OF txD(3) [OF a] this] have "b_data (bufs t ! i) = V b" using txD(4) [OF a] by simp
  from Q [OF this] show ?thesis by (simp add: ok_bnd get_buf_def)
qed

lemma tx_put_data:
  assumes a: "tx s H U V n t" and h: "(i, b) \<in> H" and len: "length (f (V b)) = BSIZE"
  shows "ok (put_data i f) t (\<lambda>_ u. tx s H (insert b U) (V(b := f (V b))) n u)"
proof -
  note d = txD [OF a]
  have ht: "held t i b" using h d(5) by simp
  have dat: "b_data (bufs t ! i) = V b" using held_data(1) [OF d(3) ht] d(4) by simp
  define u where "u = t\<lparr>bufs := (bufs t)[i := (bufs t ! i)\<lparr>b_data := f (V b)\<rparr>]\<rparr>"
  note c = set_data_post [OF d(3) ht len u_def]
  have "put_data i f t = Inr ((), u)" using dat by (simp add: put_data_def set_buf_def run u_def)
  moreover have "tframe t u"
    by (rule tframeI [where ps = "procs t" and lh = "lg_lh (lg t)"]) (simp_all add: u_def)
  moreover have "log_inv u" using d(2) c(1,4,7,9) by (rule log_inv_bufs) (simp add: u_def)
  moreover have "lg u = lg t" by (simp add: u_def)
  ultimately show ?thesis
    using a c tframe_trans [OF d(1)] unfolding tx_def ok_def by auto
qed

lemma tx_log_write:
  assumes a: "tx s H U V (Suc n) t" and h: "(i, b) \<in> H" and area: "b \<notin> log_area (lg_start (lg s))"
  shows "ok (log_write i) t (\<lambda>_ u. tx s H (U - {b}) V n u)"
proof -
  note d = txD [OF a]
  have ht: "held t i b" using h d(5) by simp
  have r: "lh_n (lg_lh (lg t)) < LOGSIZE - 1" "lh_n (lg_lh (lg t)) < lg_size (lg t) - 1" "1 \<le> lg_outstanding (lg t)"
    using a by (simp_all add: tx_def)
  have "b \<notin> log_area (lg_start (lg t))" using area tframe_sel(8) [OF d(1)] by simp
  note w = log_write_ok [OF d(2) ht this r]
  show ?thesis
  proof (rule ok_mono [OF w], elim conjE exE)
    fix u bs h'
    assume u: "log_inv u" "vw u = vw t" "memdisk u = memdisk t" "\<forall>j c. held u j c = held t j c" "dset u = insert b (dset t)"
      "logged (lg u) = (if b \<in> dset t then logged (lg t) else logged (lg t) @ [b])"
      "u = t\<lparr>lg := (lg t)\<lparr>lg_lh := h'\<rparr>, bufs := bs\<rparr>"
    have n: "lh_n (lg_lh (lg u)) \<le> lh_n (lg_lh (lg t)) + 1"
    proof -
      have l: "int (length (logged (lg v))) = lh_n (lg_lh (lg v))" if "log_inv v" for v :: "'a lstate_scheme"
        using that by (auto simp: log_inv_def log_geom_def logged_def min_def)
      have "length (logged (lg u)) \<le> length (logged (lg t)) + 1" using u(6) by simp
      then show ?thesis using l [OF u(1)] l [OF d(2)] by linarith
    qed
    have "tframe t u" by (rule tframeI [where ps = "procs t" and bs = bs and lh = h']) (simp_all add: u(7))
    moreover have "lg_size (lg u) = lg_size (lg t)" "lg_outstanding (lg u) = lg_outstanding (lg t)" by (simp_all add: u(7))
    ultimately show "tx s H (U - {b}) V n u"
      using a u(1-5) n tframe_trans [OF d(1)] unfolding tx_def by auto
  qed
qed

lemma tx_brelse:
  assumes a: "tx s H U V n t" and h: "(i, b) \<in> H" and clean: "b \<notin> U"
  shows "ok (brelse i) t (\<lambda>_ u. tx s {(j, c) \<in> H. c \<noteq> b} U V n u)"
proof -
  note d = txD [OF a]
  have ht: "held t i b" using h d(5) by simp
  have "b \<in> dset t \<or> vw t b = memdisk t b" using a clean by (auto simp: tx_def)
  from brelse_ok [OF d(3) ht this] show ?thesis
  proof (rule ok_mono)
    fix u assume p: "brelse_post t b u"
    then obtain ps bs where u: "u = t\<lparr>procs := ps, bufs := bs\<rparr>" "woken (procs t) ps" by (auto simp: brelse_post_def)
    note q = p [unfolded brelse_post_def]
    have "tframe t u" by (rule tframeI [where ps = ps and bs = bs and lh = "lg_lh (lg t)"]) (simp add: u(1), rule u(2))
    moreover have "log_inv u" using d(2) by (rule log_inv_bufs) (use q in \<open>auto simp: u\<close>)
    ultimately show "tx s {(j, c) \<in> H. c \<noteq> b} U V n u"
      using a q tframe_trans [OF d(1)] unfolding tx_def by (auto simp: u)
  qed
qed

section \<open>Stopping\<close>

definition stops_with :: "('s, 'a) km \<Rightarrow> 's \<Rightarrow> stop \<Rightarrow> bool" where
  "stops_with m s e \<longleftrightarrow> (case m s of Inl (e', t) \<Rightarrow> e' = e | Inr _ \<Rightarrow> False)"

lemma stops_stop [simp]: "stops_with (stop e) s e' \<longleftrightarrow> e = e'"
  by (simp add: stops_with_def stop_def)

lemma stops_bndI: "ok m s P \<Longrightarrow> (\<And>x t. P x t \<Longrightarrow> stops_with (f x) t e) \<Longrightarrow> stops_with (bnd m f) s e"
proof -
  assume m: "ok m s P" and f: "\<And>x t. P x t \<Longrightarrow> stops_with (f x) t e"
  obtain x t where r: "m s = Inr (x, t)" "P x t" using m by (rule okE)
  have "bnd m f s = f x t" by (simp add: bnd_def r(1))
  then show ?thesis using f [OF r(2)] by (simp add: stops_with_def)
qed

lemma stops_gets: "stops_with (bnd (gets g) f) s e \<longleftrightarrow> stops_with (f (g s)) s e"
  by (simp add: stops_with_def bnd_run)

lemma stops_upd: "stops_with (bnd (upd g) f) s e \<longleftrightarrow> stops_with (f ()) (g s) e"
  by (simp add: stops_with_def bnd_run)

lemma tx_get_buf_stops:
  assumes a: "tx s H U V n t" and h: "(i, b) \<in> H" and Q: "\<And>x. b_data x = V b \<Longrightarrow> stops_with (f x) t e"
  shows "stops_with (bnd (get_buf i) f) t e"
proof -
  have "held t i b" using h txD(5) [OF a] by simp
  from held_data(1) [OF txD(3) [OF a] this] have "b_data (bufs t ! i) = V b" using txD(4) [OF a] by simp
  from Q [OF this] show ?thesis by (simp add: stops_gets get_buf_def)
qed

section \<open>Whole accesses\<close>

text \<open>After the block is held: change it, log it and let go of it.\<close>

lemma tx_modify:
  assumes a: "tx s (insert (i, b) H) {} V (Suc n) t" and b: "b \<notin> snd ` H" and area: "b \<notin> log_area (lg_start (lg s))"
    and len: "length (f (V b)) = BSIZE" and Q: "\<And>u. tx s H {} (V(b := f (V b))) n u \<Longrightarrow> ok k u Q"
  shows "ok (bnd (put_data i f) (\<lambda>_. bnd (log_write i) (\<lambda>_. bnd (brelse i) (\<lambda>_. k)))) t Q"
proof (rule ok_bndI [OF tx_put_data [where f = f and b = b, OF a insertI1 len]])
  fix u assume u: "tx s (insert (i, b) H) {b} (V(b := f (V b))) (Suc n) u"
  show "ok (bnd (log_write i) (\<lambda>_. bnd (brelse i) (\<lambda>_. k))) u Q"
  proof (rule ok_bndI [OF tx_log_write [OF u insertI1 area]])
    fix v assume v: "tx s (insert (i, b) H) ({b} - {b}) (V(b := f (V b))) n v"
    have e: "{(j, c) \<in> insert (i, b) H. c \<noteq> b} = H" using b by force
    show "ok (bnd (brelse i) (\<lambda>_. k)) v Q"
      by (rule ok_bndI [OF tx_brelse [OF v insertI1]], simp) (use Q e in simp)
  qed
qed

lemma tx_release:
  assumes a: "tx s (insert (i, b) H) {} V n t" and b: "b \<notin> snd ` H" and Q: "\<And>u. tx s H {} V n u \<Longrightarrow> ok k u Q"
  shows "ok (bnd (brelse i) (\<lambda>_. k)) t Q"
proof -
  have e: "{(j, c) \<in> insert (i, b) H. c \<noteq> b} = H" using b by force
  show ?thesis by (rule ok_bndI [OF tx_brelse [OF a insertI1]], simp) (use Q e in simp)
qed

lemma bnd_ret: "bnd m ret = m"
  by (auto simp: bnd_def ret_def fun_eq_iff split: sum.splits)

lemma bnd_unit: "bnd m (\<lambda>_. ret ()) = (m :: ('s, unit) km)"
  using bnd_ret [of m] by simp

lemma tx_block_update:
  assumes a: "tx s H {} V (Suc n) t" and b: "b < disksize s" "b \<notin> snd ` H" "b \<notin> log_area (lg_start (lg s))"
    and c: "finite H" "card H \<le> Suc n" and len: "length (f (V b)) = BSIZE"
  shows "ok (bnd (bread 1 b) (\<lambda>bp. bnd (put_data bp f) (\<lambda>_. bnd (log_write bp) (\<lambda>_. brelse bp)))) t
    (\<lambda>_ u. tx s H {} (V(b := f (V b))) n u)"
proof (rule ok_bndI [OF tx_bread [OF a b(1,2) c]])
  fix i u assume u: "tx s (insert (i, b) H) {} V (Suc n) u"
  have "ok (bnd (put_data i f) (\<lambda>_. bnd (log_write i) (\<lambda>_. bnd (brelse i) (\<lambda>_. ret ())))) u (\<lambda>_ u. tx s H {} (V(b := f (V b))) n u)"
    by (rule tx_modify [where f = f, OF u b(2,3) len]) simp
  then show "ok (bnd (put_data i f) (\<lambda>_. bnd (log_write i) (\<lambda>_. brelse i))) u (\<lambda>_ u. tx s H {} (V(b := f (V b))) n u)"
    by (simp only: bnd_unit)
qed

text \<open>The inode cache and the super block may change on the side.\<close>

lemma tframe_icache: "tframe s t \<Longrightarrow> tframe (s\<lparr>icache := ic\<rparr>) (t\<lparr>icache := ic\<rparr>)"
proof -
  assume "tframe s t"
  then obtain ps bs lh where "t = s\<lparr>procs := ps, bufs := bs, lg := (lg s)\<lparr>lg_lh := lh\<rparr>\<rparr>" "woken (procs s) ps"
    by (auto simp: tframe_def)
  then show ?thesis by (intro tframeI [where ps = ps and bs = bs and lh = lh]) simp_all
qed

lemma fs_fields [simp]:
  "bc_inv (s\<lparr>icache := ic\<rparr>) = bc_inv s" "vw (s\<lparr>icache := ic\<rparr>) = vw s" "dset (s\<lparr>icache := ic\<rparr>) = dset s"
  "held (s\<lparr>icache := ic\<rparr>) = held s" "log_inv (s\<lparr>icache := ic\<rparr>) = log_inv s"
  "bc_inv (s\<lparr>sb := x\<rparr>) = bc_inv s" "vw (s\<lparr>sb := x\<rparr>) = vw s" "dset (s\<lparr>sb := x\<rparr>) = dset s"
  "held (s\<lparr>sb := x\<rparr>) = held s" "log_inv (s\<lparr>sb := x\<rparr>) = log_inv s"
  by (simp_all add: bc_inv_def vw_def dset_def held_def log_inv_def log_geom_def fun_eq_iff no_locks_def lk_free_def
      del: no_locks_free no_locks_cli)

lemma tx_icache: "tx s H U V n t \<Longrightarrow> tx (s\<lparr>icache := ic\<rparr>) H U V n (t\<lparr>icache := ic\<rparr>)"
  using tframe_icache [of s t ic] by (auto simp: tx_def)

section \<open>Between operations of a transaction\<close>

text \<open>A transaction is open, no buffer is held, and the log has room for \<open>n\<close> more blocks.\<close>

definition tx_ready :: "nat \<Rightarrow> 'a lstate_scheme \<Rightarrow> bool" where
  "tx_ready n s \<longleftrightarrow> log_inv s \<and> hset s = {} \<and> 1 \<le> lg_outstanding (lg s)
     \<and> lh_n (lg_lh (lg s)) + int n \<le> LOGSIZE - 1 \<and> lh_n (lg_lh (lg s)) + int n \<le> lg_size (lg s) - 1"

lemma tx_start: "tx_ready n s \<Longrightarrow> tx s {} {} (vw s) n s"
  using clean_view [OF log_inv_bc, of s] by (auto simp: tx_ready_def tx_def hset_held)

lemma tx_finish: "tx s {} {} V n t \<Longrightarrow> tx_ready n t \<and> vw t = V \<and> tframe s t"
  using txD(6) [of s "{}" "{}" V n t] by (auto simp: tx_def tx_ready_def)

end
