(* ===== verification/Fs_Blocks.thy ===== *)
theory Fs_Blocks
  imports Tx Sample
begin

text \<open>
  Block allocation: \<open>balloc\<close> returns a block that was free, marks it in the bitmap and zeroes it; \<open>bfree\<close> gives
  a block back and refuses one that is free already.
\<close>

section \<open>The bitmap\<close>

definition blk_used :: "superblock \<Rightarrow> (u32 \<Rightarrow> u8 list) \<Rightarrow> nat \<Rightarrow> bool" where
  "blk_used sp V b \<longleftrightarrow> bit (V (BBLOCK (of_nat b) sp) ! (b mod BPB div 8)) (b mod 8)"

definition bitmap_blocks :: "superblock \<Rightarrow> u32 set" where
  "bitmap_blocks sp = (\<lambda>b. BBLOCK (of_nat b) sp) ` {..<unat (sb_size sp)}"

definition inode_blocks :: "superblock \<Rightarrow> u32 set" where
  "inode_blocks sp = (\<lambda>i. IBLOCK i sp) ` {i. i < sb_ninodes sp}"

definition meta_blocks :: "'a fstate_scheme \<Rightarrow> u32 set" where
  "meta_blocks s = {0, 1} \<union> log_area (lg_start (lg s)) \<union> bitmap_blocks (sb s) \<union> inode_blocks (sb s)"

text \<open>The layout that \<open>mkfs\<close> gives a disk: metadata is on it, in separate places.\<close>

definition fs_geom :: "'a fstate_scheme \<Rightarrow> bool" where
  "fs_geom s \<longleftrightarrow> sb_size (sb s) \<le> disksize s
     \<and> (\<forall>b \<in> bitmap_blocks (sb s). b < disksize s \<and> b \<notin> log_area (lg_start (lg s)) \<and> b \<notin> inode_blocks (sb s) \<and> b \<noteq> 1)
     \<and> (\<forall>b \<in> inode_blocks (sb s). b < disksize s \<and> b \<notin> log_area (lg_start (lg s)))
     \<and> 1 < disksize s \<and> 1 \<notin> log_area (lg_start (lg s))"

text \<open>Metadata is marked in the bitmap.\<close>

definition meta_used :: "'a fstate_scheme \<Rightarrow> (u32 \<Rightarrow> u8 list) \<Rightarrow> bool" where
  "meta_used s V \<longleftrightarrow> (\<forall>b < unat (sb_size (sb s)). of_nat b \<in> meta_blocks s \<longrightarrow> blk_used (sb s) V b)"

definition set_mark :: "superblock \<Rightarrow> nat \<Rightarrow> bool \<Rightarrow> (u32 \<Rightarrow> u8 list) \<Rightarrow> u32 \<Rightarrow> u8 list" where
  "set_mark sp b m V =
     (let d = V (BBLOCK (of_nat b) sp); k = b mod BPB div 8
      in V(BBLOCK (of_nat b) sp := d[k := if m then d ! k OR push_bit (b mod 8) 1 else d ! k AND NOT (push_bit (b mod 8) 1)]))"

lemma BPB_nat: "BPB = 4096"
  by (simp add: BPB_def BSIZE_def)

lemma BBLOCK_eq:
  assumes "b < 2 ^ 32" and "c < 2 ^ 32"
  shows "BBLOCK (of_nat b) sp = BBLOCK (of_nat c) sp \<longleftrightarrow> b div BPB = c div BPB"
proof -
  have d: "(of_nat b :: u32) div of_nat BPB = of_nat (b div BPB)" if "b < 2 ^ 32" for b
  proof -
    have "unat ((of_nat b :: u32) div of_nat BPB) = b div BPB"
      using that by (simp add: unat_div BPB_nat unat_of_nat32)
    then show ?thesis by (metis unat_of_nat32 word_unat_eq_iff div_le_dividend that le_less_trans)
  qed
  have "b div BPB < 2 ^ 32" "c div BPB < 2 ^ 32" using assms div_le_dividend le_less_trans by blast+
  then show ?thesis using of_nat_u32_inj by (auto simp: BBLOCK_def d [OF assms(1)] d [OF assms(2)])
qed

lemma bit_mark:
  assumes "j < 8" and "k < 8"
  shows "bit (x OR push_bit j 1 :: u8) k \<longleftrightarrow> bit x k \<or> j = k"
    and "bit (x AND NOT (push_bit j 1) :: u8) k \<longleftrightarrow> bit x k \<and> j \<noteq> k"
  using assms by (auto simp: bit_simps)

lemma used_set_mark:
  assumes "b < 2 ^ 32" and "c < 2 ^ 32" and "length (V (BBLOCK (of_nat b) sp)) = BSIZE"
  shows "blk_used sp (set_mark sp b m V) c \<longleftrightarrow> (if c = b then m else blk_used sp V c)"
proof (cases "b div BPB = c div BPB")
  case False
  then show ?thesis using BBLOCK_eq [OF assms(1,2), of sp] by (auto simp: blk_used_def set_mark_def Let_def)
next
  case True
  then have e: "BBLOCK (of_nat c) sp = BBLOCK (of_nat b) sp" using BBLOCK_eq [OF assms(1,2), of sp] by simp
  have l: "b mod BPB div 8 < BSIZE" by (simp add: BPB_nat BSIZE_def) 
  have "c = b \<longleftrightarrow> c mod BPB div 8 = b mod BPB div 8 \<and> c mod 8 = b mod 8"
  proof
    assume h: "c mod BPB div 8 = b mod BPB div 8 \<and> c mod 8 = b mod 8"
    have m: "x mod BPB mod 8 = x mod 8" for x by (simp add: BPB_nat mod_mod_cancel)
    have "c mod BPB = b mod BPB" using h div_mult_mod_eq [of "c mod BPB" 8] div_mult_mod_eq [of "b mod BPB" 8] by (simp add: m)
    with True show "c = b" using div_mult_mod_eq [of c BPB] div_mult_mod_eq [of b BPB] by simp
  qed simp
  then show ?thesis
    using l assms(3) by (auto simp: blk_used_def set_mark_def Let_def e nth_update_if bit_mark [unfolded push_bit_of_1])
qed

lemma length_set_mark: "length (set_mark sp b m V c) = length (V c)"
  by (simp add: set_mark_def Let_def)

lemma used_other_block:
  assumes "z \<notin> bitmap_blocks sp" and "c < unat (sb_size sp)"
  shows "blk_used sp (V(z := d)) c = blk_used sp V c"
  using assms by (auto simp: blk_used_def bitmap_blocks_def)

lemma meta_used_fresh:
  "meta_used s V \<Longrightarrow> b < unat (sb_size (sb s)) \<Longrightarrow> \<not> blk_used (sb s) V b \<Longrightarrow> of_nat b \<notin> meta_blocks s"
  by (auto simp: meta_used_def)

section \<open>\<open>balloc\<close>\<close>

lemma mod_BPB_8: "x mod BPB mod 8 = x mod (8::nat)"
  by (rule mod_mod_cancel) (simp add: BPB_nat)

lemma find_upt:
  "find P [0..<n] = Some i \<longleftrightarrow> i < n \<and> P i \<and> (\<forall>j < i. \<not> P j)"
  by (auto simp: find_Some_iff intro: order_less_trans)

text \<open>The search in one bitmap block, for a base that is a multiple of the bits of a block.\<close>

lemma balloc_bit_Some:
  assumes "balloc_bit (V (BBLOCK (of_nat b) sp)) b (unat (sb_size sp)) = Some bi" and "BPB dvd b"
  shows "b + bi < unat (sb_size sp)" "\<not> blk_used sp V (b + bi)" "BBLOCK (of_nat (b + bi)) sp = BBLOCK (of_nat b) sp"
    "bi = (b + bi) mod BPB" "bi mod 8 = (b + bi) mod 8"
proof -
  from assms(1) have bi: "bi < min BPB (unat (sb_size sp) - b)" "\<not> bit (V (BBLOCK (of_nat b) sp) ! (bi div 8)) (bi mod 8)"
    by (auto simp: balloc_bit_def find_upt)
  show lt: "b + bi < unat (sb_size sp)" using bi(1) by (simp add: less_diff_conv add.commute)
  have d: "(b + bi) div BPB = b div BPB" and m: "bi = (b + bi) mod BPB"
    using bi(1) assms(2) by (auto elim!: dvdE simp: BPB_nat)
  show "bi = (b + bi) mod BPB" by (rule m)
  show e: "BBLOCK (of_nat (b + bi)) sp = BBLOCK (of_nat b) sp"
    using BBLOCK_eq [of "b + bi" b sp] d lt unat32_less [of "sb_size sp"] by simp
  show m8: "bi mod 8 = (b + bi) mod 8" 
    using arg_cong [OF m, of "\<lambda>x. x mod 8"] by (simp only: mod_BPB_8)
  show "\<not> blk_used sp V (b + bi)" unfolding blk_used_def e m [symmetric] m8 [symmetric] by (rule bi(2))
qed

lemma balloc_bit_None:
  assumes "balloc_bit (V (BBLOCK (of_nat b) sp)) b (unat (sb_size sp)) = None" and "BPB dvd b"
    and "b \<le> c" and "c < b + BPB" and "c < unat (sb_size sp)"
  shows "blk_used sp V c"
proof -
  obtain k where c: "c = b + k" "k < BPB" using assms(3,4) by (metis add_less_cancel_left le_Suc_ex)
  have "bit (V (BBLOCK (of_nat b) sp) ! (k div 8)) (k mod 8)"
    using assms(1,5) c by (auto simp: balloc_bit_def find_None_iff)
  moreover have m: "c div BPB = b div BPB" "k = c mod BPB" using c assms(2) by (auto elim!: dvdE simp: BPB_nat)
  moreover have "k mod 8 = c mod 8" using arg_cong [OF m(2), of "\<lambda>x. x mod 8"] by (simp only: mod_BPB_8)
  moreover have "BBLOCK (of_nat c) sp = BBLOCK (of_nat b) sp"
    using BBLOCK_eq [of c b sp] m(1) assms(3,5) unat32_less [of "sb_size sp"] by simp
  ultimately show ?thesis by (simp add: blk_used_def)
qed

text \<open>What is known of the blocks the caller holds while it allocates.\<close>

definition hold_ok :: "'a fstate_scheme \<Rightarrow> (u32 \<Rightarrow> u8 list) \<Rightarrow> (nat \<times> u32) set \<Rightarrow> bool" where
  "hold_ok s V H \<longleftrightarrow> finite H \<and> (\<forall>b \<in> snd ` H. b \<notin> bitmap_blocks (sb s) \<and> blk_used (sb s) V (unat b))"

lemma hold_ok_empty [simp]: "hold_ok s V {}"
  by (simp add: hold_ok_def)

definition balloc_view :: "superblock \<Rightarrow> nat \<Rightarrow> (u32 \<Rightarrow> u8 list) \<Rightarrow> u32 \<Rightarrow> u8 list" where
  "balloc_view sp a V = (set_mark sp a True V)(of_nat a := replicate BSIZE 0)"

lemma balloc_loop_ok:
  assumes g: "fs_geom s" and m: "meta_used s V" and h: "hold_ok s V H" "card H \<le> n"
  shows "tx s H {} V (Suc (Suc n)) t \<Longrightarrow> BPB dvd b \<Longrightarrow> b \<le> c \<Longrightarrow> c < unat (sb_size (sb s)) \<Longrightarrow> \<not> blk_used (sb s) V c \<Longrightarrow>
    ok (balloc_loop 1 (sb s) b) t (\<lambda>r u. \<exists>a < unat (sb_size (sb s)). r = of_nat a \<and> \<not> blk_used (sb s) V a
      \<and> tx s H {} (balloc_view (sb s) a V) n u)"
proof (induction "c - b" arbitrary: b t rule: less_induct)
  case less
  let ?sz = "unat (sb_size (sb s))" and ?B = "BBLOCK (of_nat b) (sb s)"
  have bl: "b < ?sz" using less.prems(3,4) by simp
  then have B: "?B \<in> bitmap_blocks (sb s)" by (auto simp: bitmap_blocks_def)
  have B': "?B < disksize s" "?B \<notin> snd ` H" "?B \<notin> log_area (lg_start (lg s))"
    using g h(1) B by (auto simp: fs_geom_def hold_ok_def)
  have fin: "finite H" "card H \<le> Suc (Suc n)" using h by (simp_all add: hold_ok_def)
  show ?case unfolding balloc_loop.simps [of 1 "sb s" b] if_P [OF bl]
  proof (rule ok_bndI [OF tx_bread [OF less.prems(1) B'(1,2) fin]], rule tx_get_buf, assumption, rule insertI1)
    fix bp u x
    assume u: "tx s (insert (bp, ?B) H) {} V (Suc (Suc n)) u" and x: "b_data x = V ?B"
    show "ok (case balloc_bit (b_data x) b ?sz of
          Some bi \<Rightarrow>
            bnd (put_data bp (\<lambda>d. d[bi div 8 := d ! (bi div 8) OR push_bit (bi mod 8) 1])) (\<lambda>_.
            bnd (log_write bp) (\<lambda>_. bnd (brelse bp) (\<lambda>_. bnd (bzero 1 (of_nat (b + bi))) (\<lambda>_. ret (of_nat (b + bi))))))
        | None \<Rightarrow> bnd (brelse bp) (\<lambda>_. balloc_loop 1 (sb s) (b + BPB))) u
      (\<lambda>r u. \<exists>a < ?sz. r = of_nat a \<and> \<not> blk_used (sb s) V a \<and> tx s H {} (balloc_view (sb s) a V) n u)"
    proof (cases "balloc_bit (V ?B) b ?sz")
      case None
      have "\<not> c < b + BPB"
        using balloc_bit_None [where V = V and sp = "sb s" and b = b, OF None less.prems(2,3) _ less.prems(4)] less.prems(5) by blast
      then have "c - (b + BPB) < c - b" "b + BPB \<le> c" by (simp_all add: BPB_nat)
      then show ?thesis unfolding x None option.case
        using less.prems(2,4,5) by (intro tx_release [OF u B'(2)] less.hyps) auto
    next
      case (Some bi)
      note bi = balloc_bit_Some [where V = V and sp = "sb s" and b = b, OF Some less.prems(2)]
      let ?a = "b + bi"
      have fresh: "of_nat ?a \<notin> meta_blocks s" using meta_used_fresh [OF m bi(1,2)] .
      have ua: "unat (of_nat ?a :: u32) = ?a" using bi(1) unat32_less [of "sb_size (sb s)"] by (intro unat_of_nat32) simp
      have a: "of_nat ?a < disksize s" "of_nat ?a \<notin> snd ` H" "of_nat ?a \<notin> log_area (lg_start (lg s))"
        using g fresh h(1) bi(1,2) ua
        by (auto simp: fs_geom_def meta_blocks_def hold_ok_def word_less_nat_alt word_le_nat_alt image_iff)
      have len: "length ((V ?B)[bi div 8 := V ?B ! (bi div 8) OR push_bit (bi mod 8) 1]) = BSIZE"
        using tx_length [OF u B'(1)] by simp
      have mk: "V(?B := (V ?B)[bi div 8 := V ?B ! (bi div 8) OR push_bit (bi mod 8) 1]) = set_mark (sb s) ?a True V"
        unfolding set_mark_def Let_def bi(3) bi(4) [symmetric] bi(5) [symmetric] by simp
      show ?thesis unfolding x Some option.case
      proof (rule tx_modify [where f = "\<lambda>d. d[bi div 8 := d ! (bi div 8) OR push_bit (bi mod 8) 1]", OF u B'(2,3) len], unfold mk)
        fix v assume v: "tx s H {} (set_mark (sb s) ?a True V) (Suc n) v"
        have "ok (bzero 1 (of_nat ?a)) v (\<lambda>_ w. tx s H {} (balloc_view (sb s) ?a V) n w)"
          unfolding bzero_def balloc_view_def using h by (intro tx_block_update [OF v a fin(1)]) simp_all
        then show "ok (bnd (bzero 1 (of_nat ?a)) (\<lambda>_. ret (of_nat ?a))) v
            (\<lambda>r u. \<exists>a < ?sz. r = of_nat a \<and> \<not> blk_used (sb s) V a \<and> tx s H {} (balloc_view (sb s) a V) n u)"
          by (rule ok_bndI) (use bi(1,2) in auto)
      qed
    qed
  qed
qed

lemma balloc_loop_full:
  assumes g: "fs_geom s" and full: "\<forall>c < unat (sb_size (sb s)). blk_used (sb s) V c"
  shows "tx s {} {} V n t \<Longrightarrow> BPB dvd b \<Longrightarrow> stops_with (balloc_loop 1 (sb s) b) t (Panic ''balloc: out of blocks'')"
proof (induction "unat (sb_size (sb s)) - b" arbitrary: b t rule: less_induct)
  case less
  let ?sz = "unat (sb_size (sb s))" and ?B = "BBLOCK (of_nat b) (sb s)"
  show ?case
  proof (cases "b < ?sz")
    case True
    then have B: "?B < disksize s" using g by (auto simp: fs_geom_def bitmap_blocks_def)
    have None: "balloc_bit (V ?B) b ?sz = None"
    proof (rule ccontr)
      assume "balloc_bit (V ?B) b ?sz \<noteq> None"
      then obtain bi where "balloc_bit (V ?B) b ?sz = Some bi" by blast
      from balloc_bit_Some(1,2) [where V = V and sp = "sb s" and b = b, OF this less.prems(2)] full show False by blast
    qed
    show ?thesis unfolding balloc_loop.simps [of 1 "sb s" b] if_P [OF True]
    proof (rule stops_bndI [OF tx_bread [OF less.prems(1) B]], simp, simp, simp, rule tx_get_buf_stops, assumption, rule insertI1)
      fix bp u x
      assume u: "tx s (insert (bp, ?B) {}) {} V n u" and x: "b_data x = V ?B"
      have "stops_with (bnd (brelse bp) (\<lambda>_. balloc_loop 1 (sb s) (b + BPB))) u (Panic ''balloc: out of blocks'')"
      proof (rule stops_bndI [OF tx_brelse [OF u insertI1]], simp)
        fix v assume "tx s {(j, c) \<in> insert (bp, ?B) {}. c \<noteq> ?B} {} V n v"
        moreover have "{(j, c) \<in> insert (bp, ?B) {}. c \<noteq> ?B} = {}" by auto
        moreover have "?sz - (b + BPB) < ?sz - b" using True by (simp add: BPB_nat)
        ultimately show "stops_with (balloc_loop 1 (sb s) (b + BPB)) v (Panic ''balloc: out of blocks'')"
          using less.prems(2) by (intro less.hyps) simp_all
      qed
      then show "stops_with (case balloc_bit (b_data x) b ?sz of
          Some bi \<Rightarrow>
            bnd (put_data bp (\<lambda>d. d[bi div 8 := d ! (bi div 8) OR push_bit (bi mod 8) 1])) (\<lambda>_.
            bnd (log_write bp) (\<lambda>_. bnd (brelse bp) (\<lambda>_. bnd (bzero 1 (of_nat (b + bi))) (\<lambda>_. ret (of_nat (b + bi))))))
        | None \<Rightarrow> bnd (brelse bp) (\<lambda>_. balloc_loop 1 (sb s) (b + BPB))) u (Panic ''balloc: out of blocks'')"
        unfolding x None by simp
    qed
  next
    case False
    then show ?thesis by (simp add: balloc_loop.simps [of 1 "sb s" b])
  qed
qed

section \<open>\<open>bfree\<close>\<close>

lemma tframe_sb: "tframe s t \<Longrightarrow> tframe (s\<lparr>sb := x\<rparr>) (t\<lparr>sb := x\<rparr>)"
proof -
  assume "tframe s t"
  then obtain ps bs lh where "t = s\<lparr>procs := ps, bufs := bs, lg := (lg s)\<lparr>lg_lh := lh\<rparr>\<rparr>" "woken (procs s) ps"
    by (auto simp: tframe_def)
  then show ?thesis by (intro tframeI [where ps = ps and bs = bs and lh = lh]) simp_all
qed

lemma tx_sb: "tx s H U V n t \<Longrightarrow> sb s = x \<Longrightarrow> tx s H U V n (t\<lparr>sb := x\<rparr>)"
  using tframe_sb [of s t x] by (auto simp: tx_def)

lemma readsb_tx:
  assumes "tx s H {} V n t" and "1 < disksize s" and "1 \<notin> snd ` H" and "finite H" and "card H \<le> n"
  shows "ok (readsb 1) t (\<lambda>sp u. sp = sb_of (V 1) \<and> tx s H {} V n u)"
  unfolding readsb_def
proof (rule ok_bndI [OF tx_bread [OF assms]], rule tx_get_buf, assumption, rule insertI1)
  fix i u x assume u: "tx s (insert (i, 1) H) {} V n u" and x: "b_data x = V 1"
  show "ok (bnd (brelse i) (\<lambda>_. ret (sb_of (b_data x)))) u (\<lambda>sp u. sp = sb_of (V 1) \<and> tx s H {} V n u)"
    by (rule tx_release [OF u assms(3)]) (simp add: x)
qed

text \<open>The part of \<open>bfree\<close> before the bit is tested, for both outcomes.\<close>

lemma bfree_bit:
  assumes "unat b < unat (sb_size sp)"
  shows "bit (V (BBLOCK b sp) ! (unat b mod BPB div 8)) (unat b mod BPB mod 8) \<longleftrightarrow> blk_used sp V (unat b)"
  by (simp add: blk_used_def mod_BPB_8)

lemma bfree_ok:
  assumes t: "tx s H {} V (Suc n) t" and g: "fs_geom s" and sp: "sb_of (V 1) = sb s" and h: "finite H" "card H \<le> Suc n"
    "1 \<notin> snd ` H" "snd ` H \<inter> bitmap_blocks (sb s) = {}"
    and b: "unat b < unat (sb_size (sb s))" "blk_used (sb s) V (unat b)"
  shows "ok (bfree 1 b) t (\<lambda>_ u. tx s H {} (set_mark (sb s) (unat b) False V) n u)"
proof -
  let ?B = "BBLOCK b (sb s)"
  have B: "?B \<in> bitmap_blocks (sb s)" using b(1) by (auto simp: bitmap_blocks_def intro: image_eqI [of _ _ "unat b"])
  have B': "?B < disksize s" "?B \<notin> snd ` H" "?B \<notin> log_area (lg_start (lg s))"
    using g h(4) B by (auto simp: fs_geom_def)
  have d1: "1 < disksize s" using g by (simp add: fs_geom_def)
  let ?f = "\<lambda>d :: u8 list. d[unat b mod BPB div 8 := d ! (unat b mod BPB div 8) AND NOT (push_bit (unat b mod BPB mod 8) 1)]"
  have mk: "V(?B := ?f (V ?B)) = set_mark (sb s) (unat b) False V"
    by (simp add: set_mark_def Let_def mod_BPB_8)
  show ?thesis unfolding bfree_def
  proof (rule ok_bndI [OF readsb_tx [OF t d1 h(3,1,2)]])
    fix sp' u assume u: "sp' = sb_of (V 1) \<and> tx s H {} V (Suc n) u"
    then have u': "tx s H {} V (Suc n) (u\<lparr>sb := sp'\<rparr>)" using sp by (intro tx_sb) simp_all
    have "ok (bnd (bread 1 ?B) (\<lambda>bp. let bi = unat b mod BPB in
       bnd (get_buf bp) (\<lambda>x.
       if \<not> bit (b_data x ! (bi div 8)) (bi mod 8) then panic ''freeing free block''
       else bnd (put_data bp (\<lambda>d. d[bi div 8 := d ! (bi div 8) AND NOT (push_bit (bi mod 8) 1)])) (\<lambda>_.
         bnd (log_write bp) (\<lambda>_. brelse bp))))) (u\<lparr>sb := sp'\<rparr>) (\<lambda>_ v. tx s H {} (V(?B := ?f (V ?B))) n v)"
      unfolding Let_def
    proof (rule ok_bndI [OF tx_bread [OF u' B'(1,2) h(1,2)]], rule tx_get_buf, assumption, rule insertI1)
      fix bp v x assume v: "tx s (insert (bp, ?B) H) {} V (Suc n) v" and x: "b_data x = V ?B"
      have len: "length (?f (V ?B)) = BSIZE" using tx_length [OF v B'(1)] by simp
      have "ok (bnd (put_data bp ?f) (\<lambda>_. bnd (log_write bp) (\<lambda>_. bnd (brelse bp) (\<lambda>_. ret ())))) v
          (\<lambda>_ w. tx s H {} (V(?B := ?f (V ?B))) n w)"
        by (rule tx_modify [where f = ?f, OF v B'(2,3) len]) simp
      then show "ok (if \<not> bit (b_data x ! (unat b mod BPB div 8)) (unat b mod BPB mod 8) then panic ''freeing free block''
       else bnd (put_data bp ?f) (\<lambda>_. bnd (log_write bp) (\<lambda>_. brelse bp))) v (\<lambda>_ w. tx s H {} (V(?B := ?f (V ?B))) n w)"
        using b bfree_bit [OF b(1), of V] by (simp only: x bnd_unit) simp
    qed
    then show "ok (bnd (upd (\<lambda>s. s\<lparr>sb := sp'\<rparr>)) (\<lambda>_. bnd (bread 1 (BBLOCK b sp')) (\<lambda>bp. let bi = unat b mod BPB in
       bnd (get_buf bp) (\<lambda>x.
       if \<not> bit (b_data x ! (bi div 8)) (bi mod 8) then panic ''freeing free block''
       else bnd (put_data bp (\<lambda>d. d[bi div 8 := d ! (bi div 8) AND NOT (push_bit (bi mod 8) 1)])) (\<lambda>_.
         bnd (log_write bp) (\<lambda>_. brelse bp)))))) u (\<lambda>_ v. tx s H {} (set_mark (sb s) (unat b) False V) n v)"
      using u sp mk by (simp add: ok_bnd [of "upd _"])
  qed
qed

lemma bfree_free_panics:
  assumes t: "tx s {} {} V n t" and g: "fs_geom s" and sp: "sb_of (V 1) = sb s"
    and b: "unat b < unat (sb_size (sb s))" "\<not> blk_used (sb s) V (unat b)"
  shows "stops_with (bfree 1 b) t (Panic ''freeing free block'')"
proof -
  let ?B = "BBLOCK b (sb s)"
  have "?B \<in> bitmap_blocks (sb s)" using b(1) by (auto simp: bitmap_blocks_def intro: image_eqI [of _ _ "unat b"])
  then have B': "?B < disksize s" using g by (auto simp: fs_geom_def)
  have d1: "1 < disksize s" using g by (simp add: fs_geom_def)
  show ?thesis unfolding bfree_def
  proof (rule stops_bndI [OF readsb_tx [OF t d1]], simp, simp, simp, unfold stops_upd)
    fix sp' u assume u: "sp' = sb_of (V 1) \<and> tx s {} {} V n u"
    then have sp': "sp' = sb s" and u': "tx s {} {} V n (u\<lparr>sb := sp'\<rparr>)" using sp by (auto intro!: tx_sb)
    show "stops_with (bnd (bread 1 (BBLOCK b sp')) (\<lambda>bp. let bi = unat b mod BPB in
       bnd (get_buf bp) (\<lambda>x.
       if \<not> bit (b_data x ! (bi div 8)) (bi mod 8) then panic ''freeing free block''
       else bnd (put_data bp (\<lambda>d. d[bi div 8 := d ! (bi div 8) AND NOT (push_bit (bi mod 8) 1)])) (\<lambda>_.
         bnd (log_write bp) (\<lambda>_. brelse bp))))) (u\<lparr>sb := sp'\<rparr>) (Panic ''freeing free block'')"
      unfolding Let_def sp'
      by (rule stops_bndI [OF tx_bread [OF u' [unfolded sp'] B']], simp, simp, simp, rule tx_get_buf_stops, assumption, rule insertI1)
        (use bfree_bit [OF b(1), of V] b(2) in simp)
  qed
qed

section \<open>Properties\<close>

lemma fs_geom_frame: "tframe s t \<Longrightarrow> fs_geom t = fs_geom s"
  using tframe_sel(2,8) [of s t] tframe_fs [of s t] by (simp add: fs_geom_def)

lemma meta_used_frame: "tframe s t \<Longrightarrow> meta_used t V = meta_used s V"
  using tframe_sel(8) [of s t] tframe_fs [of s t] by (simp add: meta_used_def meta_blocks_def)

text \<open>What \<open>balloc\<close> leaves of the blocks.\<close>

lemma balloc_view_used:
  assumes g: "fs_geom s" and m: "meta_used s V" and a: "a < unat (sb_size (sb s))" "\<not> blk_used (sb s) V a"
    and len: "\<And>b. b < disksize s \<Longrightarrow> length (V b) = BSIZE" and c: "c < unat (sb_size (sb s))"
  shows "blk_used (sb s) (balloc_view (sb s) a V) c \<longleftrightarrow> c = a \<or> blk_used (sb s) V c"
proof -
  have B: "BBLOCK (of_nat a) (sb s) \<in> bitmap_blocks (sb s)" using a(1) by (auto simp: bitmap_blocks_def)
  then have l: "length (V (BBLOCK (of_nat a) (sb s))) = BSIZE" using g len by (simp add: fs_geom_def)
  have nb: "of_nat a \<notin> bitmap_blocks (sb s)" using meta_used_fresh [OF m a] by (simp add: meta_blocks_def)
  have lt: "a < 2 ^ 32" "c < 2 ^ 32" using a(1) c unat32_less [of "sb_size (sb s)"] by linarith+
  show ?thesis unfolding balloc_view_def used_other_block [OF nb c] using used_set_mark [where V = V and sp = "sb s", OF lt l, of True] by auto
qed

lemma balloc_view_other:
  "b \<noteq> of_nat a \<Longrightarrow> b \<notin> bitmap_blocks sp \<Longrightarrow> a < unat (sb_size sp) \<Longrightarrow> balloc_view sp a V b = V b"
  by (auto simp: balloc_view_def set_mark_def Let_def bitmap_blocks_def)

text \<open>
  C10. \<open>balloc\<close> allocates a free block. Inside a transaction with room for two blocks, on a file system with a free
  block, it returns a block that was free; the block is zeroed, its bit and no other is set, and no other
  block changes.
\<close>

theorem balloc_fresh:
  assumes "fs_geom s" and "meta_used s (vw s)" and "tx_ready (n + 2) s"
    and "c < unat (sb_size (sb s))" and "\<not> blk_used (sb s) (vw s) c"
  shows "ok (balloc 1) s (\<lambda>r t. unat r < unat (sb_size (sb s)) \<and> \<not> blk_used (sb s) (vw s) (unat r)
     \<and> vw t r = replicate BSIZE 0 \<and> tx_ready n t \<and> meta_used t (vw t)
     \<and> (\<forall>c < unat (sb_size (sb s)). blk_used (sb s) (vw t) c \<longleftrightarrow> c = unat r \<or> blk_used (sb s) (vw s) c)
     \<and> (\<forall>b. b \<noteq> r \<and> b \<notin> bitmap_blocks (sb s) \<longrightarrow> vw t b = vw s b))"
proof -
  have t: "tx s {} {} (vw s) (Suc (Suc n)) s" using tx_start [OF assms(3)] by simp
  have len: "length (vw s b) = BSIZE" if "b < disksize s" for b using tx_length [OF t that] .
  have "ok (balloc_loop 1 (sb s) 0) s (\<lambda>r u. \<exists>a < unat (sb_size (sb s)). r = of_nat a \<and> \<not> blk_used (sb s) (vw s) a
      \<and> tx s {} {} (balloc_view (sb s) a (vw s)) n u)"
    by (rule balloc_loop_ok [OF assms(1,2) hold_ok_empty _ t _ _ assms(4,5)]) simp_all
  then show ?thesis unfolding balloc_def ok_bnd [of "gets _"] ok_gets
  proof (rule ok_mono, elim exE conjE)
    fix r :: u32 and u a assume a: "a < unat (sb_size (sb s))" "r = of_nat a" "\<not> blk_used (sb s) (vw s) a"
      and u: "tx s {} {} (balloc_view (sb s) a (vw s)) n u"
    note f = tx_finish [OF u]
    have ur: "unat r = a" using a(1,2) unat32_less [of "sb_size (sb s)"] unat_of_nat32 [of a] by simp
    note bv = balloc_view_used [OF assms(1,2) a(1,3) len] and bo = balloc_view_other [where sp = "sb s" and a = a and V = "vw s", OF _ _ a(1)]
    have "meta_used u (vw u)"
      using f meta_used_frame [of s u "vw u"] bv assms(2) by (auto simp: meta_used_def)
    then show "unat r < unat (sb_size (sb s)) \<and> \<not> blk_used (sb s) (vw s) (unat r)
     \<and> vw u r = replicate BSIZE 0 \<and> tx_ready n u \<and> meta_used u (vw u)
     \<and> (\<forall>c < unat (sb_size (sb s)). blk_used (sb s) (vw u) c \<longleftrightarrow> c = unat r \<or> blk_used (sb s) (vw s) c)
     \<and> (\<forall>b. b \<noteq> r \<and> b \<notin> bitmap_blocks (sb s) \<longrightarrow> vw u b = vw s b)"
      using f a ur bv bo by (auto simp: balloc_view_def)
  qed
qed

text \<open>
  C11. \<open>bfree\<close> gives a block back: its bit and no other is cleared, nothing but the bitmap changes, and freeing a
  block that is free stops the kernel.
\<close>

theorem bfree_clears:
  assumes "fs_geom s" and "tx_ready (n + 1) s" and "sb_of (vw s 1) = sb s" and "b < sb_size (sb s)"
  shows "if blk_used (sb s) (vw s) (unat b)
     then ok (bfree 1 b) s (\<lambda>_ t. tx_ready n t \<and> (\<forall>a. a \<notin> bitmap_blocks (sb s) \<longrightarrow> vw t a = vw s a)
       \<and> (\<forall>c < unat (sb_size (sb s)). blk_used (sb s) (vw t) c \<longleftrightarrow> c \<noteq> unat b \<and> blk_used (sb s) (vw s) c))
     else stops_with (bfree 1 b) s (Panic ''freeing free block'')"
proof -
  have t: "tx s {} {} (vw s) (Suc n) s" using tx_start [OF assms(2)] by simp
  have b: "unat b < unat (sb_size (sb s))" using assms(4) by (simp add: word_less_nat_alt)
  have B: "BBLOCK b (sb s) \<in> bitmap_blocks (sb s)" using b by (auto simp: bitmap_blocks_def intro: image_eqI [of _ _ "unat b"])
  then have l: "length (vw s (BBLOCK (of_nat (unat b)) (sb s))) = BSIZE" using assms(1) tx_length [OF t] by (simp add: fs_geom_def)
  have us: "blk_used (sb s) (set_mark (sb s) (unat b) False (vw s)) c \<longleftrightarrow> c \<noteq> unat b \<and> blk_used (sb s) (vw s) c"
    if "c < unat (sb_size (sb s))" for c
    using used_set_mark [where V = "vw s" and sp = "sb s" and b = "unat b", OF _ _ l, of c False] that b unat32_less [of "sb_size (sb s)"] by auto
  have "ok (bfree 1 b) s (\<lambda>_ t. tx_ready n t \<and> (\<forall>a. a \<notin> bitmap_blocks (sb s) \<longrightarrow> vw t a = vw s a)
       \<and> (\<forall>c < unat (sb_size (sb s)). blk_used (sb s) (vw t) c \<longleftrightarrow> c \<noteq> unat b \<and> blk_used (sb s) (vw s) c))"
    if used: "blk_used (sb s) (vw s) (unat b)"
  proof (rule ok_mono [OF bfree_ok [OF t assms(1,3) _ _ _ _ b used]])
    fix u assume "tx s {} {} (set_mark (sb s) (unat b) False (vw s)) n u"
    from tx_finish [OF this] show "tx_ready n u \<and> (\<forall>a. a \<notin> bitmap_blocks (sb s) \<longrightarrow> vw u a = vw s a)
       \<and> (\<forall>c < unat (sb_size (sb s)). blk_used (sb s) (vw u) c \<longleftrightarrow> c \<noteq> unat b \<and> blk_used (sb s) (vw s) c)"
      using us B by (auto simp: set_mark_def Let_def)
  qed simp_all
  then show ?thesis using bfree_free_panics [OF t assms(1,3) b] by simp
qed

subsection \<open>The properties on a concrete file system\<close>

text \<open>
  A disk of 100 blocks: log from block 2, one block of inodes at 32, the bitmap at 33, and an open transaction.
\<close>

definition super1 :: "u8 list" where
  "super1 = foldl (\<lambda>d (k, v). put32 d (4 * k) v) (replicate BSIZE 0) [(0, 100), (1, 66), (2, 8), (3, 30), (4, 2), (5, 32), (6, 33)]"

definition image1 :: "u32 \<Rightarrow> u8 list" where
  "image1 b = (if b = 1 then super1
     else if b = 33 then [255, 255, 255, 255, 3] @ replicate (BSIZE - 5) 0 else replicate BSIZE 0)"

definition sb1 :: superblock where
  "sb1 = \<lparr>sb_size = 100, sb_nblocks = 66, sb_ninodes = 8, sb_nlog = 30, sb_logstart = 2, sb_inodestart = 32, sb_bmapstart = 33\<rparr>"

definition fs1 :: tstate where
  "fs1 = kern0\<lparr>memdisk := image1, sb := sb1, lg := log0 (head0 0 0) 1\<rparr>"

lemma sb1_size [simp]: "sb_size sb1 = 100"
  by (simp add: sb1_def)

lemma fs1_sel [simp]:
  "no_locks fs1" "bufs fs1 = idle_bufs" "memdisk fs1 = image1" "disksize fs1 = 100" "sb fs1 = sb1" "lg fs1 = log0 (head0 0 0) 1"
  by (simp_all add: fs1_def del: no_locks_free) (simp add: no_locks_def lk_free_def kern0_def cli_ok_def del: no_locks_free no_locks_cli)

lemma image1_sel: "sb_of (image1 1) = sb1" "length (image1 b) = BSIZE"
  by (simp_all add: image1_def super1_def sb_of_def sb1_def BSIZE_def)

lemma cache1: "bc_inv fs1" "hset fs1 = {}" "dset fs1 = {}" "vw fs1 = image1"
  using idle_cache [of fs1] by (simp_all add: image1_sel)

lemma area1: "b \<in> log_area 2 \<longleftrightarrow> 2 \<le> unat b \<and> unat b < 32"
proof
  assume "b \<in> log_area 2"
  then obtain k where k: "k < 30" "b = 2 + of_nat k" by (auto simp: log_area_def)
  then have "unat b = 2 + k" by (simp add: unat_of_nat32 unat_word_ariths)
  with k(1) show "2 \<le> unat b \<and> unat b < 32" by simp
next
  assume b: "2 \<le> unat b \<and> unat b < 32"
  then have "b = 2 + of_nat (unat b - 2)" by (simp add: of_nat_diff)
  moreover have "unat b - 2 < 30" using b by linarith
  ultimately show "b \<in> log_area 2" unfolding log_area_def by auto
qed

lemma bitmap1: "bitmap_blocks sb1 = {33}"
proof -
  have "(of_nat b :: u32) div 4096 = 0" if "b < 100" for b
  proof -
    have "unat ((of_nat b :: u32) div 4096) = 0" using that by (simp add: unat_div unat_of_nat32)
    then show ?thesis by (simp add: unat_eq_zero)
  qed
  then show ?thesis by (auto simp: bitmap_blocks_def BBLOCK_def sb1_def BPB_nat intro!: image_eqI [of _ _ 0])
qed

lemma inodes1: "inode_blocks sb1 = {32}"
proof -
  have "i div 8 = 0" if "i < 8" for i :: u32
  proof -
    have "unat (i div 8) = 0" using that by (simp add: unat_div word_less_nat_alt)
    then show ?thesis by (simp add: unat_eq_zero)
  qed
  then show ?thesis by (auto simp: inode_blocks_def IBLOCK_def sb1_def IPB_def BSIZE_def DINODE_SIZE_def intro!: image_eqI [of _ _ 0])
qed

lemma geom1: "fs_geom fs1"
  by (simp add: fs_geom_def bitmap1 inodes1 log0_def area1)

lemma used1: "b < 100 \<Longrightarrow> blk_used sb1 image1 b \<longleftrightarrow> b < 34"
proof -
  assume b: "b < 100"
  then have "BBLOCK (of_nat b) sb1 = 33" using bitmap1 by (auto simp: bitmap_blocks_def sb1_def)
  moreover have "bit (([255, 255, 255, 255, 3] @ replicate 507 0 :: u8 list) ! (b div 8)) (b mod 8) \<longleftrightarrow> b < 34"
  proof -
    define k j where "k = b div 8" and "j = b mod 8"
    have bk: "b = 8 * k + j" "j < 8" by (simp_all add: k_def j_def)
    consider "k \<in> {0, 1, 2, 3}" | "k = 4" | "4 < k" by fastforce
    then have "bit (([255, 255, 255, 255, 3] @ replicate 507 0 :: u8 list) ! k) j \<longleftrightarrow> b < 34"
    proof cases
      case 1
      have "(255 :: u8) = - 1" by simp
      then have "bit (255 :: u8) j" using bk(2) by (simp only: bit_minus_1_iff) simp
      then show ?thesis using 1 bk by auto
    next
      case 2
      have "bit (3 :: u8) j \<longleftrightarrow> j < 2" using bk(2) by (auto simp: less_Suc_eq numeral_eq_Suc)
      then show ?thesis using 2 bk by simp
    next
      case 3
      then show ?thesis using bk b by (simp add: nth_append)
    qed
    then show ?thesis by (simp only: k_def j_def)
  qed
  ultimately show ?thesis using b by (simp add: blk_used_def image1_def BPB_nat BSIZE_def)
qed

lemma meta1: "meta_used fs1 image1"
proof -
  have "b < 34" if "b < 100" "of_nat b \<in> meta_blocks fs1" for b
  proof -
    have "unat (of_nat b :: u32) = b" using that(1) by (simp add: unat_of_nat32)
    then show ?thesis using that(2) by (auto simp: meta_blocks_def bitmap1 inodes1 log0_def area1 split: if_splits)
  qed
  then show ?thesis by (simp add: meta_used_def used1)
qed

lemma ready1: "n \<le> 29 \<Longrightarrow> tx_ready n fs1"
  using area0(1)
  by (simp add: tx_ready_def log_inv_def log_geom_def cache1 log0_def head0_def logged_def)
    (simp add: image1_def get32_def BSIZE_def)

lemma balloc_fresh_witness:
  "ok (balloc 1) fs1 (\<lambda>r t. 34 \<le> unat r \<and> unat r < 100 \<and> vw t r = replicate BSIZE 0 \<and> vw t 50 = replicate BSIZE 0)"
proof -
  have c: "40 < unat (sb_size (sb fs1))" "\<not> blk_used (sb fs1) (vw fs1) 40" using used1 [of 40] by (simp_all add: cache1)
  have m: "meta_used fs1 (vw fs1)" "tx_ready (0 + 2) fs1" using meta1 ready1 [of "0 + 2"] by (simp_all add: cache1)
  show ?thesis
  proof (rule ok_mono [OF balloc_fresh [OF geom1 m c]], goal_cases)
    case (1 r t)
    then have "vw t 50 = replicate BSIZE 0" by (cases "r = 50") (auto simp: cache1 bitmap1 image1_def)
    with 1 show ?case by (auto simp: cache1 used1)
  qed
qed

lemma bfree_clears_witness:
  "ok (bfree 1 33) fs1 (\<lambda>_ t. \<not> blk_used sb1 (vw t) 33) \<and> stops_with (bfree 1 50) fs1 (Panic ''freeing free block'')"
  using bfree_clears [where s = fs1 and n = 0 and b = 33] bfree_clears [where s = fs1 and n = 0 and b = 50]
    geom1 ready1 [of 1] used1 [of 33] used1 [of 50]
  by (auto elim!: ok_mono simp: cache1 image1_sel)

end
