(* ===== verification/Fs_Files.thy ===== *)
theory Fs_Files
  imports Fs_Blocks
begin

text \<open>
  Files: the direct and indirect blocks of an inode represent a sequence of bytes with a size, and \<open>bmap\<close>, \<open>readi\<close>
  and \<open>writei\<close> implement its lookup and its update.
\<close>

section \<open>The blocks of a file\<close>

definition fblk :: "(u32 \<Rightarrow> u8 list) \<Rightarrow> inode \<Rightarrow> nat \<Rightarrow> u32" where
  "fblk V ip k =
     (if k < NDIRECT then i_addrs ip ! k
      else if i_addrs ip ! NDIRECT = 0 then 0
      else get32 (V (i_addrs ip ! NDIRECT)) (4 * (k - NDIRECT)))"

text \<open>The bytes of a file; a block that is not there reads as zeros.\<close>

definition fbyte :: "(u32 \<Rightarrow> u8 list) \<Rightarrow> inode \<Rightarrow> nat \<Rightarrow> u8" where
  "fbyte V ip k = (if fblk V ip (k div BSIZE) = 0 then 0 else V (fblk V ip (k div BSIZE)) ! (k mod BSIZE))"

definition data_block :: "'a fstate_scheme \<Rightarrow> (u32 \<Rightarrow> u8 list) \<Rightarrow> u32 \<Rightarrow> bool" where
  "data_block s V b \<longleftrightarrow> unat b < unat (sb_size (sb s)) \<and> blk_used (sb s) V (unat b) \<and> b \<notin> meta_blocks s"

text \<open>An inode whose blocks are data blocks, marked in the bitmap and used for one purpose each.\<close>

definition file_ok :: "'a fstate_scheme \<Rightarrow> (u32 \<Rightarrow> u8 list) \<Rightarrow> inode \<Rightarrow> bool" where
  "file_ok s V ip \<longleftrightarrow> length (i_addrs ip) = NDIRECT + 1 \<and> i_dev ip = 1
     \<and> (\<forall>k < MAXFILE. fblk V ip k \<noteq> 0 \<longrightarrow> data_block s V (fblk V ip k) \<and> fblk V ip k \<noteq> i_addrs ip ! NDIRECT)
     \<and> (i_addrs ip ! NDIRECT \<noteq> 0 \<longrightarrow> data_block s V (i_addrs ip ! NDIRECT))
     \<and> (\<forall>j < MAXFILE. \<forall>k < MAXFILE. fblk V ip j = fblk V ip k \<and> fblk V ip j \<noteq> 0 \<longrightarrow> j = k)"

definition free_blocks :: "'a fstate_scheme \<Rightarrow> (u32 \<Rightarrow> u8 list) \<Rightarrow> nat set" where
  "free_blocks s V = {c. c < unat (sb_size (sb s)) \<and> \<not> blk_used (sb s) V c}"

text \<open>What is assumed of the file system as a whole, apart from the file at hand.\<close>

definition fs_ok :: "'a fstate_scheme \<Rightarrow> (u32 \<Rightarrow> u8 list) \<Rightarrow> bool" where
  "fs_ok s V \<longleftrightarrow> fs_geom s \<and> meta_used s V \<and> (\<forall>b < disksize s. length (V b) = BSIZE)"

lemma fs_consts: "NDIRECT = 12" "NINDIRECT = 128" "MAXFILE = 140" "BSIZE = 512"
  by (simp_all add: NDIRECT_def NINDIRECT_def MAXFILE_def BSIZE_def)

lemma finite_free [simp]: "finite (free_blocks s V)"
  by (rule finite_subset [of _ "{..<unat (sb_size (sb s))}"]) (auto simp: free_blocks_def)

lemma fs_icache [simp]:
  "fs_geom (s\<lparr>icache := ic\<rparr>) = fs_geom s" "meta_used (s\<lparr>icache := ic\<rparr>) = meta_used s" "free_blocks (s\<lparr>icache := ic\<rparr>) = free_blocks s"
  "data_block (s\<lparr>icache := ic\<rparr>) = data_block s" "file_ok (s\<lparr>icache := ic\<rparr>) = file_ok s" "fs_ok (s\<lparr>icache := ic\<rparr>) = fs_ok s"
  "meta_blocks (s\<lparr>icache := ic\<rparr>) = meta_blocks s" "hold_ok (s\<lparr>icache := ic\<rparr>) = hold_ok s"
  by (simp_all add: fun_eq_iff fs_geom_def meta_used_def meta_blocks_def free_blocks_def data_block_def file_ok_def fs_ok_def hold_ok_def)

lemma data_block_facts:
  assumes "fs_ok s V" and "data_block s V b"
  shows "b < disksize s" "b \<notin> log_area (lg_start (lg s))" "b \<notin> bitmap_blocks (sb s)" "b \<noteq> 0" "length (V b) = BSIZE"
proof -
  show "b \<notin> log_area (lg_start (lg s))" "b \<notin> bitmap_blocks (sb s)" "b \<noteq> 0"
    using assms(2) by (auto simp: data_block_def meta_blocks_def)
  show "b < disksize s"
    using assms by (auto simp: data_block_def fs_ok_def fs_geom_def word_less_nat_alt word_le_nat_alt)
  then show "length (V b) = BSIZE" using assms(1) by (simp add: fs_ok_def)
qed

section \<open>What an allocation keeps\<close>

text \<open>\<open>W\<close> is \<open>V\<close> after block \<open>a\<close>, which was free, has been allocated.\<close>

definition allocated :: "'a fstate_scheme \<Rightarrow> (u32 \<Rightarrow> u8 list) \<Rightarrow> nat \<Rightarrow> (u32 \<Rightarrow> u8 list) \<Rightarrow> bool" where
  "allocated s V a W \<longleftrightarrow> fs_ok s V \<and> a \<in> free_blocks s V \<and> W = balloc_view (sb s) a V"

lemma alloc_fresh:
  assumes "allocated s V a W"
  shows "of_nat a \<notin> meta_blocks s" "unat (of_nat a :: u32) = a" "a < unat (sb_size (sb s))" "\<not> blk_used (sb s) V a" "of_nat a \<noteq> (0 :: u32)"
proof -
  show lt: "a < unat (sb_size (sb s))" and nu: "\<not> blk_used (sb s) V a" using assms by (simp_all add: allocated_def free_blocks_def)
  show m: "of_nat a \<notin> meta_blocks s" using meta_used_fresh [OF _ lt nu] assms by (simp add: allocated_def fs_ok_def)
  show "unat (of_nat a :: u32) = a" using lt unat32_less [of "sb_size (sb s)"] by (intro unat_of_nat32) simp
  show "of_nat a \<noteq> (0 :: u32)" using m by (auto simp: meta_blocks_def)
qed

lemma alloc_used:
  assumes "allocated s V a W" and "c < unat (sb_size (sb s))"
  shows "blk_used (sb s) W c \<longleftrightarrow> c = a \<or> blk_used (sb s) V c"
proof -
  have W: "W = balloc_view (sb s) a V" using assms(1) by (simp add: allocated_def)
  show ?thesis unfolding W using assms alloc_fresh [OF assms(1)] by (intro balloc_view_used) (auto simp: allocated_def fs_ok_def)
qed

lemma alloc_zero: "allocated s V a W \<Longrightarrow> W (of_nat a) = replicate BSIZE 0"
  by (simp add: allocated_def balloc_view_def)

lemma alloc_old_block:
  assumes al: "allocated s V a W" and b: "data_block s V b"
  shows "data_block s W b \<and> W b = V b \<and> b \<noteq> of_nat a"
proof -
  have ne: "b \<noteq> of_nat a" using b alloc_fresh(2,4) [OF al] by (auto simp: data_block_def)
  moreover have "W b = V b"
    using balloc_view_other [OF ne _ alloc_fresh(3) [OF al], of V] data_block_facts(3) [OF _ b] al by (simp add: allocated_def)
  ultimately show ?thesis using b alloc_used [OF al] by (auto simp: data_block_def)
qed

lemma alloc_inode_block:
  assumes al: "allocated s V a W" and b: "b \<in> inode_blocks (sb s)"
  shows "W b = V b \<and> \<not> data_block s X b"
proof -
  have ne: "b \<noteq> of_nat a" using b alloc_fresh(1) [OF al] by (auto simp: meta_blocks_def)
  have "b \<notin> bitmap_blocks (sb s)" using al b by (auto simp: allocated_def fs_ok_def fs_geom_def)
  then show ?thesis using balloc_view_other [OF ne _ alloc_fresh(3) [OF al], of V] al b by (simp add: allocated_def data_block_def meta_blocks_def)
qed

lemma alloc_new_block: "allocated s V a W \<Longrightarrow> data_block s W (of_nat a)"
  using alloc_fresh [of s V a W] alloc_used [of s V a W a] by (simp add: data_block_def)

lemma alloc_fs_ok:
  assumes al: "allocated s V a W"
  shows "fs_ok s W"
proof -
  have "length (W b) = BSIZE" if "b < disksize s" for b
    using that al by (simp add: allocated_def balloc_view_def length_set_mark fs_ok_def)
  moreover have "meta_used s W" using al alloc_used [OF al] by (auto simp: allocated_def fs_ok_def meta_used_def)
  ultimately show ?thesis using al by (simp add: allocated_def fs_ok_def)
qed

lemma alloc_one_less:
  assumes al: "allocated s V a W" and "m < card (free_blocks s V)"
  shows "m \<le> card (free_blocks s W)"
proof -
  have "free_blocks s W = free_blocks s V - {a}"
    using alloc_used [OF al] by (auto simp: free_blocks_def)
  then show ?thesis using assms by (simp add: allocated_def)
qed

lemma alloc_fblk: "allocated s V a W \<Longrightarrow> file_ok s V ip \<Longrightarrow> fblk W ip k = fblk V ip k"
  using alloc_old_block [of s V a W "i_addrs ip ! NDIRECT"] by (auto simp: fblk_def file_ok_def)

lemma alloc_file: "allocated s V a W \<Longrightarrow> file_ok s V ip \<Longrightarrow> file_ok s W ip"
  using alloc_fblk [of s V a W ip] alloc_old_block [of s V a W] by (auto simp: file_ok_def)

lemma alloc_fbyte:
  assumes al: "allocated s V a W" and f: "file_ok s V ip" and "k < MAXFILE * BSIZE"
  shows "fbyte W ip k = fbyte V ip k"
proof -
  have "k div BSIZE < MAXFILE" using assms(3) by (simp add: fs_consts less_mult_imp_div_less)
  then show ?thesis
    using f alloc_fblk [OF al f, of "k div BSIZE"] alloc_old_block [OF al, of "fblk V ip (k div BSIZE)"] by (auto simp: fbyte_def file_ok_def)
qed

lemma alloc_not_in_file:
  "allocated s V a W \<Longrightarrow> file_ok s V ip \<Longrightarrow> k < MAXFILE \<Longrightarrow> fblk V ip k \<noteq> of_nat a"
  "allocated s V a W \<Longrightarrow> file_ok s V ip \<Longrightarrow> i_addrs ip ! NDIRECT \<noteq> of_nat a"
  using alloc_old_block [of s V a W] alloc_fresh(5) [of s V a W] by (auto simp: file_ok_def)


section \<open>Writing a data block\<close>

lemma upd_data_block:
  assumes ok: "fs_ok s V" and b: "data_block s V b" and len: "length d = BSIZE"
  shows "fs_ok s (V(b := d))" "data_block s (V(b := d)) = data_block s V" "free_blocks s (V(b := d)) = free_blocks s V"
proof -
  have nb: "b \<notin> bitmap_blocks (sb s)" using data_block_facts(3) [OF ok b] .
  have u: "blk_used (sb s) (V(b := d)) c = blk_used (sb s) V c" if "c < unat (sb_size (sb s))" for c
    using used_other_block [OF nb that] by simp
  show "fs_ok s (V(b := d))" using ok u len by (auto simp: fs_ok_def meta_used_def)
  show "data_block s (V(b := d)) = data_block s V" using u by (auto simp: data_block_def fun_eq_iff)
  show "free_blocks s (V(b := d)) = free_blocks s V" using u by (auto simp: free_blocks_def)
qed

section \<open>Growing a file\<close>

definition fblocks :: "(u32 \<Rightarrow> u8 list) \<Rightarrow> inode \<Rightarrow> u32 set" where
  "fblocks V ip = {b. b \<noteq> 0 \<and> (b = i_addrs ip ! NDIRECT \<or> (\<exists>k < MAXFILE. b = fblk V ip k))}"

text \<open>
  From \<open>V\<close> and \<open>ip\<close> to \<open>W\<close> and \<open>ip'\<close> blocks may have been added to the file, and nothing else: it has the same bytes,
  the blocks it had, and no block of another file has changed.
\<close>

definition grown :: "'a fstate_scheme \<Rightarrow> (u32 \<Rightarrow> u8 list) \<Rightarrow> inode \<Rightarrow> (u32 \<Rightarrow> u8 list) \<Rightarrow> inode \<Rightarrow> bool" where
  "grown s V ip W ip' \<longleftrightarrow> fs_ok s W \<and> file_ok s W ip' \<and> (\<exists>as. ip' = ip\<lparr>i_addrs := as\<rparr>)
     \<and> (\<forall>j < MAXFILE * BSIZE. fbyte W ip' j = fbyte V ip j)
     \<and> (\<forall>k < MAXFILE. fblk V ip k \<noteq> 0 \<longrightarrow> fblk W ip' k = fblk V ip k)
     \<and> (\<forall>b. data_block s V b \<and> b \<notin> fblocks V ip \<longrightarrow> data_block s W b \<and> W b = V b \<and> b \<notin> fblocks W ip')
     \<and> (\<forall>b \<in> inode_blocks (sb s). W b = V b)"

lemma grown_refl: "fs_ok s V \<Longrightarrow> file_ok s V ip \<Longrightarrow> grown s V ip V ip"
  by (auto simp: grown_def intro!: exI [where x = "i_addrs ip"])

lemma grownD:
  assumes "grown s V ip W iq"
  shows "fs_ok s W" "file_ok s W iq" "\<exists>as. iq = ip\<lparr>i_addrs := as\<rparr>" "j < MAXFILE * BSIZE \<Longrightarrow> fbyte W iq j = fbyte V ip j"
    "k < MAXFILE \<Longrightarrow> fblk V ip k \<noteq> 0 \<Longrightarrow> fblk W iq k = fblk V ip k"
    "data_block s V b \<Longrightarrow> b \<notin> fblocks V ip \<Longrightarrow> data_block s W b \<and> W b = V b \<and> b \<notin> fblocks W iq"
    "b \<in> inode_blocks (sb s) \<Longrightarrow> W b = V b"
  using assms by (simp_all add: grown_def)

lemma grown_trans:
  assumes a: "grown s V ip W iq" and b: "grown s W iq X ir"
  shows "grown s V ip X ir"
proof -
  have "\<exists>as. ir = ip\<lparr>i_addrs := as\<rparr>" using grownD(3) [OF a] grownD(3) [OF b] by auto
  then show ?thesis unfolding grown_def using grownD [OF a] grownD [OF b] by simp
qed

lemma grown_by_block:
  assumes al: "allocated s V a W" and f: "file_ok s V ip" and k: "k < MAXFILE" "fblk V ip k = 0"
    and iq: "length as = NDIRECT + 1" "as ! NDIRECT = i_addrs ip ! NDIRECT"
    and X: "fs_ok s X" "data_block s X = data_block s W" "\<And>b. b \<noteq> i_addrs ip ! NDIRECT \<or> b = 0 \<Longrightarrow> X b = W b"
    and map: "\<And>j. j < MAXFILE \<Longrightarrow> fblk X (ip\<lparr>i_addrs := as\<rparr>) j = (if j = k then of_nat a else fblk V ip j)"
  shows "grown s V ip X (ip\<lparr>i_addrs := as\<rparr>)"
proof -
  let ?iq = "ip\<lparr>i_addrs := as\<rparr>"
  note fresh = alloc_not_in_file [OF al f] and new = alloc_new_block [OF al] and old = alloc_old_block [OF al]
  note ff = f [unfolded file_ok_def]
  have fl: "file_ok s X ?iq"
    unfolding file_ok_def
  proof (intro conjI allI impI)
    show "length (i_addrs ?iq) = NDIRECT + 1" "i_dev ?iq = 1" using iq ff by simp_all
    fix j assume j: "j < MAXFILE" "fblk X ?iq j \<noteq> 0"
    show "data_block s X (fblk X ?iq j)" using map [OF j(1)] j new old ff X(2) by (auto split: if_splits)
    show "fblk X ?iq j \<noteq> i_addrs ?iq ! NDIRECT" using map [OF j(1)] j fresh ff iq(2) by (auto split: if_splits)
  next
    assume "i_addrs ?iq ! NDIRECT \<noteq> 0"
    then show "data_block s X (i_addrs ?iq ! NDIRECT)" using iq(2) old ff X(2) by auto
  next
    fix i j assume ij: "i < MAXFILE" "j < MAXFILE" and e: "fblk X ?iq i = fblk X ?iq j \<and> fblk X ?iq i \<noteq> 0"
    show "i = j" using e map [OF ij(1)] map [OF ij(2)] fresh(1) [OF ij(1)] fresh(1) [OF ij(2)] ff ij by (auto split: if_splits)
  qed
  have byte: "fbyte X ?iq j = fbyte V ip j" if j: "j < MAXFILE * BSIZE" for j
  proof -
    have d: "j div BSIZE < MAXFILE" "j mod BSIZE < BSIZE" using j by (simp_all add: fs_consts less_mult_imp_div_less)
    show ?thesis
    proof (cases "j div BSIZE = k")
      case True
      then show ?thesis using map [OF k(1)] k(2) X(3) [of "of_nat a"] fresh(2) alloc_zero [OF al] d(2) by (simp add: fbyte_def)
    next
      case False
      then show ?thesis using map [OF d(1)] X(3) old ff d by (auto simp: fbyte_def)
    qed
  qed
  have other: "data_block s X b \<and> X b = V b \<and> b \<notin> fblocks X ?iq" if b: "data_block s V b" "b \<notin> fblocks V ip" for b
  proof -
    have nz: "b \<noteq> 0" using data_block_facts(4) [OF _ b(1)] al by (auto simp: allocated_def)
    have ni: "b \<noteq> i_addrs ip ! NDIRECT" "\<And>j. j < MAXFILE \<Longrightarrow> b \<noteq> fblk V ip j" using b(2) nz by (auto simp: fblocks_def)
    then show ?thesis using old [OF b(1)] X(2,3) map iq(2) by (auto simp: fblocks_def)
  qed
  have "X b = V b" if "b \<in> inode_blocks (sb s)" for b
    using alloc_inode_block [OF al that, of V] X(3) ff by (metis (no_types))
  then show ?thesis unfolding grown_def using fl byte X(1) map k other by auto
qed

text \<open>The three ways in which \<open>bmap\<close> adds a block.\<close>

lemma grown_direct:
  assumes al: "allocated s V a W" and f: "file_ok s V ip" and k: "k < NDIRECT" "i_addrs ip ! k = 0"
  shows "grown s V ip W (ip\<lparr>i_addrs := (i_addrs ip)[k := of_nat a]\<rparr>)"
    "fblk W (ip\<lparr>i_addrs := (i_addrs ip)[k := of_nat a]\<rparr>) k = of_nat a"
proof -
  have l: "length (i_addrs ip) = NDIRECT + 1" using f by (simp add: file_ok_def)
  have m: "fblk W (ip\<lparr>i_addrs := (i_addrs ip)[k := of_nat a]\<rparr>) j = (if j = k then of_nat a else fblk V ip j)" for j
    using alloc_fblk [OF al f, of j] k(1) l by (auto simp: fblk_def)
  show "fblk W (ip\<lparr>i_addrs := (i_addrs ip)[k := of_nat a]\<rparr>) k = of_nat a" using m by simp
  show "grown s V ip W (ip\<lparr>i_addrs := (i_addrs ip)[k := of_nat a]\<rparr>)"
    using k l alloc_fs_ok [OF al] m by (intro grown_by_block [OF al f]) (auto simp: fs_consts fblk_def)
qed

lemma grown_indirect:
  assumes al: "allocated s V a W" and f: "file_ok s V ip" and z: "i_addrs ip ! NDIRECT = 0"
  shows "grown s V ip W (ip\<lparr>i_addrs := (i_addrs ip)[NDIRECT := of_nat a]\<rparr>)"
proof -
  let ?iq = "ip\<lparr>i_addrs := (i_addrs ip)[NDIRECT := of_nat a]\<rparr>"
  have l: "length (i_addrs ip) = NDIRECT + 1" using f by (simp add: file_ok_def)
  have g0: "get32 (replicate BSIZE 0) (4 * (j - NDIRECT)) = 0" if "j < MAXFILE" for j
    using that by (simp add: get32_def fs_consts)
  have m: "fblk W ?iq j = fblk V ip j" if "j < MAXFILE" for j
    using alloc_zero [OF al] z l g0 [OF that] by (auto simp: fblk_def)
  note old = alloc_old_block [OF al] and ff = f [unfolded file_ok_def]
  have "file_ok s W ?iq"
    using ff m l alloc_new_block [OF al] alloc_not_in_file(1) [OF al f] old by (auto simp: file_ok_def)
  moreover have "fbyte W ?iq j = fbyte V ip j" if "j < MAXFILE * BSIZE" for j
  proof -
    have "j div BSIZE < MAXFILE" using that by (simp add: fs_consts less_mult_imp_div_less)
    then show ?thesis using m old ff by (auto simp: fbyte_def)
  qed
  moreover have "data_block s W b \<and> W b = V b \<and> b \<notin> fblocks W ?iq" if b: "data_block s V b" "b \<notin> fblocks V ip" for b
    using old [OF b(1)] b(2) m l by (auto simp: fblocks_def)
  ultimately show ?thesis unfolding grown_def using alloc_fs_ok [OF al] m alloc_inode_block [OF al] by auto
qed

lemma grown_entry:
  assumes al: "allocated s V a W" and f: "file_ok s V ip" and k: "NDIRECT \<le> k" "k < MAXFILE" "fblk V ip k = 0"
    and nz: "i_addrs ip ! NDIRECT \<noteq> 0"
  defines "X \<equiv> W(i_addrs ip ! NDIRECT := put32 (W (i_addrs ip ! NDIRECT)) (4 * (k - NDIRECT)) (of_nat a))"
  shows "grown s V ip X ip" "fblk X ip k = of_nat a"
proof -
  let ?n = "i_addrs ip ! NDIRECT"
  have l: "length (i_addrs ip) = NDIRECT + 1" and d: "data_block s V ?n" using f nz by (simp_all add: file_ok_def)
  note o = alloc_old_block [OF al d]
  have len: "length (W ?n) = BSIZE" using data_block_facts(5) [OF alloc_fs_ok [OF al], of ?n] o by simp
  note u = upd_data_block [OF alloc_fs_ok [OF al], of ?n "put32 (W ?n) (4 * (k - NDIRECT)) (of_nat a)"]
  have m: "fblk X ip j = (if j = k then of_nat a else fblk V ip j)" if "j < MAXFILE" for j
  proof -
    have "4 * (k - NDIRECT) + 4 \<le> 4 * (j - NDIRECT) \<or> 4 * (j - NDIRECT) + 4 \<le> 4 * (k - NDIRECT)" if "j \<noteq> k" "\<not> j < NDIRECT"
      using that k(1) by linarith
    then show ?thesis using that k o len nz by (auto simp: fblk_def X_def fs_consts)
  qed
  show "fblk X ip k = of_nat a" using m k(2) by simp
  have "grown s V ip X (ip\<lparr>i_addrs := i_addrs ip\<rparr>)"
    by (rule grown_by_block [OF al f k(2,3) l]) (use u o len m nz in \<open>auto simp: X_def\<close>)
  then show "grown s V ip X ip" by simp
qed


section \<open>The block map\<close>

definition with_inode :: "'a fstate_scheme \<Rightarrow> nat \<Rightarrow> inode \<Rightarrow> 'a fstate_scheme" where
  "with_inode s i ip = s\<lparr>icache := (icache s)[i := ip]\<rparr>"

lemma with_inode_simps [simp]:
  "sb (with_inode s i ip) = sb s" "lg (with_inode s i ip) = lg s" "disksize (with_inode s i ip) = disksize s"
  "fs_ok (with_inode s i ip) = fs_ok s" "free_blocks (with_inode s i ip) = free_blocks s" "allocated (with_inode s i ip) = allocated s"
  "fs_geom (with_inode s i ip) = fs_geom s" "data_block (with_inode s i ip) = data_block s" "meta_used (with_inode s i ip) = meta_used s"
  "with_inode (with_inode s i ip) i iq = with_inode s i iq"
  by (simp_all add: with_inode_def allocated_def fun_eq_iff)

lemma tx_get_inode:
  assumes "tx (with_inode s i ip) H U V n t" and "i < length (icache s)"
  shows "icache t ! i = ip"
  using tframe_fs(1) [OF txD(1) [OF assms(1)]] assms(2) by (simp add: with_inode_def)

lemma bnd_bnd: "bnd (bnd m f) g = bnd m (\<lambda>x. bnd (f x) g)"
  by (rule ext) (rule bnd_assoc)

lemma ret_bnd: "bnd (ret x) f = f x"
  by (rule ext) (simp add: bnd_def ret_def)

lemma ok_get_inode: "ok (bnd (get_inode i) f) t Q = ok (f (icache t ! i)) t Q"
  by (simp add: get_inode_def ok_bnd)

lemma tx_set_inode:
  assumes a: "tx (with_inode s i ip) H U V n t" and i: "i < length (icache s)"
  shows "tx (with_inode s i (f ip)) H U V n (t\<lparr>icache := (icache t)[i := f (icache t ! i)]\<rparr>)"
proof -
  have "icache t = (icache s)[i := ip]" using tframe_fs(1) [OF txD(1) [OF a]] by (simp add: with_inode_def)
  then show ?thesis using tx_icache [OF a, of "(icache s)[i := f ip]"] i by (simp add: with_inode_def)
qed

lemma balloc_tx:
  assumes ok: "fs_ok s V" and h: "hold_ok s V H" "card H \<le> n" and t: "tx s H {} V (n + 2) t" and f: "0 < card (free_blocks s V)"
  shows "ok (balloc 1) t (\<lambda>r u. \<exists>a W. r = of_nat a \<and> allocated s V a W \<and> tx s H {} W n u)"
proof -
  obtain c where c: "c \<in> free_blocks s V" using f by (metis card.empty less_irrefl subsetI subset_empty)
  have "ok (balloc_loop 1 (sb s) 0) t (\<lambda>r u. \<exists>a < unat (sb_size (sb s)). r = of_nat a \<and> \<not> blk_used (sb s) V a
      \<and> tx s H {} (balloc_view (sb s) a V) n u)"
    using ok c t by (intro balloc_loop_ok [OF _ _ h, where c = c]) (simp_all add: fs_ok_def free_blocks_def)
  then show ?thesis unfolding balloc_def ok_bnd ok_gets tframe_fs(2) [OF txD(1) [OF t]]
    by (rule ok_mono) (use ok in \<open>auto simp: allocated_def free_blocks_def\<close>)
qed

text \<open>What \<open>bmap\<close> gives for block \<open>k\<close> of the file.\<close>

definition bmapped :: "'a fstate_scheme \<Rightarrow> nat \<Rightarrow> (u32 \<Rightarrow> u8 list) \<Rightarrow> inode \<Rightarrow> nat \<Rightarrow> nat \<Rightarrow> u32 \<Rightarrow> 'a fstate_scheme \<Rightarrow> bool" where
  "bmapped s i V ip k n r u \<longleftrightarrow> (\<exists>W iq. tx (with_inode s i iq) {} {} W n u \<and> grown s V ip W iq
     \<and> r = fblk W iq k \<and> r \<noteq> 0 \<and> card (free_blocks s V) \<le> card (free_blocks s W) + 2 \<and> (fblk V ip k \<noteq> 0 \<longrightarrow> W = V \<and> iq = ip))"

lemma bmap_direct:
  assumes ok: "fs_ok s V" and f: "file_ok s V ip" and i: "i < length (icache s)" and k: "unat bn < NDIRECT"
    and z: "fblk V ip (unat bn) = 0 \<Longrightarrow> 0 < card (free_blocks s V)"
    and t: "tx (with_inode s i ip) {} {} V (n + (if fblk V ip (unat bn) = 0 then 5 else 0)) t"
  shows "ok (bmap i bn) t (bmapped s i V ip (unat bn) n)"
proof -
  have e: "fblk V ip (unat bn) = i_addrs ip ! unat bn" and dev: "i_dev ip = 1" using k f by (simp_all add: fblk_def file_ok_def)
  show ?thesis
  proof (cases "i_addrs ip ! unat bn = 0")
    case False
    then show ?thesis using t k grown_refl [OF ok f] tx_get_inode [OF t i]
      by (auto simp: bmap_def ok_bnd get_inode_def Let_def e bmapped_def intro!: exI [where x = V] exI [where x = ip])
  next
    case True
    have t': "tx (with_inode s i ip) {} {} V ((n + 3) + 2) t" using t True e by (simp add: ac_simps)
    have b: "ok (balloc 1) t (\<lambda>r u. \<exists>a W. r = of_nat a \<and> allocated (with_inode s i ip) V a W \<and> tx (with_inode s i ip) {} {} W (n + 3) u)"
      using ok z True e by (intro balloc_tx [OF _ _ _ t']) simp_all
    have "ok (bnd (balloc 1) (\<lambda>addr. bnd (set_inode i (\<lambda>ip. ip\<lparr>i_addrs := (i_addrs ip)[unat bn := addr]\<rparr>)) (\<lambda>_. ret addr))) t
      (bmapped s i V ip (unat bn) n)"
    proof (rule ok_bndI [OF b], elim exE conjE)
      fix r :: u32 and u a W assume r: "r = of_nat a" and al: "allocated (with_inode s i ip) V a W" and u: "tx (with_inode s i ip) {} {} W (n + 3) u"
      have al: "allocated s V a W" using al by simp
      note g = grown_direct [OF al f k True]
      have "tx (with_inode s i (ip\<lparr>i_addrs := (i_addrs ip)[unat bn := r]\<rparr>)) {} {} W n
          (u\<lparr>icache := (icache u)[i := (icache u ! i)\<lparr>i_addrs := (i_addrs (icache u ! i))[unat bn := r]\<rparr>]\<rparr>)"
        by (rule tx_weaken [OF tx_set_inode [OF u i, of "\<lambda>ip. ip\<lparr>i_addrs := (i_addrs ip)[unat bn := r]\<rparr>"]]) simp
      then show "ok (bnd (set_inode i (\<lambda>ip. ip\<lparr>i_addrs := (i_addrs ip)[unat bn := r]\<rparr>)) (\<lambda>_. ret r)) u (bmapped s i V ip (unat bn) n)"
        using g r e True alloc_fresh(5) [OF al] alloc_one_less [OF al, of "card (free_blocks s V) - 1"] z
        by (auto simp: ok_bnd set_inode_def bmapped_def intro!: exI)
    qed
    then show ?thesis using k True dev tx_get_inode [OF t i] by (simp add: bmap_def ok_get_inode Let_def)
  qed
qed


text \<open>The indirect block is there, or is allocated.\<close>

lemma bmap_indirect_block:
  assumes ok: "fs_ok s V" and f: "file_ok s V ip" and i: "i < length (icache s)"
    and z: "i_addrs ip ! NDIRECT = 0 \<Longrightarrow> 0 < card (free_blocks s V)"
    and t: "tx (with_inode s i ip) {} {} V (n + (if i_addrs ip ! NDIRECT = 0 then 2 else 0)) t"
  shows "ok (if i_addrs ip ! NDIRECT = 0 then
        bnd (balloc 1) (\<lambda>addr. bnd (set_inode i (\<lambda>ip. ip\<lparr>i_addrs := (i_addrs ip)[NDIRECT := addr]\<rparr>)) (\<lambda>_. ret addr))
      else ret (i_addrs ip ! NDIRECT)) t
    (\<lambda>r u. \<exists>W iq. tx (with_inode s i iq) {} {} W n u \<and> grown s V ip W iq \<and> r = i_addrs iq ! NDIRECT \<and> r \<noteq> 0
      \<and> card (free_blocks s V) \<le> card (free_blocks s W) + 1 \<and> (i_addrs ip ! NDIRECT \<noteq> 0 \<longrightarrow> W = V \<and> iq = ip))"
    (is "ok _ t ?Q")
proof (cases "i_addrs ip ! NDIRECT = 0")
  case False
  then show ?thesis using t grown_refl [OF ok f] by (auto intro!: exI [where x = V] exI [where x = ip])
next
  case True
  have t': "tx (with_inode s i ip) {} {} V (n + 2) t" using t True by simp
  have l: "length (i_addrs ip) = NDIRECT + 1" using f by (simp add: file_ok_def)
  have b: "ok (balloc 1) t (\<lambda>r u. \<exists>a W. r = of_nat a \<and> allocated (with_inode s i ip) V a W \<and> tx (with_inode s i ip) {} {} W n u)"
    using ok z True by (intro balloc_tx [OF _ _ _ t']) simp_all
  have "ok (bnd (balloc 1) (\<lambda>addr. bnd (set_inode i (\<lambda>ip. ip\<lparr>i_addrs := (i_addrs ip)[NDIRECT := addr]\<rparr>)) (\<lambda>_. ret addr))) t ?Q"
  proof (rule ok_bndI [OF b], elim exE conjE)
    fix r :: u32 and u a W assume r: "r = of_nat a" and al: "allocated (with_inode s i ip) V a W" and u: "tx (with_inode s i ip) {} {} W n u"
    have al: "allocated s V a W" using al by simp
    have "tx (with_inode s i (ip\<lparr>i_addrs := (i_addrs ip)[NDIRECT := r]\<rparr>)) {} {} W n
        (u\<lparr>icache := (icache u)[i := (icache u ! i)\<lparr>i_addrs := (i_addrs (icache u ! i))[NDIRECT := r]\<rparr>]\<rparr>)"
      by (rule tx_set_inode [OF u i, of "\<lambda>ip. ip\<lparr>i_addrs := (i_addrs ip)[NDIRECT := r]\<rparr>"])
    then show "ok (bnd (set_inode i (\<lambda>ip. ip\<lparr>i_addrs := (i_addrs ip)[NDIRECT := r]\<rparr>)) (\<lambda>_. ret r)) u ?Q"
      using grown_indirect [OF al f True] r True l alloc_fresh(5) [OF al] alloc_one_less [OF al, of "card (free_blocks s V) - 1"] z
      by (auto simp: ok_bnd set_inode_def intro!: exI)
  qed
  then show ?thesis using True by simp
qed

text \<open>With the indirect block held, its entry is there, or a block is allocated and entered.\<close>

lemma bmap_entry:
  assumes ok: "fs_ok s V" and f: "file_ok s V ip" and k: "NDIRECT \<le> k" "k < MAXFILE" and nz: "i_addrs ip ! NDIRECT \<noteq> 0"
    and z: "fblk V ip k = 0 \<Longrightarrow> 0 < card (free_blocks s V)"
    and t: "tx (with_inode s i ip) {(bp, i_addrs ip ! NDIRECT)} {} V (n + (if fblk V ip k = 0 then 3 else 0)) t"
  shows "ok (bnd (if fblk V ip k = 0 then
        bnd (balloc 1) (\<lambda>addr. bnd (put_data bp (\<lambda>d. put32 d (4 * (k - NDIRECT)) addr)) (\<lambda>_. bnd (log_write bp) (\<lambda>_. ret addr)))
      else ret (fblk V ip k)) (\<lambda>addr. bnd (brelse bp) (\<lambda>_. ret addr))) t
    (\<lambda>r u. \<exists>W. tx (with_inode s i ip) {} {} W n u \<and> grown s V ip W ip \<and> r = fblk W ip k \<and> r \<noteq> 0
      \<and> card (free_blocks s V) \<le> card (free_blocks s W) + 1 \<and> (fblk V ip k \<noteq> 0 \<longrightarrow> W = V))" (is "ok _ t ?Q")
proof (cases "fblk V ip k = 0")
  case False
  have t': "tx (with_inode s i ip) (insert (bp, i_addrs ip ! NDIRECT) {}) {} V n t" using t False by simp
  have "ok (bnd (brelse bp) (\<lambda>_. ret (fblk V ip k))) t ?Q"
    by (rule tx_release [OF t']) (use False grown_refl [OF ok f] in \<open>auto intro!: exI [where x = V]\<close>)
  then show ?thesis using False by (simp add: ok_bnd)
next
  case True
  let ?n = "i_addrs ip ! NDIRECT" and ?s = "with_inode s i ip"
  have d: "data_block s V ?n" using f nz by (simp add: file_ok_def)
  note df = data_block_facts [OF ok d]
  have t': "tx ?s {(bp, ?n)} {} V ((n + 1) + 2) t" using t True by (simp add: ac_simps numeral_eq_Suc)
  have h: "hold_ok ?s V {(bp, ?n)}" using d df(3) by (simp add: hold_ok_def data_block_def)
  have b: "ok (balloc 1) t (\<lambda>r u. \<exists>a W. r = of_nat a \<and> allocated ?s V a W \<and> tx ?s {(bp, ?n)} {} W (n + 1) u)"
    using ok z True h by (intro balloc_tx [OF _ _ _ t']) simp_all
  have "ok (bnd (balloc 1) (\<lambda>addr. bnd (put_data bp (\<lambda>d. put32 d (4 * (k - NDIRECT)) addr)) (\<lambda>_.
      bnd (log_write bp) (\<lambda>_. bnd (brelse bp) (\<lambda>_. ret addr))))) t ?Q"
  proof (rule ok_bndI [OF b], elim exE conjE)
    fix r :: u32 and u a W assume r: "r = of_nat a" and al: "allocated ?s V a W" and u: "tx ?s {(bp, ?n)} {} W (n + 1) u"
    have al: "allocated s V a W" using al by simp
    have u': "tx ?s (insert (bp, ?n) {}) {} W (Suc n) u" using u by simp
    have len: "length (W ?n) = BSIZE" using tx_length [OF u, of ?n] df(1) by simp
    note g = grown_entry [OF al f k True nz]
    have data: "data_block s W ?n" using alloc_old_block [OF al d] by simp
    note free = upd_data_block(3) [OF alloc_fs_ok [OF al] data, of "put32 (W ?n) (4 * (k - NDIRECT)) r"]
    show "ok (bnd (put_data bp (\<lambda>d. put32 d (4 * (k - NDIRECT)) r)) (\<lambda>_. bnd (log_write bp) (\<lambda>_. bnd (brelse bp) (\<lambda>_. ret r)))) u ?Q"
    proof (rule tx_modify [where f = "\<lambda>d. put32 d (4 * (k - NDIRECT)) r", OF u'])
      show "?n \<notin> snd ` ({} :: (nat \<times> u32) set)" "?n \<notin> log_area (lg_start (lg ?s))" using df(2) by simp_all
      show "length (put32 (W ?n) (4 * (k - NDIRECT)) r) = BSIZE" using len by simp
      fix v assume v: "tx ?s {} {} (W(?n := put32 (W ?n) (4 * (k - NDIRECT)) r)) n v"
      show "ok (ret r) v ?Q"
        using v g r True len free alloc_fresh(5) [OF al] alloc_one_less [OF al, of "card (free_blocks s V) - 1"] z by auto
    qed
  qed
  then show ?thesis using True by (simp add: bnd_bnd ret_bnd)
qed

lemma bmap_ok:
  assumes ok: "fs_ok s V" and f: "file_ok s V ip" and i: "i < length (icache s)" and k: "unat bn < MAXFILE"
    and z: "fblk V ip (unat bn) = 0 \<Longrightarrow> 2 \<le> card (free_blocks s V)"
    and t: "tx (with_inode s i ip) {} {} V (n + (if fblk V ip (unat bn) = 0 then 5 else 0)) t"
  shows "ok (bmap i bn) t (bmapped s i V ip (unat bn) n)"
proof (cases "unat bn < NDIRECT")
  case True
  then show ?thesis using z by (intro bmap_direct [OF ok f i _ _ t]) auto
next
  case False
  let ?k = "unat bn" and ?c = "if fblk V ip (unat bn) = 0 then 3 else 0"
  have dev: "i_dev ip = 1" using f by (simp add: file_ok_def)
  have un: "i_addrs ip ! NDIRECT = 0 \<Longrightarrow> fblk V ip ?k = 0" using False by (simp add: fblk_def)
  have t': "tx (with_inode s i ip) {} {} V ((n + ?c) + (if i_addrs ip ! NDIRECT = 0 then 2 else 0)) t"
    by (rule tx_weaken [OF t]) (use un in auto)
  have in_range: "?k - NDIRECT < NINDIRECT" using k False by (simp add: fs_consts)
  have "ok (bnd (if i_addrs ip ! NDIRECT = 0 then
        bnd (balloc 1) (\<lambda>addr. bnd (set_inode i (\<lambda>ip. ip\<lparr>i_addrs := (i_addrs ip)[NDIRECT := addr]\<rparr>)) (\<lambda>_. ret addr))
      else ret (i_addrs ip ! NDIRECT)) (\<lambda>addr.
      bnd (bread 1 addr) (\<lambda>bp.
      bnd (get_buf bp) (\<lambda>x.
      bnd (if get32 (b_data x) (4 * (?k - NDIRECT)) = 0 then
             bnd (balloc 1) (\<lambda>addr. bnd (put_data bp (\<lambda>d. put32 d (4 * (?k - NDIRECT)) addr)) (\<lambda>_. bnd (log_write bp) (\<lambda>_. ret addr)))
           else ret (get32 (b_data x) (4 * (?k - NDIRECT)))) (\<lambda>addr. bnd (brelse bp) (\<lambda>_. ret addr)))))) t (bmapped s i V ip ?k n)"
  proof (rule ok_bndI [OF bmap_indirect_block [OF ok f i _ t']])
    show "0 < card (free_blocks s V)" if "i_addrs ip ! NDIRECT = 0" using z un that by simp
    fix r u assume "\<exists>W iq. tx (with_inode s i iq) {} {} W (n + ?c) u \<and> grown s V ip W iq \<and> r = i_addrs iq ! NDIRECT \<and> r \<noteq> 0
      \<and> card (free_blocks s V) \<le> card (free_blocks s W) + 1 \<and> (i_addrs ip ! NDIRECT \<noteq> 0 \<longrightarrow> W = V \<and> iq = ip)"
    then obtain W iq where u: "tx (with_inode s i iq) {} {} W (n + ?c) u" and g: "grown s V ip W iq" and r: "r = i_addrs iq ! NDIRECT" "r \<noteq> 0"
      and c: "card (free_blocks s V) \<le> card (free_blocks s W) + 1" and same: "i_addrs ip ! NDIRECT \<noteq> 0 \<Longrightarrow> W = V \<and> iq = ip" by blast
    note okW = grownD(1) [OF g] and fW = grownD(2) [OF g]
    have d: "data_block s W r" using fW r by (simp add: file_ok_def)
    have e: "get32 (W r) (4 * (?k - NDIRECT)) = fblk W iq ?k" using r False by (simp add: fblk_def)
    have le: "(if fblk W iq ?k = 0 then 3 else 0) \<le> (?c :: nat)" using grownD(5) [OF g k] by auto
    have rd: "ok (bread 1 r) u (\<lambda>bp v. tx (with_inode s i iq) (insert (bp, r) {}) {} W (n + ?c) v)"
      by (rule tx_bread [OF u]) (use data_block_facts(1) [OF okW d] in simp_all)
    show "ok (bnd (bread 1 r) (\<lambda>bp.
      bnd (get_buf bp) (\<lambda>x.
      bnd (if get32 (b_data x) (4 * (?k - NDIRECT)) = 0 then
             bnd (balloc 1) (\<lambda>addr. bnd (put_data bp (\<lambda>d. put32 d (4 * (?k - NDIRECT)) addr)) (\<lambda>_. bnd (log_write bp) (\<lambda>_. ret addr)))
           else ret (get32 (b_data x) (4 * (?k - NDIRECT)))) (\<lambda>addr. bnd (brelse bp) (\<lambda>_. ret addr))))) u (bmapped s i V ip ?k n)"
    proof (rule ok_bndI [OF rd], rule tx_get_buf, assumption, rule insertI1)
      fix bp v x assume v: "tx (with_inode s i iq) (insert (bp, r) {}) {} W (n + ?c) v" and x: "b_data x = W r"
      have v': "tx (with_inode s i iq) {(bp, i_addrs iq ! NDIRECT)} {} W (n + (if fblk W iq ?k = 0 then 3 else 0)) v"
        by (rule tx_weaken [OF v [unfolded r(1)]]) (use le in simp)
      have room: "0 < card (free_blocks s W)" if "fblk W iq ?k = 0"
      proof -
        have "fblk V ip ?k = 0" using grownD(5) [OF g k] that by auto
        then show ?thesis using z c by simp
      qed
      show "ok (bnd (if get32 (b_data x) (4 * (?k - NDIRECT)) = 0 then
             bnd (balloc 1) (\<lambda>addr. bnd (put_data bp (\<lambda>d. put32 d (4 * (?k - NDIRECT)) addr)) (\<lambda>_. bnd (log_write bp) (\<lambda>_. ret addr)))
           else ret (get32 (b_data x) (4 * (?k - NDIRECT)))) (\<lambda>addr. bnd (brelse bp) (\<lambda>_. ret addr))) v (bmapped s i V ip ?k n)"
        unfolding x e
      proof (rule ok_mono [OF bmap_entry [OF okW fW _ k _ room v']])
        fix q w assume "\<exists>X. tx (with_inode s i iq) {} {} X n w \<and> grown s W iq X iq \<and> q = fblk X iq ?k \<and> q \<noteq> 0
          \<and> card (free_blocks s W) \<le> card (free_blocks s X) + 1 \<and> (fblk W iq ?k \<noteq> 0 \<longrightarrow> X = W)"
        then obtain X where X: "tx (with_inode s i iq) {} {} X n w" "grown s W iq X iq" "q = fblk X iq ?k" "q \<noteq> 0"
          "card (free_blocks s W) \<le> card (free_blocks s X) + 1" "fblk W iq ?k \<noteq> 0 \<Longrightarrow> X = W" by blast
        have "X = V \<and> iq = ip" if "fblk V ip ?k \<noteq> 0"
          using that X(6) same un grownD(5) [OF g k] by auto
        then show "bmapped s i V ip ?k n q w"
          unfolding bmapped_def using X grown_trans [OF g X(2)] c by (intro exI [where x = X] exI [where x = iq]) auto
      qed (use False r in simp_all)
    qed
  qed
  then show ?thesis
    unfolding bmap_def ok_get_inode tx_get_inode [OF t i] dev Let_def if_not_P [OF False] if_P [OF in_range] .
qed


section \<open>Reading and writing\<close>

text \<open>The blocks that \<open>n\<close> bytes from \<open>j\<close> lie in, and those of them the file does not have.\<close>

definition touched :: "nat \<Rightarrow> nat \<Rightarrow> nat set" where
  "touched j n = (\<lambda>i. (j + i) div BSIZE) ` {..<n}"

definition missing :: "(u32 \<Rightarrow> u8 list) \<Rightarrow> inode \<Rightarrow> nat \<Rightarrow> nat \<Rightarrow> nat set" where
  "missing V ip j n = {k \<in> touched j n. fblk V ip k = 0}"

lemma finite_touched [simp]: "finite (touched j n)" "finite (missing V ip j n)"
  by (simp_all add: touched_def missing_def)

lemma touched_0 [simp]: "touched j 0 = {}" "missing V ip j 0 = {}"
  by (simp_all add: touched_def missing_def)

lemma chunk_nat:
  assumes "tot < n"
  shows "unat (chunk tot off n) = min (unat (n - tot)) (BSIZE - unat off mod BSIZE)"
proof -
  have "unat (512 - off mod (512 :: u32)) = 512 - unat off mod 512"
    using word_mod_less_divisor [of 512 off] by (subst unat_sub) (simp_all add: word_le_nat_alt word_less_nat_alt unat_mod)
  then show ?thesis by (simp add: chunk_def BSIZE_def min_def word_le_nat_alt)
qed

text \<open>One round of the loops of \<open>readi\<close> and \<open>writei\<close>, in numbers.\<close>

lemma chunk_step:
  assumes "tot < n" and m: "m = unat (chunk tot off n)" and lim: "unat off + unat (n - tot) \<le> MAXFILE * BSIZE"
  shows "0 < m" "m \<le> unat (n - tot)" "unat off mod BSIZE + m \<le> BSIZE"
    "unat (off + chunk tot off n) = unat off + m" "unat (n - (tot + chunk tot off n)) = unat (n - tot) - m"
    "unat (tot + chunk tot off n) = unat tot + m" "tot + chunk tot off n \<le> n"
    "unat (off div of_nat BSIZE) = unat off div BSIZE" "unat off div BSIZE < MAXFILE" "unat (off mod of_nat BSIZE) = unat off mod BSIZE"
    "unat off div BSIZE \<in> touched (unat off) (unat (n - tot))"
    "touched (unat off + m) (unat (n - tot) - m) \<subseteq> touched (unat off) (unat (n - tot)) - {unat off div BSIZE}"
proof -
  note c = chunk_pos [OF assms(1), of off] and e = chunk_nat [OF assms(1), of off, folded m]
  have nt: "unat (n - tot) = unat n - unat tot" "unat tot < unat n" using assms(1) by (simp_all add: unat_sub less_imp_le word_less_nat_alt)
  show p: "0 < m" using c(1) m by (simp add: word_less_nat_alt)
  show q: "m \<le> unat (n - tot)" using e by simp
  show r: "unat off mod BSIZE + m \<le> BSIZE" using e mod_less_divisor [of BSIZE "unat off"] by (simp add: BSIZE_def)
  show "tot + chunk tot off n \<le> n" by (rule c(5))
  show a: "unat (off + chunk tot off n) = unat off + m"
    unfolding m using lim q [unfolded m] by (intro unat_add_lem [THEN iffD1]) (simp add: fs_consts)
  show b: "unat (tot + chunk tot off n) = unat tot + m"
    unfolding m using q [unfolded m] nt unat32_less [of n] by (intro unat_add_lem [THEN iffD1]) simp
  show "unat (n - (tot + chunk tot off n)) = unat (n - tot) - m" using b nt c(5) by (simp add: unat_sub)
  show "unat (off div of_nat BSIZE) = unat off div BSIZE" "unat (off mod of_nat BSIZE) = unat off mod BSIZE"
    by (simp_all add: unat_div unat_mod BSIZE_def)
  show "unat off div BSIZE < MAXFILE" using lim p q by (simp add: fs_consts div_less_iff_less_mult)
  show "unat off div BSIZE \<in> touched (unat off) (unat (n - tot))" using p q by (auto simp: touched_def intro!: image_eqI [where x = 0])
  show "touched (unat off + m) (unat (n - tot) - m) \<subseteq> touched (unat off) (unat (n - tot)) - {unat off div BSIZE}"
  proof
    fix k assume "k \<in> touched (unat off + m) (unat (n - tot) - m)"
    then obtain j where j: "j < unat (n - tot) - m" "k = (unat off + m + j) div BSIZE" by (auto simp: touched_def)
    have lt: "unat off mod 512 < 512" by simp
    have "m = BSIZE - unat off mod BSIZE" using e j by auto
    then have "unat off mod 512 + m = 512" using lt by (simp add: BSIZE_def)
    then have "unat off + m + j = 512 * (unat off div 512) + (512 + j)" using mult_div_mod_eq [of 512 "unat off"] by linarith
    then have "k \<noteq> unat off div BSIZE" unfolding j(2) by (simp add: BSIZE_def)
    moreover have "k \<in> touched (unat off) (unat (n - tot))" using j by (auto simp: touched_def add.assoc intro!: image_eqI [where x = "m + j"])
    ultimately show "k \<in> touched (unat off) (unat (n - tot)) - {unat off div BSIZE}" by simp
  qed
qed

lemma in_block:
  assumes "j mod BSIZE + m \<le> BSIZE" and "i < m"
  shows "(j + i) div BSIZE = j div BSIZE" "(j + i) mod BSIZE = j mod BSIZE + i"
proof -
  have "j + i = BSIZE * (j div BSIZE) + (j mod BSIZE + i)" "j mod BSIZE + i < BSIZE" using assms by simp_all
  then show "(j + i) div BSIZE = j div BSIZE" "(j + i) mod BSIZE = j mod BSIZE + i"
    by (simp_all only: div_mult_self4 mod_mult_self4 div_less mod_less)
qed

lemma file_slice:
  assumes ok: "fs_ok s V" and f: "file_ok s V ip" and k: "j div BSIZE < MAXFILE" "fblk V ip (j div BSIZE) \<noteq> 0" and m: "j mod BSIZE + m \<le> BSIZE"
  shows "slice (V (fblk V ip (j div BSIZE))) (j mod BSIZE) m = map (fbyte V ip) [j..<j + m]"
proof (rule nth_equalityI)
  have len: "length (V (fblk V ip (j div BSIZE))) = BSIZE" using data_block_facts(5) [OF ok] f k by (simp add: file_ok_def)
  then show "length (slice (V (fblk V ip (j div BSIZE))) (j mod BSIZE) m) = length (map (fbyte V ip) [j..<j + m])"
    using m by (simp add: length_slice)
  fix i assume "i < length (slice (V (fblk V ip (j div BSIZE))) (j mod BSIZE) m)"
  then have i: "i < m" using len m by (simp add: length_slice)
  then show "slice (V (fblk V ip (j div BSIZE))) (j mod BSIZE) m ! i = map (fbyte V ip) [j..<j + m] ! i"
    using in_block [OF m i] len m k(2) by (simp add: nth_slice fbyte_def)
qed

lemma missing_step:
  assumes sub: "touched j' n' \<subseteq> touched j n - {k}" and k: "k \<in> touched j n"
    and grow: "\<And>k. k \<in> touched j n \<Longrightarrow> fblk V ip k \<noteq> 0 \<Longrightarrow> fblk W iq k = fblk V ip k"
  shows "card (missing W iq j' n') + (if fblk V ip k = 0 then 1 else 0) \<le> card (missing V ip j n)"
    "card (touched j' n') + 1 \<le> card (touched j n)"
proof -
  have s: "missing W iq j' n' \<subseteq> missing V ip j n - {k}" using sub grow by (auto simp: missing_def)
  then have "card (missing W iq j' n') \<le> card (missing V ip j n - {k})" by (intro card_mono) simp_all
  moreover have "card (missing V ip j n - {k}) + 1 = card (missing V ip j n)" if "fblk V ip k = 0"
    using that k card_Suc_Diff1 [of "missing V ip j n" k] by (simp add: missing_def)
  moreover have "card (missing V ip j n - {k}) \<le> card (missing V ip j n)" by (intro card_mono) auto
  ultimately show "card (missing W iq j' n') + (if fblk V ip k = 0 then 1 else 0) \<le> card (missing V ip j n)" by (auto split: if_splits)
  have "card (touched j' n') \<le> card (touched j n - {k})" using sub by (intro card_mono) simp_all
  then show "card (touched j' n') + 1 \<le> card (touched j n)" using k card_Suc_Diff1 [of "touched j n" k] by simp
qed


text \<open>Both loops begin a round by looking up the block and reading it.\<close>

lemma open_block:
  assumes i: "i < length (icache s)" and ok: "fs_ok s V" and f: "file_ok s V ip" and k: "unat (off div of_nat BSIZE) = k" "k < MAXFILE"
    and z: "fblk V ip k = 0 \<Longrightarrow> 2 \<le> card (free_blocks s V)" and t: "tx (with_inode s i ip) {} {} V (n + (if fblk V ip k = 0 then 5 else 0)) t"
    and Q: "\<And>bp W iq v. tx (with_inode s i iq) (insert (bp, fblk W iq k) {}) {} W n v \<Longrightarrow> grown s V ip W iq \<Longrightarrow> fblk W iq k \<noteq> 0 \<Longrightarrow>
      card (free_blocks s V) \<le> card (free_blocks s W) + 2 \<Longrightarrow> (fblk V ip k \<noteq> 0 \<Longrightarrow> W = V \<and> iq = ip) \<Longrightarrow> ok (g bp) v Q"
  shows "ok (bnd (bmap i (off div of_nat BSIZE)) (\<lambda>addr. bnd (get_inode i) (\<lambda>ip. bnd (bread (i_dev ip) addr) g))) t Q"
proof (rule ok_bndI [OF bmap_ok [OF ok f i, of "off div of_nat BSIZE", unfolded k(1), OF k(2) z t]])
  fix r u assume "bmapped s i V ip k n r u"
  then obtain W iq where u: "tx (with_inode s i iq) {} {} W n u" and g: "grown s V ip W iq" and r: "r = fblk W iq k" "r \<noteq> 0"
    and c: "card (free_blocks s V) \<le> card (free_blocks s W) + 2" and same: "fblk V ip k \<noteq> 0 \<Longrightarrow> W = V \<and> iq = ip"
    unfolding bmapped_def by blast
  have d: "data_block s W r" and dev: "i_dev iq = 1" using grownD(2) [OF g] r k(2) by (simp_all add: file_ok_def)
  have rd: "ok (bread 1 r) u (\<lambda>bp v. tx (with_inode s i iq) (insert (bp, r) {}) {} W n v)"
    by (rule tx_bread [OF u]) (use data_block_facts(1) [OF grownD(1) [OF g] d] in simp_all)
  show "ok (bnd (get_inode i) (\<lambda>ip. bnd (bread (i_dev ip) r) g)) u Q"
    unfolding ok_get_inode tx_get_inode [OF u i] dev by (rule ok_bndI [OF rd]) (use Q r g c same in blast)
qed

lemma next_blocks:
  assumes g: "grown s V ip W iq" and sub: "touched j' n' \<subseteq> touched j n - {k}" and k: "k \<in> touched j n" and lim: "j + n \<le> MAXFILE * BSIZE"
  shows "card (missing W iq j' n') + (if fblk V ip k = 0 then 1 else 0) \<le> card (missing V ip j n)"
    "missing V ip j n = {} \<Longrightarrow> missing V ip j' n' = {}" "missing V ip j n = {} \<Longrightarrow> fblk V ip k \<noteq> 0"
proof -
  have lt: "k < MAXFILE" if "k \<in> touched j n" for k
    using that lim by (auto simp: touched_def fs_consts div_less_iff_less_mult)
  show "card (missing W iq j' n') + (if fblk V ip k = 0 then 1 else 0) \<le> card (missing V ip j n)"
    by (rule missing_step(1) [OF sub k]) (use grownD(5) [OF g] lt in blast)
  show "missing V ip j n = {} \<Longrightarrow> missing V ip j' n' = {}" "missing V ip j n = {} \<Longrightarrow> fblk V ip k \<noteq> 0"
    using sub k by (auto simp: missing_def)
qed

text \<open>\<open>readi\<close>'s loop gives the bytes of the file.\<close>

lemma readi_loop_ok:
  assumes i: "i < length (icache s)"
  shows "fs_ok s V \<Longrightarrow> file_ok s V ip \<Longrightarrow> tx (with_inode s i ip) {} {} V (l + 5 * card (missing V ip (unat off) (unat (n - tot)))) t \<Longrightarrow>
    2 * card (missing V ip (unat off) (unat (n - tot))) \<le> card (free_blocks s V) \<Longrightarrow> unat off + unat (n - tot) \<le> MAXFILE * BSIZE \<Longrightarrow> tot \<le> n \<Longrightarrow>
    ok (readi_loop i tot off n acc) t (\<lambda>bytes u. bytes = acc @ map (fbyte V ip) [unat off..<unat off + unat (n - tot)]
      \<and> (\<exists>W iq. tx (with_inode s i iq) {} {} W l u \<and> grown s V ip W iq \<and> (missing V ip (unat off) (unat (n - tot)) = {} \<longrightarrow> W = V \<and> iq = ip)))"
proof (induction "unat (n - tot)" arbitrary: tot off acc V ip t rule: less_induct)
  case less
  let ?j = "unat off" and ?n = "unat (n - tot)" and ?off' = "off + chunk tot off n" and ?tot' = "tot + chunk tot off n"
  let ?k = "unat off div BSIZE" and ?M = "card (missing V ip (unat off) (unat (n - tot)))"
  let ?Q = "\<lambda>bytes u. bytes = acc @ map (fbyte V ip) [?j..<?j + ?n]
    \<and> (\<exists>W iq. tx (with_inode s i iq) {} {} W l u \<and> grown s V ip W iq \<and> (missing V ip ?j ?n = {} \<longrightarrow> W = V \<and> iq = ip))"
  show ?case
  proof (cases "tot < n")
    case False
    then have "unat (n - tot) = 0" using less.prems(6) by simp
    then show ?thesis using less.prems(1-3) False grown_refl [OF less.prems(1,2)]
      by (subst readi_loop.simps) (auto intro!: exI [where x = V] exI [where x = ip])
  next
    case True
    define m where "m = unat (chunk tot off n)"
    let ?room = "l + 5 * ?M - (if fblk V ip ?k = 0 then 5 else 0)"
    note st = chunk_step [OF True m_def less.prems(5)]
    note nb = next_blocks [OF _ st(12,11) less.prems(5)]
    have pos: "1 \<le> ?M" if "fblk V ip ?k = 0" using nb(1) [OF grown_refl [OF less.prems(1,2)]] that by simp
    have t: "tx (with_inode s i ip) {} {} V (?room + (if fblk V ip ?k = 0 then 5 else 0)) t"
      by (rule tx_weaken [OF less.prems(3)]) (use pos in auto)
    have fr: "2 \<le> card (free_blocks s V)" if "fblk V ip ?k = 0" using pos that less.prems(4) by simp
    show ?thesis unfolding readi_loop.simps [of i tot] if_P [OF True]
    proof (rule open_block [OF i less.prems(1,2) st(8,9) fr t], assumption, rule tx_get_buf, assumption, rule insertI1, rule tx_release, assumption, simp)
      fix bp W iq v x w assume g: "grown s V ip W iq" and nz: "fblk W iq ?k \<noteq> 0" and c: "card (free_blocks s V) \<le> card (free_blocks s W) + 2"
        and same: "fblk V ip ?k \<noteq> 0 \<Longrightarrow> W = V \<and> iq = ip" and x: "b_data x = W (fblk W iq ?k)" and w: "tx (with_inode s i iq) {} {} W ?room w"
      note okW = grownD(1) [OF g] and fW = grownD(2) [OF g] and ms = nb(1) [OF g]
      have sl: "slice (b_data x) (unat (off mod of_nat BSIZE)) (unat (chunk tot off n)) = map (fbyte V ip) [?j..<?j + m]"
        unfolding x st(10) m_def [symmetric] file_slice [OF okW fW st(9) nz st(3)] using grownD(4) [OF g] less.prems(5) st(2) by auto
      have rest: "map (fbyte W iq) [?j + m..<?j + m + (?n - m)] = map (fbyte V ip) [?j + m..<?j + m + (?n - m)]"
        using grownD(4) [OF g] less.prems(5) st(2) by auto
      have w': "tx (with_inode s i iq) {} {} W (l + 5 * card (missing W iq (unat ?off') (unat (n - ?tot')))) w"
        unfolding st(4,5) by (rule tx_weaken [OF w]) (use ms in \<open>auto split: if_splits\<close>)
      have f': "2 * card (missing W iq (unat ?off') (unat (n - ?tot'))) \<le> card (free_blocks s W)"
        unfolding st(4,5) using ms c less.prems(4) same by (auto split: if_splits)
      have "ok (readi_loop i ?tot' ?off' n (acc @ map (fbyte V ip) [?j..<?j + m])) w
        (\<lambda>bytes u. bytes = (acc @ map (fbyte V ip) [?j..<?j + m]) @ map (fbyte W iq) [unat ?off'..<unat ?off' + unat (n - ?tot')]
          \<and> (\<exists>X ir. tx (with_inode s i ir) {} {} X l u \<and> grown s W iq X ir \<and> (missing W iq (unat ?off') (unat (n - ?tot')) = {} \<longrightarrow> X = W \<and> ir = iq)))"
        by (rule less.hyps [OF _ okW fW w' f']) (use st less.prems(5) in simp_all)
      then show "ok (readi_loop i ?tot' ?off' n (acc @ slice (b_data x) (unat (off mod of_nat BSIZE)) (unat (chunk tot off n)))) w ?Q"
        unfolding sl st(4,5) rest
      proof (rule ok_mono, elim conjE exE, intro conjI)
        fix b z X ir assume b: "b = (acc @ map (fbyte V ip) [?j..<?j + m]) @ map (fbyte V ip) [?j + m..<?j + m + (?n - m)]"
          and z: "tx (with_inode s i ir) {} {} X l z" "grown s W iq X ir" "missing W iq (?j + m) (?n - m) = {} \<longrightarrow> X = W \<and> ir = iq"
        show "b = acc @ map (fbyte V ip) [?j..<?j + ?n]" unfolding b
          using upt_add_eq_append [of ?j "?j + m" "?n - m"] st(2) by simp
        have "X = V \<and> ir = ip" if "missing V ip ?j ?n = {}" using nb(2,3) [OF g that] same z(3) by auto
        then show "\<exists>W iq. tx (with_inode s i iq) {} {} W l z \<and> grown s V ip W iq \<and> (missing V ip ?j ?n = {} \<longrightarrow> W = V \<and> iq = ip)"
          using z(1) grown_trans [OF g z(2)] by blast
      qed
    qed
  qed
qed


text \<open>
  From \<open>V\<close> and \<open>ip\<close> to \<open>W\<close> and \<open>iq\<close> the bytes \<open>xs\<close> have been written to the file at offset \<open>j\<close>; the rest of its bytes,
  the blocks it had and the blocks of other files are as they were.
\<close>

definition written :: "'a fstate_scheme \<Rightarrow> (u32 \<Rightarrow> u8 list) \<Rightarrow> inode \<Rightarrow> nat \<Rightarrow> u8 list \<Rightarrow> (u32 \<Rightarrow> u8 list) \<Rightarrow> inode \<Rightarrow> bool" where
  "written s V ip j xs W iq \<longleftrightarrow> fs_ok s W \<and> file_ok s W iq \<and> (\<exists>as. iq = ip\<lparr>i_addrs := as\<rparr>)
     \<and> (\<forall>k < MAXFILE * BSIZE. fbyte W iq k = (if j \<le> k \<and> k < j + length xs then xs ! (k - j) else fbyte V ip k))
     \<and> (\<forall>k < MAXFILE. fblk V ip k \<noteq> 0 \<longrightarrow> fblk W iq k = fblk V ip k)
     \<and> (\<forall>b. data_block s V b \<and> b \<notin> fblocks V ip \<longrightarrow> data_block s W b \<and> W b = V b \<and> b \<notin> fblocks W iq)
     \<and> (\<forall>b \<in> inode_blocks (sb s). W b = V b) \<and> (\<forall>k \<in> touched j (length xs). fblk W iq k \<noteq> 0)"

lemma touched_add: "touched j (m + n) = touched j m \<union> touched (j + m) n"
proof -
  have "x < m + n \<longleftrightarrow> x < m \<or> (\<exists>i < n. x = m + i)" for x by presburger
  then have "{..<m + n} = {..<m} \<union> (\<lambda>i. m + i) ` {..<n}" by blast
  then show ?thesis by (simp add: touched_def image_Un image_image add.assoc)
qed

lemma touched_less: "k \<in> touched j n \<Longrightarrow> j + n \<le> MAXFILE * BSIZE \<Longrightarrow> k < MAXFILE"
  by (auto simp: touched_def fs_consts div_less_iff_less_mult)

lemma grown_written: "grown s V ip W iq \<longleftrightarrow> written s V ip j [] W iq"
  by (auto simp: grown_def written_def split: if_splits)

lemma written_trans:
  assumes a: "written s V ip j xs W iq" and b: "written s W iq (j + length xs) ys X ir" and lim: "j + length xs \<le> MAXFILE * BSIZE"
  shows "written s V ip j (xs @ ys) X ir"
proof -
  have "\<exists>as. ir = ip\<lparr>i_addrs := as\<rparr>" using a b by (auto simp: written_def)
  moreover have "fbyte X ir k = (if j \<le> k \<and> k < j + length (xs @ ys) then (xs @ ys) ! (k - j) else fbyte V ip k)" if "k < MAXFILE * BSIZE" for k
    using a b that by (auto simp: written_def nth_append)
  moreover have "fblk X ir k \<noteq> 0" if "k \<in> touched j (length (xs @ ys))" for k
    using that a b touched_less [OF _ lim] by (auto simp: written_def touched_add)
  ultimately show ?thesis using a b by (simp add: written_def)
qed

lemma grown_then_written:
  assumes "grown s V ip W iq" and "written s W iq j xs X ir" and "j \<le> MAXFILE * BSIZE"
  shows "written s V ip j xs X ir"
  using written_trans [of s V ip j "[]" W iq xs X ir] assms grown_written [of s V ip W iq j] by simp

lemma written_block:
  assumes ok: "fs_ok s V" and f: "file_ok s V ip" and k: "k < MAXFILE" "fblk V ip k \<noteq> 0" and p: "p + length xs \<le> BSIZE"
  defines "W \<equiv> V(fblk V ip k := splice (V (fblk V ip k)) p xs)"
  shows "written s V ip (k * BSIZE + p) xs W ip" "free_blocks s W = free_blocks s V"
proof -
  let ?r = "fblk V ip k"
  note ff = f [unfolded file_ok_def]
  have d: "data_block s V ?r" and ni: "?r \<noteq> i_addrs ip ! NDIRECT" using ff k by simp_all
  have len: "length (V ?r) = BSIZE" using data_block_facts(5) [OF ok d] .
  have "length (splice (V ?r) p xs) = BSIZE" using len p by simp
  note u = upd_data_block [OF ok d this, folded W_def]
  show "free_blocks s W = free_blocks s V" by (rule u(3))
  have m: "fblk W ip j = fblk V ip j" for j using ni by (auto simp: fblk_def W_def)
  have Wb: "W b = (if b = ?r then splice (V ?r) p xs else V b)" for b by (simp add: W_def)
  have fl: "file_ok s W ip" unfolding file_ok_def m u(2) by (rule ff)
  have byte: "fbyte W ip i = (if k * BSIZE + p \<le> i \<and> i < k * BSIZE + p + length xs then xs ! (i - (k * BSIZE + p)) else fbyte V ip i)"
    if i: "i < MAXFILE * BSIZE" for i
  proof -
    have di: "i div BSIZE < MAXFILE" "i mod BSIZE < BSIZE" "i = i div BSIZE * BSIZE + i mod BSIZE"
      using i by (simp_all add: fs_consts less_mult_imp_div_less)
    show ?thesis
    proof (cases "i div BSIZE = k")
      case True
      then have e: "i = k * BSIZE + i mod BSIZE" using di(3) by simp
      have "k * BSIZE + p \<le> i \<longleftrightarrow> p \<le> i mod BSIZE" "i < k * BSIZE + p + length xs \<longleftrightarrow> i mod BSIZE < p + length xs" "i - (k * BSIZE + p) = i mod BSIZE - p"
        by (subst (1) e, simp)+
      then show ?thesis using True k(2) len p di(2) nth_splice [of p xs "V ?r" "i mod BSIZE"]
        by (auto simp: fbyte_def m Wb)
    next
      case False
      have "\<not> (k * BSIZE + p \<le> i \<and> i < k * BSIZE + p + length xs)"
      proof
        assume "k * BSIZE + p \<le> i \<and> i < k * BSIZE + p + length xs"
        then have "k * BSIZE \<le> i" "i < Suc k * BSIZE" using p by auto
        then have "i div BSIZE = k" by (intro div_nat_eqI) (simp_all add: mult.commute)
        then show False using False by simp
      qed
      moreover have "fblk V ip (i div BSIZE) \<noteq> ?r \<or> fblk V ip (i div BSIZE) = 0" using ff di(1) k False by blast
      ultimately show ?thesis using k(2) by (auto simp: fbyte_def m Wb)
    qed
  qed
  have "data_block s W b \<and> W b = V b \<and> b \<notin> fblocks W ip" if "data_block s V b" "b \<notin> fblocks V ip" for b
    using that u(2) k by (auto simp: fblocks_def m Wb)
  moreover have "touched (k * BSIZE + p) (length xs) \<subseteq> {k}"
  proof
    fix c assume "c \<in> touched (k * BSIZE + p) (length xs)"
    then obtain i where "i < length xs" "c = (k * BSIZE + (p + i)) div BSIZE" by (auto simp: touched_def add.assoc)
    then show "c \<in> {k}" using p by (simp add: fs_consts)
  qed
  moreover have "W b = V b" if "b \<in> inode_blocks (sb s)" for b
    using that d by (auto simp: Wb data_block_def meta_blocks_def)
  ultimately show "written s V ip (k * BSIZE + p) xs W ip"
    unfolding written_def using u(1) fl byte m k(2) by (auto intro!: exI [where x = "i_addrs ip"])
qed

text \<open>\<open>writei\<close>'s loop writes them.\<close>

lemma writei_loop_ok:
  assumes i: "i < length (icache s)"
  shows "fs_ok s V \<Longrightarrow> file_ok s V ip \<Longrightarrow>
    tx (with_inode s i ip) {} {} V (l + 5 * card (missing V ip (unat off) (unat (n - tot))) + card (touched (unat off) (unat (n - tot)))) t \<Longrightarrow>
    2 * card (missing V ip (unat off) (unat (n - tot))) \<le> card (free_blocks s V) \<Longrightarrow> unat off + unat (n - tot) \<le> MAXFILE * BSIZE \<Longrightarrow> tot \<le> n \<Longrightarrow>
    length src = unat n \<Longrightarrow>
    ok (writei_loop i src tot off n) t (\<lambda>r u. r = off + (n - tot)
      \<and> (\<exists>W iq. tx (with_inode s i iq) {} {} W l u \<and> written s V ip (unat off) (drop (unat tot) src) W iq
        \<and> (missing V ip (unat off) (unat (n - tot)) = {} \<longrightarrow> iq = ip)))"
proof (induction "unat (n - tot)" arbitrary: tot off V ip t rule: less_induct)
  case less
  let ?j = "unat off" and ?n = "unat (n - tot)" and ?off' = "off + chunk tot off n" and ?tot' = "tot + chunk tot off n"
  let ?k = "unat off div BSIZE" and ?M = "card (missing V ip (unat off) (unat (n - tot)))" and ?T = "card (touched (unat off) (unat (n - tot)))"
  have ut: "unat tot \<le> unat n" "?n = unat n - unat tot" using less.prems(6) by (simp_all add: word_le_nat_alt unat_sub)
  show ?case
  proof (cases "tot < n")
    case False
    then have e: "n = tot" using less.prems(6) by simp
    then show ?thesis using less.prems(1-3,7) grown_refl [OF less.prems(1,2), unfolded grown_written [of _ _ _ _ _ ?j]]
      by (subst writei_loop.simps) auto
  next
    case True
    define m where "m = unat (chunk tot off n)"
    let ?room = "l + 5 * ?M + ?T - (if fblk V ip ?k = 0 then 5 else 0)" and ?xs = "slice src (unat tot) m"
    note st = chunk_step [OF True m_def less.prems(5)]
    note nb = next_blocks [OF _ st(12,11) less.prems(5)]
    have T: "card (touched (?j + m) (?n - m)) + 1 \<le> ?T" by (rule missing_step(2) [OF st(12,11), where V = V and ip = ip and W = V and iq = ip]) simp
    have lx: "length ?xs = m" using less.prems(7) st(2) ut by (simp add: length_slice)
    have pos: "1 \<le> ?M" if "fblk V ip ?k = 0" using nb(1) [OF grown_refl [OF less.prems(1,2)]] that by simp
    have t: "tx (with_inode s i ip) {} {} V (?room + (if fblk V ip ?k = 0 then 5 else 0)) t"
      by (rule tx_weaken [OF less.prems(3)]) (use pos in auto)
    have fr: "2 \<le> card (free_blocks s V)" if "fblk V ip ?k = 0" using pos that less.prems(4) by simp
    show ?thesis unfolding writei_loop.simps [of i src tot] if_P [OF True]
    proof (rule open_block [OF i less.prems(1,2) st(8,9) fr t], assumption)
      fix bp W iq v assume v: "tx (with_inode s i iq) (insert (bp, fblk W iq ?k) {}) {} W ?room v" and g: "grown s V ip W iq"
        and nz: "fblk W iq ?k \<noteq> 0" and c: "card (free_blocks s V) \<le> card (free_blocks s W) + 2" and same: "fblk V ip ?k \<noteq> 0 \<Longrightarrow> W = V \<and> iq = ip"
      let ?W = "W(fblk W iq ?k := splice (W (fblk W iq ?k)) (?j mod BSIZE) ?xs)"
      note okW = grownD(1) [OF g] and fW = grownD(2) [OF g]
      have d: "data_block s W (fblk W iq ?k)" using fW nz st(9) by (simp add: file_ok_def)
      note df = data_block_facts [OF okW d]
      have wb: "written s W iq ?j ?xs ?W iq" "free_blocks s ?W = free_blocks s W"
        using written_block [OF okW fW st(9) nz, of "?j mod BSIZE" ?xs] st(3) lx by simp_all
      have gw: "written s V ip ?j ?xs ?W iq" by (rule grown_then_written [OF g wb(1)]) (use less.prems(5) in simp)
      have ms: "card (missing ?W iq (?j + m) (?n - m)) + (if fblk V ip ?k = 0 then 1 else 0) \<le> ?M"
        by (rule missing_step(1) [OF st(12,11)])
          (use gw less.prems(5) in \<open>auto simp: written_def touched_def fs_consts div_less_iff_less_mult\<close>)
      have v': "tx (with_inode s i iq) (insert (bp, fblk W iq ?k) {}) {} W (Suc (l + 5 * card (missing ?W iq (?j + m) (?n - m)) + card (touched (?j + m) (?n - m)))) v"
        by (rule tx_weaken [OF v]) (use ms T in \<open>auto split: if_splits\<close>)
      show "ok (bnd (put_data bp (\<lambda>d. splice d (unat (off mod of_nat BSIZE)) (slice src (unat tot) (unat (chunk tot off n))))) (\<lambda>_.
          bnd (log_write bp) (\<lambda>_. bnd (brelse bp) (\<lambda>_. writei_loop i src ?tot' ?off' n)))) v
        (\<lambda>r u. r = off + (n - tot) \<and> (\<exists>W iq. tx (with_inode s i iq) {} {} W l u \<and> written s V ip ?j (drop (unat tot) src) W iq \<and> (missing V ip ?j ?n = {} \<longrightarrow> iq = ip)))"
        unfolding st(10) m_def [symmetric]
      proof (rule tx_modify [where f = "\<lambda>d. splice d (?j mod BSIZE) ?xs", OF v'])
        show "fblk W iq ?k \<notin> snd ` ({} :: (nat \<times> u32) set)" "fblk W iq ?k \<notin> log_area (lg_start (lg (with_inode s i iq)))" using df(2) by simp_all
        show "length (splice (W (fblk W iq ?k)) (?j mod BSIZE) ?xs) = BSIZE" using df(5) st(3) lx by simp
        fix w assume w: "tx (with_inode s i iq) {} {} ?W (l + 5 * card (missing ?W iq (?j + m) (?n - m)) + card (touched (?j + m) (?n - m))) w"
        have "ok (writei_loop i src ?tot' ?off' n) w (\<lambda>r u. r = ?off' + (n - ?tot')
          \<and> (\<exists>X ir. tx (with_inode s i ir) {} {} X l u \<and> written s ?W iq (unat ?off') (drop (unat ?tot') src) X ir
            \<and> (missing ?W iq (unat ?off') (unat (n - ?tot')) = {} \<longrightarrow> ir = iq)))"
        proof (rule less.hyps)
          show "unat (n - ?tot') < ?n" using st(1,2,5) by simp
          show "fs_ok s ?W" "file_ok s ?W iq" using gw by (simp_all add: written_def)
          show "tx (with_inode s i iq) {} {} ?W (l + 5 * card (missing ?W iq (unat ?off') (unat (n - ?tot'))) + card (touched (unat ?off') (unat (n - ?tot')))) w"
            using w unfolding st(4,5) .
          show "2 * card (missing ?W iq (unat ?off') (unat (n - ?tot'))) \<le> card (free_blocks s ?W)"
            unfolding st(4,5) using ms c less.prems(4) same wb(2) by (auto split: if_splits)
        qed (use st less.prems(5,7) in simp_all)
        then show "ok (writei_loop i src ?tot' ?off' n) w
          (\<lambda>r u. r = off + (n - tot) \<and> (\<exists>W iq. tx (with_inode s i iq) {} {} W l u \<and> written s V ip ?j (drop (unat tot) src) W iq \<and> (missing V ip ?j ?n = {} \<longrightarrow> iq = ip)))"
        proof (rule ok_mono, elim conjE exE, intro conjI)
          fix r z X ir assume z: "tx (with_inode s i ir) {} {} X l z" and wr: "written s ?W iq (unat ?off') (drop (unat ?tot') src) X ir"
            and keep: "missing ?W iq (unat ?off') (unat (n - ?tot')) = {} \<longrightarrow> ir = iq"
          have "?xs @ drop (unat ?tot') src = drop (unat tot) src"
            unfolding st(6) slice_def by (metis add.commute append_take_drop_id drop_drop)
          moreover have "written s ?W iq (?j + length ?xs) (drop (unat ?tot') src) X ir" using wr unfolding st(4) lx .
          ultimately have "written s V ip ?j (drop (unat tot) src) X ir" using written_trans [OF gw, of "drop (unat ?tot') src"] lx st(2) less.prems(5) by simp
          moreover have "ir = ip" if "missing V ip ?j ?n = {}"
            using nb(3) [OF g that] same keep ms that unfolding st(4,5) by (auto simp: card_eq_0_iff split: if_splits)
          ultimately show "\<exists>W iq. tx (with_inode s i iq) {} {} W l z \<and> written s V ip ?j (drop (unat tot) src) W iq \<and> (missing V ip ?j ?n = {} \<longrightarrow> iq = ip)"
            using z by blast
        qed simp
      qed
    qed
  qed
qed

end
