(* ===== verification/Fs_Rw.thy ===== *)
theory Fs_Rw
  imports Fs_Files
begin

text \<open>
  What \<open>readi\<close>, \<open>writei\<close> and \<open>iupdate\<close> do to the bytes of a file, to its inode on disk and to other files.
\<close>

section \<open>The inode on disk\<close>

lemma foldl_put32_other:
  "length (foldl (\<lambda>d k. put32 d (p + 4 * k) (f k)) d ks) = length d"
  "(\<And>k. k \<in> set ks \<Longrightarrow> j < p + 4 * k \<or> p + 4 * k + 4 \<le> j) \<Longrightarrow> foldl (\<lambda>d k. put32 d (p + 4 * k) (f k)) d ks ! j = d ! j"
  by (induction ks arbitrary: d) (simp_all add: nth_put32)

lemma length_put_dinode [simp]: "length (put_dinode d p ip) = length d"
  by (simp add: put_dinode_def Let_def foldl_put32_other)

lemma put_dinode_outside: "j < p \<or> p + DINODE_SIZE \<le> j \<Longrightarrow> put_dinode d p ip ! j = d ! j"
  unfolding put_dinode_def Let_def
  by (subst foldl_put32_other(2)) (auto simp: DINODE_SIZE_def fs_consts nth_put16 nth_put32)

lemma get_dinode_cong:
  assumes e: "\<And>j. p \<le> j \<Longrightarrow> j < p + DINODE_SIZE \<Longrightarrow> d ! j = e ! j"
  shows "get_dinode d p ip = get_dinode e p ip"
proof -
  have h: "get16 d (p + k) = get16 e (p + k)" if "k \<le> 62" for k
    using that by (intro get16_cong e) (simp_all add: DINODE_SIZE_def)
  have w: "get32 d (p + k) = get32 e (p + k)" if "k \<le> 60" for k
    using that by (intro get32_cong e) (simp_all add: DINODE_SIZE_def)
  have "map (\<lambda>k. get32 d (p + 12 + 4 * k)) [0..<NDIRECT + 1] = map (\<lambda>k. get32 e (p + 12 + 4 * k)) [0..<NDIRECT + 1]"
    using w by (intro map_cong refl) (simp add: fs_consts add.assoc)
  then show ?thesis
    unfolding get_dinode_def using h [of 0] h [of 2] h [of 4] h [of 6] w [of 8] by simp
qed

lemma get_foldl_put32:
  assumes "distinct ks" and "k \<in> set ks" and "\<And>k. k \<in> set ks \<Longrightarrow> p + 4 * k + 4 \<le> length d"
  shows "get32 (foldl (\<lambda>d k. put32 d (p + 4 * k) (f k)) d ks) (p + 4 * k) = f k"
  using assms
proof (induction ks arbitrary: d)
  case (Cons a ks)
  show ?case
  proof (cases "k = a")
    case True
    have "get32 (foldl (\<lambda>d k. put32 d (p + 4 * k) (f k)) (put32 d (p + 4 * a) (f a)) ks) (p + 4 * a) = get32 (put32 d (p + 4 * a) (f a)) (p + 4 * a)"
    proof (rule get32_cong, rule foldl_put32_other(2))
      fix i c assume "i < (4 :: nat)" "c \<in> set ks"
      then have "c \<noteq> a" "i < 4" using Cons.prems(1) by auto
      then show "p + 4 * a + i < p + 4 * c \<or> p + 4 * c + 4 \<le> p + 4 * a + i" by linarith
    qed
    then show ?thesis using Cons.prems(3) [of a] True by simp
  qed (use Cons in simp)
qed simp

lemma get_dinode_put_dinode:
  assumes "p + DINODE_SIZE \<le> length d" and "length (i_addrs ip) = NDIRECT + 1"
  shows "get_dinode (put_dinode d p ip) p ip = ip"
proof -
  let ?d = "put32 (put16 (put16 (put16 (put16 d p (i_type ip)) (p + 2) (i_major ip)) (p + 4) (i_minor ip)) (p + 6) (i_nlink ip)) (p + 8) (i_size ip)"
  let ?e = "foldl (\<lambda>d k. put32 d (p + 12 + 4 * k) (i_addrs ip ! k)) ?d [0..<NDIRECT + 1]"
  have same: "?e ! j = ?d ! j" if "j < p + 12" for j using that by (intro foldl_put32_other(2)) auto
  have h: "get16 ?e (p + k) = get16 ?d (p + k)" if "k < 8" for k using that by (intro get16_cong same) simp
  have s: "get32 ?e (p + 8) = get32 ?d (p + 8)" by (intro get32_cong same) simp
  have "map (\<lambda>k. get32 ?e (p + 12 + 4 * k)) [0..<NDIRECT + 1] = map (\<lambda>k. i_addrs ip ! k) [0..<NDIRECT + 1]"
    using assms(1) by (intro map_cong refl get_foldl_put32) (auto simp: DINODE_SIZE_def fs_consts)
  also have "\<dots> = i_addrs ip" using assms(2) map_nth [of "i_addrs ip"] by simp
  finally have a: "map (\<lambda>k. get32 ?e (p + 12 + 4 * k)) [0..<NDIRECT + 1] = i_addrs ip" .
  show ?thesis
    unfolding put_dinode_def get_dinode_def Let_def a
    using h [of 0] h [of 2] h [of 4] h [of 6] s assms(1) by (simp add: DINODE_SIZE_def)
qed

lemma dinode_slots:
  assumes "IBLOCK m sp = IBLOCK n sp" and "m \<noteq> n"
  shows "dinode_off m + DINODE_SIZE \<le> dinode_off n \<or> dinode_off n + DINODE_SIZE \<le> dinode_off m"
proof -
  have "m div 8 = n div 8" using assms(1) by (simp add: IBLOCK_def IPB_def BSIZE_def DINODE_SIZE_def)
  then have "m mod 8 \<noteq> n mod 8" using assms(2) by (metis word_mod_div_equality)
  then have "unat (m mod 8) \<noteq> unat (n mod 8)" by (simp add: word_unat_eq_iff)
  then show ?thesis by (simp add: dinode_off_def IPB_def BSIZE_def DINODE_SIZE_def) linarith
qed

lemma dinode_in_block: "dinode_off m + DINODE_SIZE \<le> BSIZE"
proof -
  have "unat (m mod (8 :: u32)) < 8" by (simp add: unat_mod)
  then show ?thesis by (simp add: dinode_off_def IPB_def BSIZE_def DINODE_SIZE_def)
qed

text \<open>Inode number \<open>m\<close> as it is on disk, read into \<open>ip\<close>.\<close>

definition disk_inode :: "superblock \<Rightarrow> (u32 \<Rightarrow> u8 list) \<Rightarrow> u32 \<Rightarrow> inode \<Rightarrow> inode" where
  "disk_inode sp V m ip = get_dinode (V (IBLOCK m sp)) (dinode_off m) ip"


lemma disk_inode_update:
  assumes "length (i_addrs ip) = NDIRECT + 1" and "length (V (IBLOCK (i_inum ip) sp)) = BSIZE"
  defines "W \<equiv> V(IBLOCK (i_inum ip) sp := put_dinode (V (IBLOCK (i_inum ip) sp)) (dinode_off (i_inum ip)) ip)"
  shows "disk_inode sp W (i_inum ip) ip = ip" "m \<noteq> i_inum ip \<Longrightarrow> disk_inode sp W m iq = disk_inode sp V m iq"
proof -
  show "disk_inode sp W (i_inum ip) ip = ip"
    using assms(1,2) dinode_in_block by (simp add: disk_inode_def W_def get_dinode_put_dinode)
  assume m: "m \<noteq> i_inum ip"
  show "disk_inode sp W m iq = disk_inode sp V m iq"
  proof (cases "IBLOCK m sp = IBLOCK (i_inum ip) sp")
    case True
    then show ?thesis unfolding disk_inode_def W_def using dinode_slots [OF True m]
      by (auto intro!: get_dinode_cong put_dinode_outside)
  qed (simp add: disk_inode_def W_def)
qed

lemma upd_inode_block:
  assumes ok: "fs_ok s V" and f: "file_ok s V ip" and b: "b \<in> inode_blocks (sb s)" and len: "length d = BSIZE"
  shows "fs_ok s (V(b := d))" "fblk (V(b := d)) ip = fblk V ip" "file_ok s (V(b := d)) ip" "data_block s (V(b := d)) = data_block s V"
    "fblocks (V(b := d)) ip = fblocks V ip" "k < MAXFILE * BSIZE \<Longrightarrow> fbyte (V(b := d)) ip k = fbyte V ip k" "\<not> data_block s V b"
proof -
  have nb: "b \<notin> bitmap_blocks (sb s)" using ok b by (auto simp: fs_ok_def fs_geom_def)
  have u: "blk_used (sb s) (V(b := d)) c = blk_used (sb s) V c" if "c < unat (sb_size (sb s))" for c
    using used_other_block [OF nb that] by simp
  show "fs_ok s (V(b := d))" using ok u len by (auto simp: fs_ok_def meta_used_def)
  show nd: "\<not> data_block s V b" using b by (simp add: data_block_def meta_blocks_def)
  show m: "fblk (V(b := d)) ip = fblk V ip" using f nd by (auto simp: fblk_def file_ok_def fun_eq_iff)
  show db: "data_block s (V(b := d)) = data_block s V" using u by (auto simp: data_block_def fun_eq_iff)
  show "file_ok s (V(b := d)) ip" using f unfolding file_ok_def m db .
  show "fblocks (V(b := d)) ip = fblocks V ip" unfolding fblocks_def m ..
  assume "k < MAXFILE * BSIZE"
  then have "k div BSIZE < MAXFILE" by (simp add: fs_consts less_mult_imp_div_less)
  then show "fbyte (V(b := d)) ip k = fbyte V ip k" using f nd by (auto simp: fbyte_def m file_ok_def)
qed

lemma inode_block: "m < sb_ninodes sp \<Longrightarrow> IBLOCK m sp \<in> inode_blocks sp"
  by (auto simp: inode_blocks_def)

lemma with_own_inode [simp]: "with_inode s i (icache s ! i) = s"
  by (simp add: with_inode_def)

lemma iupdate_tx:
  assumes ok: "fs_ok s V" and i: "i < length (icache s)" and ip: "i_dev ip = 1" "i_inum ip < sb_ninodes (sb s)"
    and t: "tx (with_inode s i ip) {} {} V (Suc n) t"
  shows "ok (iupdate i) t (\<lambda>_ u. tx (with_inode s i ip) {} {}
    (V(IBLOCK (i_inum ip) (sb s) := put_dinode (V (IBLOCK (i_inum ip) (sb s))) (dinode_off (i_inum ip)) ip)) n u)"
proof -
  have b: "IBLOCK (i_inum ip) (sb s) < disksize s" "IBLOCK (i_inum ip) (sb s) \<notin> log_area (lg_start (lg s))"
    using inode_block [OF ip(2)] ok by (auto simp: fs_ok_def fs_geom_def)
  have sb: "sb t = sb s" using tframe_fs(2) [OF txD(1) [OF t]] by simp
  show ?thesis
    unfolding iupdate_def ok_get_inode tx_get_inode [OF t i] ip(1) ok_bnd [of "gets _"] ok_gets sb
    by (rule tx_block_update [where f = "\<lambda>d. put_dinode d (dinode_off (i_inum ip)) ip", OF t]) (use b tx_length [OF t] in simp_all)
qed

text \<open>
  C9. \<open>iupdate\<close> stores the cached inode: read back from the disk it is the same, no other inode changes although
  eight of them share a block, and no other block changes.
\<close>

theorem iupdate_stores:
  assumes "fs_ok s (vw s)" and "i < length (icache s)" and "i_dev (icache s ! i) = 1" and "i_inum (icache s ! i) < sb_ninodes (sb s)"
    and "length (i_addrs (icache s ! i)) = NDIRECT + 1" and "tx_ready (Suc l) s"
  shows "ok (iupdate i) s (\<lambda>_ t. disk_inode (sb s) (vw t) (i_inum (icache s ! i)) (icache s ! i) = icache s ! i
    \<and> (\<forall>m iq. m \<noteq> i_inum (icache s ! i) \<longrightarrow> disk_inode (sb s) (vw t) m iq = disk_inode (sb s) (vw s) m iq)
    \<and> (\<forall>b. b \<noteq> IBLOCK (i_inum (icache s ! i)) (sb s) \<longrightarrow> vw t b = vw s b) \<and> tx_ready l t \<and> icache t = icache s)"
proof -
  let ?ip = "icache s ! i"
  have B: "length (vw s (IBLOCK (i_inum ?ip) (sb s))) = BSIZE"
    using inode_block [OF assms(4)] assms(1) by (auto simp: fs_ok_def fs_geom_def)
  have t: "tx (with_inode s i ?ip) {} {} (vw s) (Suc l) s" using tx_start [OF assms(6)] by simp
  show ?thesis
  proof (rule ok_mono [OF iupdate_tx [OF assms(1-4) t]])
    fix x u assume u: "tx (with_inode s i ?ip) {} {} ((vw s)(IBLOCK (i_inum ?ip) (sb s) :=
      put_dinode (vw s (IBLOCK (i_inum ?ip) (sb s))) (dinode_off (i_inum ?ip)) ?ip)) l u"
    have "icache u = icache s" using tframe_fs(1) [OF txD(1) [OF u]] by simp
    then show "disk_inode (sb s) (vw u) (i_inum ?ip) ?ip = ?ip
      \<and> (\<forall>m iq. m \<noteq> i_inum ?ip \<longrightarrow> disk_inode (sb s) (vw u) m iq = disk_inode (sb s) (vw s) m iq)
      \<and> (\<forall>b. b \<noteq> IBLOCK (i_inum ?ip) (sb s) \<longrightarrow> vw u b = vw s b) \<and> tx_ready l u \<and> icache u = icache s"
      using tx_finish [OF u] disk_inode_update [where V = "vw s" and sp = "sb s", OF assms(5) B] by simp
  qed
qed

section \<open>A file as a sequence of bytes\<close>

text \<open>
  A cached inode that stands for a file: its blocks are proper and there are no holes below its size, the
  inode on disk agrees with it, and it is no device.
\<close>

definition file_inv :: "'a fstate_scheme \<Rightarrow> nat \<Rightarrow> bool" where
  "file_inv s i \<longleftrightarrow> fs_ok s (vw s) \<and> i < length (icache s) \<and> file_ok s (vw s) (icache s ! i) \<and> i_type (icache s ! i) \<noteq> T_DEV
     \<and> i_inum (icache s ! i) < sb_ninodes (sb s) \<and> unat (i_size (icache s ! i)) \<le> MAXFILE * BSIZE
     \<and> (\<forall>k. k * BSIZE < unat (i_size (icache s ! i)) \<longrightarrow> fblk (vw s) (icache s ! i) k \<noteq> 0)
     \<and> disk_inode (sb s) (vw s) (i_inum (icache s ! i)) (icache s ! i) = icache s ! i"

definition file_bytes :: "'a fstate_scheme \<Rightarrow> nat \<Rightarrow> u8 list" where
  "file_bytes s i = map (fbyte (vw s) (icache s ! i)) [0..<unat (i_size (icache s ! i))]"

lemma fs_ok_frame: "tframe s t \<Longrightarrow> fs_ok t V = fs_ok s V"
  using fs_geom_frame [of s t] meta_used_frame [of s t V] tframe_sel(2) [of s t] by (simp add: fs_ok_def)

lemma data_block_frame: "tframe s t \<Longrightarrow> data_block t V = data_block s V"
  using tframe_sel(8) [of s t] tframe_fs [of s t] by (intro ext) (simp add: data_block_def meta_blocks_def)

lemma file_ok_frame: "tframe s t \<Longrightarrow> file_ok t V = file_ok s V"
  using data_block_frame [of s t] by (intro ext) (simp add: file_ok_def)

lemma add_wraps: "off + n < off \<longleftrightarrow> 2 ^ 32 \<le> unat off + unat (n :: u32)"
proof -
  have "unat (off + n) = (unat off + unat n) mod 2 ^ 32" by (simp add: unat_word_ariths)
  then show ?thesis using unat32_less [of off] unat32_less [of n]
    by (cases "unat off + unat n < 2 ^ 32") (simp_all add: word_less_nat_alt le_mod_geq)
qed

lemma add_no_wrap: "unat off + unat (n :: u32) < 2 ^ 32 \<Longrightarrow> unat (off + n) = unat off + unat n"
  by (simp add: unat_word_ariths)

lemma sint_small:
  assumes "unat (x :: u32) < 2 ^ 31"
  shows "sint x = int (unat x)"
proof -
  have "int (unat x) < int (2 ^ 31)" using assms by (simp only: of_nat_less_iff)
  then show ?thesis using sint_ge [of x] by (auto simp: sint_u32 split: if_splits)
qed


lemma writei_guard:
  "\<not> (off > sz \<or> off + n < off) \<and> \<not> off + n > of_nat (MAXFILE * BSIZE) \<longleftrightarrow>
    unat off \<le> unat sz \<and> unat off + unat (n :: u32) \<le> MAXFILE * BSIZE"
  using add_wraps [of off n] add_no_wrap [of off n]
  by (cases "unat off + unat n < 2 ^ 32") (auto simp: word_less_nat_alt word_le_nat_alt fs_consts not_less)

lemma no_holes:
  assumes "\<forall>k. k * BSIZE < sz \<longrightarrow> fblk V ip k \<noteq> 0" and "j + n \<le> sz"
  shows "missing V ip j n = {}"
proof -
  have "fblk V ip ((j + i) div BSIZE) \<noteq> 0" if "i < n" for i
  proof -
    have "(j + i) div BSIZE * BSIZE \<le> j + i" by simp
    then show ?thesis using assms that by (meson le_less_trans less_le_trans nat_add_left_cancel_less)
  qed
  then show ?thesis by (auto simp: missing_def touched_def)
qed

lemma ok_set_inode: "ok (bnd (set_inode i f) g) t Q = ok (g ()) (t\<lparr>icache := (icache t)[i := f (icache t ! i)]\<rparr>) Q"
  by (simp add: set_inode_def ok_bnd)

lemma size_irrelevant [simp]:
  "fblk V (ip\<lparr>i_size := z\<rparr>) = fblk V ip" "fbyte V (ip\<lparr>i_size := z\<rparr>) = fbyte V ip" "fblocks V (ip\<lparr>i_size := z\<rparr>) = fblocks V ip"
  "file_ok s V (ip\<lparr>i_size := z\<rparr>) = file_ok s V ip"
  by (simp_all add: fun_eq_iff fblk_def fbyte_def fblocks_def file_ok_def)

lemma bytes_splice:
  assumes "\<And>k. k < m \<Longrightarrow> f' k = (if j \<le> k \<and> k < j + length xs then xs ! (k - j) else f k)" and "j \<le> n" and "m = max n (j + length xs)"
  shows "map f' [0..<m] = splice (map f [0..<n]) j xs"
proof (rule nth_equalityI)
  show "length (map f' [0..<m]) = length (splice (map f [0..<n]) j xs)" using assms(2,3) by (simp add: splice_def)
  fix i assume "i < length (map f' [0..<m])"
  then have i: "i < m" by simp
  consider "i < j" | "j \<le> i" "i < j + length xs" | "j + length xs \<le> i" "i < n" using i assms(3) by fastforce
  then show "map f' [0..<m] ! i = splice (map f [0..<n]) j xs ! i"
    using assms(1) [OF i] i assms(2) by cases (auto simp: splice_def nth_append)
qed

text \<open>What a state inside a transaction says about the file.\<close>

lemma file_state:
  assumes t: "tx (with_inode s i ip) {} {} V l t" and i: "i < length (icache s)" and ok: "fs_ok s V" "file_ok s V ip"
    and p: "i_type ip \<noteq> T_DEV" "i_inum ip < sb_ninodes (sb s)" "unat (i_size ip) \<le> MAXFILE * BSIZE"
    and h: "\<And>k. k * BSIZE < unat (i_size ip) \<Longrightarrow> fblk V ip k \<noteq> 0" and d: "disk_inode (sb s) V (i_inum ip) ip = ip"
  shows "file_inv t i" "tx_ready l t" "vw t = V" "icache t = (icache s)[i := ip]" "file_bytes t i = map (fbyte V ip) [0..<unat (i_size ip)]"
proof -
  note f = tx_finish [OF t]
  have fr: "tframe (with_inode s i ip) t" using f by simp
  show v: "vw t = V" and "tx_ready l t" using f by simp_all
  show ic: "icache t = (icache s)[i := ip]" using tframe_fs(1) [OF fr] by (simp add: with_inode_def)
  have sb: "sb t = sb s" using tframe_fs(2) [OF fr] by simp
  have "file_ok t V ip" using file_ok_frame [OF fr] ok(2) by (simp add: with_inode_def)
  then show "file_inv t i" unfolding file_inv_def v ic sb using fs_ok_frame [OF fr, of V] i ok p h d by simp
  show "file_bytes t i = map (fbyte V ip) [0..<unat (i_size ip)]" using i by (simp add: file_bytes_def v ic)
qed

text \<open>
  C5. \<open>readi\<close> returns the bytes of the file: those from \<open>off\<close> on, at most \<open>n\<close> and no more than there are; an offset
  beyond the end or a count that wraps around gives -1. Nothing changes.
\<close>

theorem readi_reads:
  assumes inv: "file_inv s i" and r: "tx_ready l s"
  shows "ok (readi i off n) s (\<lambda>(r, bytes) t.
    (if unat off \<le> length (file_bytes s i) \<and> unat off + unat n < 2 ^ 32
     then bytes = take (unat n) (drop (unat off) (file_bytes s i)) \<and> r = int (length bytes)
     else r = - 1 \<and> bytes = [])
    \<and> tx_ready l t \<and> vw t = vw s \<and> icache t = icache s \<and> file_inv t i \<and> file_bytes t i = file_bytes s i)"
proof -
  let ?ip = "icache s ! i" and ?V = "vw s" and ?sz = "unat (i_size (icache s ! i))"
  note I = inv [unfolded file_inv_def]
  have len: "length (file_bytes s i) = ?sz" by (simp add: file_bytes_def)
  have keep: "tx_ready l t \<and> vw t = ?V \<and> icache t = icache s \<and> file_inv t i \<and> file_bytes t i = file_bytes s i" if "tx s {} {} ?V l t" for t
    using tx_finish [OF that] tframe_fs [of s t] inv fs_ok_frame [of s t] file_ok_frame [of s t]
    by (auto simp: file_inv_def file_bytes_def)
  note t0 = tx_start [OF r]
  define m where "m = (if off + n > i_size ?ip then i_size ?ip - off else n)"
  show ?thesis
  proof (cases "unat off \<le> ?sz \<and> unat off + unat n < 2 ^ 32")
    case False
    then have "off > i_size ?ip \<or> off + n < off" using add_wraps [of off n] by (auto simp: word_less_nat_alt)
    then show ?thesis using False I keep [OF t0] by (simp add: readi_def ok_get_inode len)
  next
    case True
    then have g: "\<not> (off > i_size ?ip \<or> off + n < off)" using add_wraps [of off n] by (auto simp: word_less_nat_alt)
    have um: "unat m = min (unat n) (?sz - unat off)"
      using True add_no_wrap [of off n] by (auto simp: m_def word_less_nat_alt word_le_nat_alt unat_sub)
    have miss: "missing ?V ?ip (unat off) (unat (m - 0)) = {}" using I um True by (intro no_holes [of ?sz]) auto
    have "ok (readi_loop i 0 off m []) s (\<lambda>bytes u. bytes = [] @ map (fbyte ?V ?ip) [unat off..<unat off + unat (m - 0)]
      \<and> (\<exists>W iq. tx (with_inode s i iq) {} {} W l u \<and> grown s ?V ?ip W iq \<and> (missing ?V ?ip (unat off) (unat (m - 0)) = {} \<longrightarrow> W = ?V \<and> iq = ?ip)))"
      using I t0 miss um True by (intro readi_loop_ok) auto
    then have loop: "ok (readi_loop i 0 off m []) s (\<lambda>bytes u. bytes = map (fbyte ?V ?ip) [unat off..<unat off + unat m] \<and> tx s {} {} ?V l u)"
      by (rule ok_mono) (use miss in auto)
    have bytes: "map (fbyte ?V ?ip) [unat off..<unat off + unat m] = take (unat n) (drop (unat off) (file_bytes s i))"
      using um by (intro nth_equalityI) (auto simp: file_bytes_def)
    have "?sz \<le> 71680" using I by (simp add: fs_consts)
    then have "unat m < 2 ^ 31" unfolding um by simp
    then have si: "sint m = int (length (take (unat n) (drop (unat off) (file_bytes s i))))"
      using um by (simp add: sint_small len)
    have "ok (bnd (readi_loop i 0 off m []) (\<lambda>bytes. ret (sint m, bytes))) s (\<lambda>(r, bytes) t.
      (bytes = take (unat n) (drop (unat off) (file_bytes s i)) \<and> r = int (length bytes))
      \<and> tx_ready l t \<and> vw t = vw s \<and> icache t = icache s \<and> file_inv t i \<and> file_bytes t i = file_bytes s i)"
      by (rule ok_bndI [OF loop]) (use bytes si keep in auto)
    then show ?thesis using True g I len by (simp add: readi_def ok_get_inode Let_def m_def)
  qed
qed



text \<open>The last part of \<open>writei\<close>: a larger size goes to the inode and to the disk.\<close>

lemma writei_size:
  assumes w: "written s V ip j src W iq" and u: "tx (with_inode s i iq) {} {} W (Suc l) u" and i: "i < length (icache s)"
    and ip: "i_inum ip < sb_ninodes (sb s)"
  defines "B \<equiv> IBLOCK (i_inum ip) (sb s)"
  shows "ok (bnd (set_inode i (\<lambda>ip. ip\<lparr>i_size := z\<rparr>)) (\<lambda>_. iupdate i)) u (\<lambda>_ t. tx (with_inode s i (iq\<lparr>i_size := z\<rparr>)) {} {}
      (W(B := put_dinode (W B) (dinode_off (i_inum ip)) (iq\<lparr>i_size := z\<rparr>))) l t)"
proof -
  note W = w [unfolded written_def]
  obtain as where iq: "iq = ip\<lparr>i_addrs := as\<rparr>" using W by auto
  have d: "i_dev (iq\<lparr>i_size := z\<rparr>) = 1" "i_inum (iq\<lparr>i_size := z\<rparr>) = i_inum ip" using W iq by (simp_all add: file_ok_def)
  have "tx (with_inode s i (iq\<lparr>i_size := z\<rparr>)) {} {} W (Suc l) (u\<lparr>icache := (icache u)[i := (icache u ! i)\<lparr>i_size := z\<rparr>]\<rparr>)"
    by (rule tx_set_inode [OF u i, of "\<lambda>ip. ip\<lparr>i_size := z\<rparr>"])
  from iupdate_tx [OF _ i d(1) _ this, unfolded d(2)] show ?thesis
    using W ip by (simp add: ok_set_inode B_def)
qed

text \<open>The file, other files, other inodes and the log after a write of \<open>src\<close>.\<close>

definition file_written :: "'a fstate_scheme \<Rightarrow> nat \<Rightarrow> nat \<Rightarrow> u8 list \<Rightarrow> nat \<Rightarrow> 'a fstate_scheme \<Rightarrow> bool" where
  "file_written s i j src l t \<longleftrightarrow> file_bytes t i = splice (file_bytes s i) j src
     \<and> file_inv t i \<and> tx_ready l t \<and> (\<forall>j. j \<noteq> i \<longrightarrow> icache t ! j = icache s ! j)
     \<and> (\<forall>b. data_block s (vw s) b \<and> b \<notin> fblocks (vw s) (icache s ! i) \<longrightarrow> vw t b = vw s b)
     \<and> (\<forall>m iq. m < sb_ninodes (sb s) \<and> m \<noteq> i_inum (icache s ! i) \<longrightarrow> disk_inode (sb s) (vw t) m iq = disk_inode (sb s) (vw s) m iq)"

lemma written_mapped:
  assumes w: "written s V ip j src W iq" and h: "\<forall>k. k * BSIZE < sz \<longrightarrow> fblk V ip k \<noteq> 0" and lim: "sz \<le> MAXFILE * BSIZE" "j \<le> sz"
    and k: "k * BSIZE < max sz (j + length src)"
  shows "fblk W iq k \<noteq> 0"
proof (cases "k * BSIZE < sz")
  case True
  then have "k < MAXFILE" "fblk V ip k \<noteq> 0" using h lim by (auto simp: fs_consts)
  then show ?thesis using w by (simp add: written_def)
next
  case False
  then have "k * BSIZE - j < length src" "j + (k * BSIZE - j) = k * BSIZE" using k lim by auto
  then have "k \<in> touched j (length src)" by (auto simp: touched_def fs_consts intro!: image_eqI [where x = "k * 512 - j"])
  then show ?thesis using w by (simp add: written_def)
qed

lemma file_writtenI:
  assumes inv: "file_inv s i" and w: "written s (vw s) (icache s ! i) j src W iq" and lim: "j \<le> unat (i_size (icache s ! i))" "j + length src \<le> MAXFILE * BSIZE"
    and X: "fs_ok s X" "file_ok s X ir" "fblk X ir = fblk W iq"
      "\<And>k. k < MAXFILE * BSIZE \<Longrightarrow> fbyte X ir k = fbyte W iq k" "\<And>b. b \<notin> inode_blocks (sb s) \<Longrightarrow> X b = W b"
    and ir: "i_type ir = i_type (icache s ! i)" "i_inum ir = i_inum (icache s ! i)"
      "unat (i_size ir) = max (unat (i_size (icache s ! i))) (j + length src)"
    and d: "disk_inode (sb s) X (i_inum ir) ir = ir"
      "\<And>m iq. m < sb_ninodes (sb s) \<Longrightarrow> m \<noteq> i_inum (icache s ! i) \<Longrightarrow> disk_inode (sb s) X m iq = disk_inode (sb s) (vw s) m iq"
    and t: "tx (with_inode s i ir) {} {} X l t"
  shows "file_written s i j src l t"
proof -
  note W = w [unfolded written_def] and I = inv [unfolded file_inv_def]
  have i: "i < length (icache s)" using I by simp
  have holes: "fblk X ir k \<noteq> 0" if "k * BSIZE < unat (i_size ir)" for k
    unfolding X(3) using I lim that ir(3) by (intro written_mapped [OF w]) auto
  have sz: "unat (i_size ir) \<le> MAXFILE * BSIZE" using I lim ir(3) by simp
  note fs = file_state [OF t i X(1,2) _ _ sz holes d(1)]
  have "map (fbyte X ir) [0..<unat (i_size ir)] = splice (file_bytes s i) j src"
    unfolding file_bytes_def by (rule bytes_splice) (use W X(4) sz lim ir(3) in auto)
  moreover have "X b = vw s b" if "data_block s (vw s) b" "b \<notin> fblocks (vw s) (icache s ! i)" for b
    using W X(5) that by (auto simp: data_block_def meta_blocks_def)
  ultimately show ?thesis using fs I ir d(2) by (simp add: file_written_def)
qed

lemma writei_grows:
  assumes inv: "file_inv s i" and w: "written s (vw s) (icache s ! i) j src W iq" and lim: "j \<le> unat (i_size (icache s ! i))" "j + length src \<le> MAXFILE * BSIZE"
    and z: "unat z = j + length src" "i_size (icache s ! i) < z" and u: "tx (with_inode s i iq) {} {} W (Suc l) u"
  shows "ok (bnd (set_inode i (\<lambda>ip. ip\<lparr>i_size := z\<rparr>)) (\<lambda>_. iupdate i)) u (\<lambda>_ t. file_written s i j src l t)"
proof -
  let ?ip = "icache s ! i"
  let ?B = "IBLOCK (i_inum ?ip) (sb s)" and ?ir = "iq\<lparr>i_size := z\<rparr>"
  let ?d = "put_dinode (W ?B) (dinode_off (i_inum ?ip)) ?ir"
  note W = w [unfolded written_def] and I = inv [unfolded file_inv_def]
  obtain as where iq: "iq = ?ip\<lparr>i_addrs := as\<rparr>" using W by auto
  have num: "i_inum ?ip < sb_ninodes (sb s)" and i: "i < length (icache s)" using I by simp_all
  have B: "?B \<in> inode_blocks (sb s)" using num by (rule inode_block)
  have okW: "fs_ok s W" "file_ok s W ?ir" using W by simp_all
  have al: "length (i_addrs ?ir) = NDIRECT + 1" using okW(2) by (simp add: file_ok_def)
  have ld: "length (W ?B) = BSIZE" using okW(1) B by (auto simp: fs_ok_def fs_geom_def)
  have ld': "length ?d = BSIZE" using ld by simp
  note U = upd_inode_block [OF okW B ld', unfolded size_irrelevant] and D = disk_inode_update [of ?ir W "sb s", OF al]
  have inum: "i_type ?ir = i_type ?ip" "i_inum ?ir = i_inum ?ip" using iq by simp_all
  have other: "disk_inode (sb s) W m iq = disk_inode (sb s) (vw s) m iq" if "m < sb_ninodes (sb s)" for m iq
    using W inode_block [OF that] by (simp add: disk_inode_def)
  have off_B: "(W(?B := ?d)) b = W b" if "b \<notin> inode_blocks (sb s)" for b using B that by auto
  have sz: "unat (i_size ?ir) = max (unat (i_size ?ip)) (j + length src)" using z by (simp add: word_less_nat_alt)
  show ?thesis
  proof (rule ok_mono [OF writei_size [OF w u i num]], rule file_writtenI [OF inv w lim U(1) _ _ _ off_B inum sz])
    show "file_ok s (W(?B := ?d)) ?ir" "fblk (W(?B := ?d)) ?ir = fblk W iq" unfolding size_irrelevant by (rule U(3), rule U(2))
    show "fbyte (W(?B := ?d)) ?ir k = fbyte W iq k" if "k < MAXFILE * BSIZE" for k unfolding size_irrelevant by (rule U(6) [OF that])
    show "disk_inode (sb s) (W(?B := ?d)) (i_inum ?ir) ?ir = ?ir" using D(1) ld inum(2) by simp
    show "disk_inode (sb s) (W(?B := ?d)) m iq = disk_inode (sb s) (vw s) m iq" if "m < sb_ninodes (sb s)" "m \<noteq> i_inum ?ip" for m iq
      using D(2) [of m iq] ld inum(2) that other [OF that(1), of iq] by simp
  qed
qed

lemma writei_inside:
  assumes inv: "file_inv s i" and w: "written s (vw s) (icache s ! i) j src W (icache s ! i)"
    and lim: "j + length src \<le> unat (i_size (icache s ! i))" and u: "tx s {} {} W (Suc l) u"
  shows "file_written s i j src l u"
proof -
  note W = w [unfolded written_def] and I = inv [unfolded file_inv_def]
  have u': "tx (with_inode s i (icache s ! i)) {} {} W l u" using tx_weaken [OF u, of l] by simp
  have "W (IBLOCK m (sb s)) = vw s (IBLOCK m (sb s))" if "m < sb_ninodes (sb s)" for m using W inode_block [OF that] by simp
  then have d: "disk_inode (sb s) W m iq = disk_inode (sb s) (vw s) m iq" if "m < sb_ninodes (sb s)" for m iq
    using that by (simp add: disk_inode_def)
  show ?thesis by (rule file_writtenI [OF inv w _ _ _ _ _ _ _ _ _ _ _ _ u']) (use W I lim d in auto)
qed

text \<open>
  C4. \<open>writei\<close> writes to the file: its bytes from \<open>off\<close> on are replaced by \<open>src\<close>, and the file is extended when they reach
  beyond its end. The inode on disk is up to date, no block of another file and no other inode changes. A
  write that starts beyond the end, or would reach beyond the largest file, gives -1 and changes nothing. The
  transaction needs room for each block written, five more for each block that is added, and one.
\<close>

theorem writei_writes:
  assumes inv: "file_inv s i" and src: "length src = unat n"
    and room: "tx_ready (l + 5 * card (missing (vw s) (icache s ! i) (unat off) (unat n)) + card (touched (unat off) (unat n)) + 1) s"
    and free: "2 * card (missing (vw s) (icache s ! i) (unat off) (unat n)) \<le> card (free_blocks s (vw s))"
  shows "ok (writei i src off n) s (\<lambda>r t.
    if unat off \<le> length (file_bytes s i) \<and> unat off + unat n \<le> MAXFILE * BSIZE
    then r = int (unat n) \<and> file_written s i (unat off) src l t
    else r = - 1 \<and> t = s)"
proof -
  let ?ip = "icache s ! i" and ?V = "vw s" and ?sz = "unat (i_size (icache s ! i))" and ?F = "\<lambda>_. file_written s i (unat off) src l"
  note I = inv [unfolded file_inv_def] and t0 = tx_start [OF room]
  have len: "length (file_bytes s i) = ?sz" by (simp add: file_bytes_def)
  note guard = writei_guard [where off = off and sz = "i_size ?ip" and n = n]
  show ?thesis
  proof (cases "unat off \<le> ?sz \<and> unat off + unat n \<le> MAXFILE * BSIZE")
    case False
    then show ?thesis using guard I len by (auto simp: writei_def ok_get_inode)
  next
    case True
    define z where "z = off + n"
    have uz: "unat z = unat off + length src" using True add_no_wrap [of off n] src by (simp add: z_def fs_consts)
    have sn: "sint n = int (unat n)" using True by (intro sint_small) (simp add: fs_consts)
    have loop: "ok (writei_loop i src 0 off n) s (\<lambda>r u. r = z \<and> (\<exists>W iq. tx (with_inode s i iq) {} {} W (Suc l) u
        \<and> written s ?V ?ip (unat off) src W iq \<and> (missing ?V ?ip (unat off) (unat n) = {} \<longrightarrow> iq = ?ip)))"
      using writei_loop_ok [where V = ?V and ip = ?ip and l = "Suc l" and off = off and n = n and tot = 0 and src = src and t = s] I True src free t0
      by (simp add: z_def)
    have "ok (bnd (writei_loop i src 0 off n) (\<lambda>off. bnd (get_inode i) (\<lambda>ip.
        bnd (if n > 0 \<and> off > i_size ip then bnd (set_inode i (\<lambda>ip. ip\<lparr>i_size := off\<rparr>)) (\<lambda>_. iupdate i) else ret ()) (\<lambda>_. ret (sint n))))) s
        (\<lambda>r t. r = sint n \<and> ?F r t)"
    proof (rule ok_bndI [OF loop], elim conjE exE)
      fix r u W iq assume r: "r = z" and u: "tx (with_inode s i iq) {} {} W (Suc l) u" and w: "written s ?V ?ip (unat off) src W iq"
        and same: "missing ?V ?ip (unat off) (unat n) = {} \<longrightarrow> iq = ?ip"
      have i: "i < length (icache s)" and size: "i_size iq = i_size ?ip" using I w by (auto simp: written_def)
      have last: "ok (if n > 0 \<and> z > i_size iq then bnd (set_inode i (\<lambda>ip. ip\<lparr>i_size := z\<rparr>)) (\<lambda>_. iupdate i) else ret ()) u ?F"
      proof (cases "n > 0 \<and> z > i_size iq")
        case False
        have le: "unat off + length src \<le> ?sz" using False size uz True src by (auto simp: word_less_nat_alt not_less)
        then have "iq = ?ip" using same src no_holes [of ?sz ?V ?ip "unat off" "unat n"] I by simp
        then show ?thesis unfolding if_not_P [OF False] using writei_inside [OF inv _ le, of W l u] w u by simp
      qed (use writei_grows [OF inv w _ _ uz _ u] True src size in simp)
      show "ok (bnd (get_inode i) (\<lambda>ip. bnd (if n > 0 \<and> r > i_size ip then bnd (set_inode i (\<lambda>ip. ip\<lparr>i_size := r\<rparr>)) (\<lambda>_. iupdate i) else ret ())
          (\<lambda>_. ret (sint n)))) u (\<lambda>r t. r = sint n \<and> ?F r t)"
        unfolding ok_get_inode tx_get_inode [OF u i] r by (rule ok_bndI [OF last]) simp
    qed
    then show ?thesis using guard True I len sn by (simp add: writei_def ok_get_inode)
  qed
qed


section \<open>A file system with a file\<close>

text \<open>Block 40 of the file system of \<^const>\<open>fs1\<close> is given to inode 1, a file with the five bytes \<open>hello\<close>.\<close>

definition hello :: inode where
  "hello = \<lparr>i_dev = 1, i_inum = 1, i_ref = 1, i_flags = I_VALID, i_type = T_FILE, i_major = 0, i_minor = 0, i_nlink = 1,
     i_size = 5, i_addrs = 40 # replicate 12 0\<rparr>"

definition image2 :: "u32 \<Rightarrow> u8 list" where
  "image2 = (balloc_view sb1 40 image1)(40 := [104, 101, 108, 108, 111] @ replicate 507 0,
     32 := put_dinode (replicate BSIZE 0) 64 hello)"

definition fs2 :: tstate where
  "fs2 = fs1\<lparr>memdisk := image2, icache := [hello]\<rparr>"

lemma hello_blocks [simp]: "fblk V hello k = (if k = 0 then 40 else 0)"
  by (cases k) (auto simp: fblk_def hello_def fs_consts nth_Cons split: nat.splits)

lemma fs2_same:
  "fs_ok fs2 = fs_ok fs1" "data_block fs2 = data_block fs1" "free_blocks fs2 = free_blocks fs1" "fs_geom fs2 = fs_geom fs1"
  by (simp_all add: fun_eq_iff fs2_def fs_ok_def fs_geom_def meta_used_def meta_blocks_def data_block_def free_blocks_def fs1_def kern0_def)

lemma allocated2: "allocated fs1 image1 40 (balloc_view sb1 40 image1)"
  using geom1 meta1 used1 [of 40] by (simp add: allocated_def fs_ok_def free_blocks_def image1_sel)

lemma hello_ok: "data_block s V 40 \<Longrightarrow> file_ok s V hello"
  by (auto simp: file_ok_def fs_consts) (simp_all add: hello_def)

lemma image2_ok: "fs_ok fs1 image2" "data_block fs1 image2 40" "{50, 51, 52, 53} \<subseteq> free_blocks fs1 image2"
proof -
  let ?W = "balloc_view sb1 40 image1" and ?d = "[104, 101, 108, 108, 111] @ replicate 507 0 :: u8 list"
  note al = allocated2
  have d: "data_block fs1 ?W 40" using alloc_new_block [OF al] by simp
  have l: "length ?d = BSIZE" by (simp add: BSIZE_def)
  note U = upd_data_block [OF alloc_fs_ok [OF al] d l]
  have b: "32 \<in> inode_blocks (sb fs1)" and p: "length (put_dinode (replicate BSIZE 0) 64 hello) = BSIZE" by (simp_all add: inodes1)
  have f: "file_ok fs1 (?W(40 := ?d)) hello" using d unfolding U(2) [symmetric] by (rule hello_ok)
  note I = upd_inode_block [OF U(1) f b p, folded image2_def]
  show "fs_ok fs1 image2" by (rule I(1))
  show "data_block fs1 image2 40" unfolding I(4) U(2) by (rule d)
  have "blk_used sb1 image2 c \<longleftrightarrow> c = 40 \<or> c < 34" if "c < 100" for c
  proof -
    have "blk_used sb1 image2 c = blk_used sb1 ?W c" unfolding image2_def using that by (simp add: used_other_block bitmap1)
    then show ?thesis using alloc_used [OF al, of c] used1 [OF that] that by simp
  qed
  then show "{50, 51, 52, 53} \<subseteq> free_blocks fs1 image2" by (simp add: free_blocks_def)
qed

lemma fs2_sel [simp]: "sb fs2 = sb1" "icache fs2 = [hello]" "memdisk fs2 = image2" "lg fs2 = log0 (head0 0 0) 1" "bufs fs2 = idle_bufs" "disksize fs2 = 100" "no_locks fs2"
  by (simp_all add: fs2_def del: no_locks_free) (rule no_locks_cong [THEN iffD2, rotated 2, OF fs1_sel(1)], simp_all)

lemma image2_length: "length (image2 b) = BSIZE"
  by (auto simp: image2_def balloc_view_def length_set_mark image1_sel BSIZE_def)

lemma cache2: "bc_inv fs2" "hset fs2 = {}" "dset fs2 = {}" "vw fs2 = image2"
  using idle_cache [of fs2] by (simp_all add: image2_length)

lemma ready2: "n \<le> 29 \<Longrightarrow> tx_ready n fs2"
proof -
  have "image2 2 = image1 2"
    by (simp add: image2_def balloc_view_def set_mark_def Let_def BBLOCK_def sb1_def BPB_nat)
  then show "n \<le> 29 \<Longrightarrow> ?thesis" using area0(1)
    by (simp add: tx_ready_def log_inv_def log_geom_def cache2 log0_def head0_def logged_def)
      (simp add: image1_def get32_def BSIZE_def)
qed

lemma file2: "file_inv fs2 0" "file_bytes fs2 0 = [104, 101, 108, 108, 111]"
proof -
  have p: "64 + DINODE_SIZE \<le> length (replicate BSIZE (0 :: u8))" "length (i_addrs hello) = NDIRECT + 1"
    by (simp_all add: hello_def fs_consts DINODE_SIZE_def)
  have "disk_inode sb1 image2 1 hello = hello"
    using get_dinode_put_dinode [OF p] by (simp add: disk_inode_def image2_def IBLOCK_def IPB_def DINODE_SIZE_def BSIZE_def sb1_def dinode_off_def)
  then have d: "disk_inode sb1 image2 (i_inum hello) hello = hello" by (simp add: hello_def)
  have f: "file_ok fs2 image2 hello" by (rule hello_ok) (simp add: fs2_same image2_ok)
  have s: "i_type hello \<noteq> T_DEV" "i_inum hello < sb_ninodes sb1" "unat (i_size hello) = 5"
    by (simp_all add: hello_def T_FILE_def T_DEV_def sb1_def)
  show "file_inv fs2 0"
    unfolding file_inv_def cache2 fs2_sel using d f s image2_ok(1) by (auto simp: fs2_same fs_consts)
  show "file_bytes fs2 0 = [104, 101, 108, 108, 111]"
    unfolding file_bytes_def cache2 fs2_sel using s by (simp add: upt_rec fbyte_def image2_def fs_consts)
qed

lemma iupdate_stores_witness:
  "ok (iupdate 0) fs2 (\<lambda>_ t. disk_inode sb1 (vw t) 1 hello = hello \<and> disk_inode sb1 (vw t) 0 inode0 = inode0)"
proof -
  have z: "disk_inode sb1 image2 0 inode0 = inode0"
    by (simp add: disk_inode_def image2_def IBLOCK_def IPB_def DINODE_SIZE_def BSIZE_def sb1_def dinode_off_def)
      (simp add: get_dinode_def fs_consts get16_def get32_def put_dinode_outside inode0_def upt_rec numeral_eq_Suc)
  show ?thesis
    by (rule ok_mono [OF iupdate_stores [where s = fs2 and i = 0 and l = 5]])
      (use file2(1) ready2 z in \<open>auto simp: file_inv_def cache2 file_ok_def hello_def\<close>)
qed

lemma readi_reads_witness:
  "ok (readi 0 1 100) fs2 (\<lambda>(r, bytes) t. r = 4 \<and> bytes = [101, 108, 108, 111] \<and> file_bytes t 0 = [104, 101, 108, 108, 111])"
  by (rule ok_mono [OF readi_reads [OF file2(1) ready2 [of 29], of 1 100]]) (auto simp: file2)

lemma writei_writes_witness:
  "ok (writei 0 (replicate 508 7) 5 508) fs2 (\<lambda>r t. r = 508 \<and> file_bytes t 0 = [104, 101, 108, 108, 111] @ replicate 508 7)"
proof -
  have "touched 5 508 \<subseteq> {0, 1}" by (auto simp: touched_def fs_consts)
  then have c: "card (touched 5 508) \<le> 2" using card_mono [of "{0, 1 :: nat}" "touched 5 508"] by simp
  moreover have "card (missing V ip 5 508) \<le> card (touched 5 508)" for V ip by (rule card_mono) (auto simp: missing_def)
  ultimately have m: "card (missing V ip 5 508) \<le> 2" for V ip using le_trans by blast
  have "card {50, 51, 52, 53 :: nat} \<le> card (free_blocks fs2 (vw fs2))"
    using image2_ok(3) by (intro card_mono) (simp_all add: fs2_same cache2)
  then have f: "2 * card (missing (vw fs2) (icache fs2 ! 0) (unat (5 :: u32)) (unat (508 :: u32))) \<le> card (free_blocks fs2 (vw fs2))"
    using m [of "vw fs2" "icache fs2 ! 0"] by simp
  have r: "tx_ready (5 + 5 * card (missing (vw fs2) (icache fs2 ! 0) (unat (5 :: u32)) (unat (508 :: u32))) + card (touched (unat (5 :: u32)) (unat (508 :: u32))) + 1) fs2"
    using m [of "vw fs2" "icache fs2 ! 0"] c by (intro ready2) simp
  show ?thesis
    by (rule ok_mono [OF writei_writes [where l = 5 and src = "replicate 508 7", OF file2(1) _ r f]])
      (auto simp: file2 file_written_def splice_def fs_consts)
qed

end
