(* ===== verification/Shell.thy ===== *)
theory Shell
  imports Ulib Sysfile
begin

text \<open>
  The shell (\<open>sh.c\<close>): its parser, which keeps pointers into the line and ends the words in place when it is done,
  and \<open>runcmd\<close>, as the tree of system calls a command makes. Pointers into the line are positions in the buffer.
  The parser's routines that call each other carry fuel; Shell_Props shows that it never runs out. Running out of
  memory is not modelled: the constructors do not test the result of \<open>malloc\<close>.
\<close>

section \<open>Commands\<close>

definition MAXARGS :: nat where "MAXARGS = 10"

text \<open>A string is the pair \<open>argv[i]\<close>, \<open>eargv[i]\<close>, or \<open>file\<close>, \<open>efile\<close>: the parser's commands are of type \<open>pcmd\<close>.\<close>

datatype 'a cmd =
  ExecC "'a list"
| RedirC "'a cmd" 'a u32 nat
| PipeC "'a cmd" "'a cmd"
| ListC "'a cmd" "'a cmd"
| BackC "'a cmd"

type_synonym pcmd = "(nat \<times> nat) cmd"

text \<open>\<open>parseexec\<close> adds arguments to the command it has made while redirections are put around it.\<close>

fun push_arg :: "'a cmd \<Rightarrow> 'a \<Rightarrow> 'a cmd" where
  "push_arg (ExecC as) a = ExecC (as @ [a])"
| "push_arg (RedirC c f m d) a = RedirC (push_arg c a) f m d"
| "push_arg c a = c"

section \<open>Tokens\<close>

definition whitespace :: "u8 list" where "whitespace = [32, 9, 13, 10, 11]"

definition symbols :: "u8 list" where "symbols = str ''<|>&;()''"

definition chr_at :: "u8 list \<Rightarrow> nat \<Rightarrow> u8" where
  "chr_at b s = (if s < length b then b ! s else 0)"

function scan :: "(u8 \<Rightarrow> bool) \<Rightarrow> u8 list \<Rightarrow> nat \<Rightarrow> nat \<Rightarrow> nat" where
  "scan P b es s = (if s < es \<and> P (chr_at b s) then scan P b es (s + 1) else s)"
  by pat_completeness auto
termination
  by (relation "measure (\<lambda>(P, b, es, s). es - s)") auto

declare scan.simps [simp del]

definition skip_white :: "u8 list \<Rightarrow> nat \<Rightarrow> nat \<Rightarrow> nat" where
  "skip_white b es s = scan (\<lambda>c. strchr whitespace c \<noteq> None) b es s"

text \<open>\<open>gettoken\<close> gives the kind of token, its first position, the one after it and the new \<open>*ps\<close>.\<close>

definition gettoken :: "u8 list \<Rightarrow> nat \<Rightarrow> nat \<Rightarrow> u8 \<times> nat \<times> nat \<times> nat" where
  "gettoken b es s =
     (let q = skip_white b es s; c = chr_at b q in
      if c = 0 then (0, q, q, skip_white b es q)
      else if c \<in> set (str ''|();&<'') then (c, q, q + 1, skip_white b es (q + 1))
      else if c = of_char CHR ''>'' then
        (if chr_at b (q + 1) = of_char CHR ''>'' then (of_char CHR ''+'', q, q + 2, skip_white b es (q + 2))
         else (c, q, q + 1, skip_white b es (q + 1)))
      else
        (let e = scan (\<lambda>c. strchr whitespace c = None \<and> strchr symbols c = None) b es q
         in (of_char CHR ''a'', q, e, skip_white b es e)))"

definition peek :: "u8 list \<Rightarrow> nat \<Rightarrow> nat \<Rightarrow> u8 list \<Rightarrow> bool \<times> nat" where
  "peek b es s toks =
     (let q = skip_white b es s in (chr_at b q \<noteq> 0 \<and> strchr toks (chr_at b q) \<noteq> None, q))"

lemma strchr_None [simp]: "strchr xs c = None \<longleftrightarrow> c \<notin> set xs"
  by (induction xs) auto

lemma scan_ge: "s \<le> scan P b es s"
  by (induction P b es s rule: scan.induct) (subst scan.simps, auto)

lemma skip_white_ge: "s \<le> skip_white b es s"
  by (simp add: skip_white_def scan_ge)

lemma peek_ge: "peek b es s toks = (p, s') \<Longrightarrow> s \<le> s' \<and> (p \<longrightarrow> s' < length b)"
  using skip_white_ge [of s b es] by (auto simp: peek_def Let_def chr_at_def split: if_splits)

lemma gettoken_ge: "gettoken b es s = (t, q, e, s') \<Longrightarrow> s \<le> q \<and> q \<le> e \<and> e \<le> s'"
proof -
  assume g: "gettoken b es s = (t, q, e, s')"
  have "s \<le> skip_white b es s" "x \<le> skip_white b es x" "x \<le> scan P b es x" for x P
    by (simp_all add: skip_white_ge scan_ge)
  then show ?thesis using g by (auto simp: gettoken_def Let_def split: if_splits)
qed

section \<open>Parsing\<close>

datatype perr = Syntax string | NoFuel

definition pbind :: "perr + 'a \<Rightarrow> ('a \<Rightarrow> perr + 'b) \<Rightarrow> perr + 'b" where
  "pbind r f = (case r of Inl e \<Rightarrow> Inl e | Inr x \<Rightarrow> f x)"

lemma pbind_simps [simp]: "pbind (Inl e) f = Inl e" "pbind (Inr x) f = f x"
  by (simp_all add: pbind_def)

definition redir :: "u8 \<Rightarrow> 'a cmd \<Rightarrow> 'a \<Rightarrow> 'a cmd" where
  "redir tok c f =
     (if tok = of_char CHR ''<'' then RedirC c f O_RDONLY 0
      else if tok = of_char CHR ''>'' then RedirC c f (O_WRONLY OR O_CREATE) 1
      else RedirC c f (O_WRONLY OR O_CREATE) 1)"

lemma peek_gettoken:
  assumes "peek b es s toks = (True, s')" and "gettoken b es s' = (t, q, e, s'')" and "set toks \<subseteq> set (str ''|();&<>'')"
  shows "s < s'' \<and> s' < s'' \<and> s' < length b"
proof -
  have c: "chr_at b s' \<noteq> 0" "chr_at b s' \<in> set toks" and s': "s' = skip_white b es s" "s' < length b"
    using assms(1) by (auto simp: peek_def Let_def chr_at_def split: if_splits)
  then have cc: "chr_at b s' \<in> set (str ''|();&<>'')" using assms(3) by auto
  have "strchr whitespace (chr_at b s') = None" using cc by (auto simp: whitespace_def str_def)
  then have "skip_white b es s' = s'" unfolding skip_white_def by (subst scan.simps) simp
  then have "s' + 1 \<le> e" using assms(2) c(1) cc by (auto simp: gettoken_def Let_def str_def split: if_splits)
  then show ?thesis using gettoken_ge [OF assms(2)] peek_ge [OF assms(1)] s' by auto
qed


lemma gettoken_le: "(t, q, e, s') = gettoken b es s \<Longrightarrow> s \<le> s'"
  using gettoken_ge [of b es s t q e s'] by simp

lemma consumed:
  assumes "(True, s1) = peek b es s toks" and "(t, q, e, s2) = gettoken b es s1" and "set toks \<subseteq> set (str ''|();&<>'')" and "s2 \<le> s3"
  shows "length b - s3 < length b - s"
  using peek_gettoken [of b es s toks s1 t q e s2] peek_ge [of b es s toks True s1] assms by (auto simp: diff_less_mono2)

function parseredirs :: "u8 list \<Rightarrow> nat \<Rightarrow> pcmd \<Rightarrow> nat \<Rightarrow> perr + pcmd \<times> nat" where
  "parseredirs b es c s =
     (case peek b es s (str ''<>'') of (p, s1) \<Rightarrow>
      if \<not> p then Inr (c, s1)
      else
        (case gettoken b es s1 of (tok, _, _, s2) \<Rightarrow>
         case gettoken b es s2 of (tok2, q, eq, s3) \<Rightarrow>
         if tok2 \<noteq> of_char CHR ''a'' then Inl (Syntax ''missing file for redirection'')
         else parseredirs b es (redir tok c (q, eq)) s3))"
  by pat_completeness auto
termination
  by (relation "measure (\<lambda>(b, es, c, s). length b - s)") (auto simp: str_def intro!: consumed dest: gettoken_le)

declare parseredirs.simps [simp del]

text \<open>The loop of \<open>parseexec\<close> over the arguments.\<close>

function parseargs :: "u8 list \<Rightarrow> nat \<Rightarrow> pcmd \<Rightarrow> nat \<Rightarrow> nat \<Rightarrow> perr + pcmd \<times> nat" where
  "parseargs b es c argc s =
     (case peek b es s (str ''|)&;'') of (p, s1) \<Rightarrow>
      if p then Inr (c, s1)
      else
        (case gettoken b es s1 of (tok, q, eq, s2) \<Rightarrow>
         if tok = 0 then Inr (c, s2)
         else if tok \<noteq> of_char CHR ''a'' then Inl (Syntax ''syntax'')
         else if argc + 1 \<ge> MAXARGS then Inl (Syntax ''too many args'')
         else pbind (parseredirs b es (push_arg c (q, eq)) s2) (\<lambda>(c, s3). parseargs b es c (argc + 1) s3)))"
  by pat_completeness auto
termination
  by (relation "measure (\<lambda>(b, es, c, argc, s). MAXARGS - argc)") auto

declare parseargs.simps [simp del]

function backs :: "u8 list \<Rightarrow> nat \<Rightarrow> pcmd \<Rightarrow> nat \<Rightarrow> pcmd \<times> nat" where
  "backs b es c s =
     (case peek b es s (str ''&'') of (p, s1) \<Rightarrow>
      if p then (case gettoken b es s1 of (_, _, _, s2) \<Rightarrow> backs b es (BackC c) s2) else (c, s1))"
  by pat_completeness auto
termination
  by (relation "measure (\<lambda>(b, es, c, s). length b - s)") (auto simp: str_def intro!: consumed)

declare backs.simps [simp del]

function (sequential) parseline :: "nat \<Rightarrow> u8 list \<Rightarrow> nat \<Rightarrow> nat \<Rightarrow> perr + pcmd \<times> nat"
  and parsepipe :: "nat \<Rightarrow> u8 list \<Rightarrow> nat \<Rightarrow> nat \<Rightarrow> perr + pcmd \<times> nat"
  and parseexec :: "nat \<Rightarrow> u8 list \<Rightarrow> nat \<Rightarrow> nat \<Rightarrow> perr + pcmd \<times> nat"
  and parseblock :: "nat \<Rightarrow> u8 list \<Rightarrow> nat \<Rightarrow> nat \<Rightarrow> perr + pcmd \<times> nat" where
  "parseline 0 b es s = Inl NoFuel"
| "parseline (Suc n) b es s =
     pbind (parsepipe n b es s) (\<lambda>(c, s1).
     case backs b es c s1 of (c, s2) \<Rightarrow>
     case peek b es s2 (str '';'') of (p, s3) \<Rightarrow>
     if p then
       (case gettoken b es s3 of (_, _, _, s4) \<Rightarrow>
        pbind (parseline n b es s4) (\<lambda>(d, s5). Inr (ListC c d, s5)))
     else Inr (c, s3))"
| "parsepipe 0 b es s = Inl NoFuel"
| "parsepipe (Suc n) b es s =
     pbind (parseexec n b es s) (\<lambda>(c, s1).
     case peek b es s1 (str ''|'') of (p, s2) \<Rightarrow>
     if p then
       (case gettoken b es s2 of (_, _, _, s3) \<Rightarrow>
        pbind (parsepipe n b es s3) (\<lambda>(d, s4). Inr (PipeC c d, s4)))
     else Inr (c, s2))"
| "parseexec 0 b es s = Inl NoFuel"
| "parseexec (Suc n) b es s =
     (case peek b es s (str ''('') of (p, s1) \<Rightarrow>
      if p then parseblock n b es s1
      else pbind (parseredirs b es (ExecC []) s1) (\<lambda>(c, s2). parseargs b es c 0 s2))"
| "parseblock 0 b es s = Inl NoFuel"
| "parseblock (Suc n) b es s =
     (case peek b es s (str ''('') of (p, s1) \<Rightarrow>
      if \<not> p then Inl (Syntax ''parseblock'')
      else
        (case gettoken b es s1 of (_, _, _, s2) \<Rightarrow>
         pbind (parseline n b es s2) (\<lambda>(c, s3).
         case peek b es s3 (str '')'') of (p, s4) \<Rightarrow>
         if \<not> p then Inl (Syntax ''syntax - missing )'')
         else (case gettoken b es s4 of (_, _, _, s5) \<Rightarrow> parseredirs b es c s5))))"
  by pat_completeness auto
termination
  by (relation "measure (\<lambda>x. case x of Inl (Inl (n, _)) \<Rightarrow> n | Inl (Inr (n, _)) \<Rightarrow> n | Inr (Inl (n, _)) \<Rightarrow> n | Inr (Inr (n, _)) \<Rightarrow> n)") simp_all

text \<open>\<open>nulterminate\<close> ends the words in the buffer.\<close>

fun nulterminate :: "pcmd \<Rightarrow> u8 list \<Rightarrow> u8 list" where
  "nulterminate (ExecC as) b = foldl (\<lambda>b (q, eq). b[eq := 0]) b as"
| "nulterminate (RedirC c f m d) b = (nulterminate c b)[snd f := 0]"
| "nulterminate (PipeC l r) b = nulterminate r (nulterminate l b)"
| "nulterminate (ListC l r) b = nulterminate r (nulterminate l b)"
| "nulterminate (BackC c) b = nulterminate c b"

definition buf_strlen :: "u8 list \<Rightarrow> nat" where
  "buf_strlen b = length (takeWhile (\<lambda>c. c \<noteq> 0) b)"

definition parsecmd :: "u8 list \<Rightarrow> perr + pcmd \<times> u8 list" where
  "parsecmd b =
     (let es = buf_strlen b in
      pbind (parseline (4 * length b + 4) b es 0) (\<lambda>(c, s).
      case peek b es s [] of (_, s') \<Rightarrow>
      if s' \<noteq> es then Inl (Syntax ''syntax'')
      else Inr (c, nulterminate c b)))"

section \<open>Running a command\<close>

text \<open>
  The system calls of a process, each with what follows it; a call whose result matters has a continuation for
  every result. \<open>SFork\<close>'s continuation is both the child's, with 0, and the parent's.
\<close>

datatype sys =
  SExit
| SExec "u8 list" "u8 list list" sys
| SClose nat sys
| SOpen "u8 list" u32 "int \<Rightarrow> sys"
| SDup nat sys
| SPipe "(nat \<times> nat) option \<Rightarrow> sys"
| SFork "int \<Rightarrow> sys"
| SWait sys
| SWrite nat "u8 list" sys

definition sh_panic :: "string \<Rightarrow> sys" where
  "sh_panic s = SWrite 2 (str s @ [10]) SExit"

definition fork1 :: "(int \<Rightarrow> sys) \<Rightarrow> sys" where
  "fork1 k = SFork (\<lambda>pid. if pid = - 1 then sh_panic ''fork'' else k pid)"

definition cstr_at :: "u8 list \<Rightarrow> nat \<Rightarrow> u8 list" where
  "cstr_at b q = takeWhile (\<lambda>c. c \<noteq> 0) (drop q b)"

primrec runcmd :: "u8 list \<Rightarrow> pcmd \<Rightarrow> sys" where
  "runcmd b (ExecC as) =
     (if as = [] then SExit
      else SExec (cstr_at b (fst (hd as))) (map (\<lambda>a. cstr_at b (fst a)) as)
             (SWrite 2 (str ''exec '' @ cstr_at b (fst (hd as)) @ str '' failed'' @ [10]) SExit))"
| "runcmd b (RedirC c f m d) =
     SClose d (SOpen (cstr_at b (fst f)) m (\<lambda>r.
       if r < 0 then SWrite 2 (str ''open '' @ cstr_at b (fst f) @ str '' failed'' @ [10]) SExit
       else runcmd b c))"
| "runcmd b (ListC l r) = fork1 (\<lambda>pid. if pid = 0 then runcmd b l else SWait (runcmd b r))"
| "runcmd b (PipeC l r) =
     SPipe (\<lambda>p. case p of
       None \<Rightarrow> sh_panic ''pipe''
     | Some (p0, p1) \<Rightarrow>
         fork1 (\<lambda>pid. if pid = 0 then SClose 1 (SDup p1 (SClose p0 (SClose p1 (runcmd b l))))
           else fork1 (\<lambda>pid. if pid = 0 then SClose 0 (SDup p0 (SClose p0 (SClose p1 (runcmd b r))))
             else SClose p0 (SClose p1 (SWait (SWait SExit))))))"
| "runcmd b (BackC c) = fork1 (\<lambda>pid. if pid = 0 then runcmd b c else SExit)"

section \<open>The main loop\<close>

text \<open>\<open>getcmd\<close> on the bytes standard input delivers: the buffer filled with zeros, the line in it, and what is left.\<close>

definition getcmd :: "int \<Rightarrow> u8 list \<Rightarrow> u8 list \<times> u8 list \<times> int" where
  "getcmd nbuf inp =
     (case ulib_gets nbuf inp of (line, rest) \<Rightarrow>
      let b = line @ replicate (nat nbuf - length line) 0
      in (b, rest, if chr_at b 0 = 0 then - 1 else 0))"

text \<open>What the shell does with a line: change its own directory, or run a command in a child and wait.\<close>

datatype line_action = Chdir "u8 list" | Run "perr + pcmd \<times> u8 list"

definition do_line :: "u8 list \<Rightarrow> line_action" where
  "do_line b =
     (if chr_at b 0 = of_char CHR ''c'' \<and> chr_at b 1 = of_char CHR ''d'' \<and> chr_at b 2 = 32
      then Chdir (cstr_at (b[buf_strlen b - 1 := 0]) 3)
      else Run (parsecmd b))"

lemma gets_loop_length: "gets_loop k buf inp = (line, rest) \<Longrightarrow> length line + length rest = length buf + length inp"
  by (induction k buf inp rule: gets_loop.induct) (auto split: if_splits)

lemma getcmd_shorter: "getcmd n inp = (b, rest, r) \<Longrightarrow> 0 \<le> r \<Longrightarrow> length rest < length inp"
proof -
  assume g: "getcmd n inp = (b, rest, r)" "0 \<le> r"
  obtain line r' where u: "ulib_gets n inp = (line, r')" by (cases "ulib_gets n inp")
  have "line \<noteq> []" using g by (auto simp: getcmd_def u Let_def chr_at_def split: if_splits)
  then show ?thesis
    using g gets_loop_length [of "nat (n - 1)" "[]" inp line r'] u by (cases line) (auto simp: getcmd_def ulib_gets_def Let_def)
qed

function sh_main :: "u8 list \<Rightarrow> line_action list" where
  "sh_main inp =
     (case getcmd 100 inp of (b, rest, r) \<Rightarrow>
      if r \<ge> 0 then do_line b # sh_main rest else [])"
  by pat_completeness auto
termination
  by (relation "measure length") (auto dest: getcmd_shorter [OF sym])

end
