(* ===== verification/Shell_Props.thy ===== *)
theory Shell_Props
  imports Shell
begin

text \<open>
  The shell's parser always ends and reads back what a printer of commands prints; \<open>runcmd\<close> connects the processes
  of a command as its syntax tree says.
\<close>

section \<open>The parser ends\<close>

text \<open>A routine started at \<open>s\<close> does not run out of fuel when \<open>P\<close> holds, and does not go back.\<close>

definition ends :: "bool \<Rightarrow> nat \<Rightarrow> perr + 'a \<times> nat \<Rightarrow> bool" where
  "ends P s r \<longleftrightarrow> (P \<longrightarrow> r \<noteq> Inl NoFuel) \<and> (\<forall>d s'. r = Inr (d, s') \<longrightarrow> s \<le> s')"

lemma ends_simps [simp]:
  "ends P s (Inr (d, s')) \<longleftrightarrow> s \<le> s'" "ends P s (Inl (Syntax m))" "ends P s (Inl NoFuel) \<longleftrightarrow> \<not> P"
  by (auto simp: ends_def)

lemma ends_bind:
  "ends P s r \<Longrightarrow> (\<And>d s'. r = Inr (d, s') \<Longrightarrow> s \<le> s' \<Longrightarrow> ends P s (f (d, s'))) \<Longrightarrow> ends P s (pbind r f)"
  by (cases r) (auto simp: ends_def)

lemma ends_weaken: "ends P s' r \<Longrightarrow> s \<le> s' \<Longrightarrow> (Q \<Longrightarrow> P) \<Longrightarrow> ends Q s r"
  by (force simp: ends_def)

lemma ends_from: "ends P s' r \<Longrightarrow> s \<le> s' \<Longrightarrow> ends P s r"
  by (rule ends_weaken)

lemma parseredirs_ends: "ends P s (parseredirs b es c s)"
proof (induction b es c s rule: parseredirs.induct)
  case (1 b es c s)
  obtain p s1 where p: "peek b es s (str ''<>'') = (p, s1)" by force
  obtain t q1 e1 s2 where g: "gettoken b es s1 = (t, q1, e1, s2)" by (metis prod_cases4)
  obtain t2 q e s3 where h: "gettoken b es s2 = (t2, q, e, s3)" by (metis prod_cases4)
  have le: "s \<le> s1" "s \<le> s3" using peek_ge [OF p] gettoken_le [OF g [symmetric]] gettoken_le [OF h [symmetric]] by simp_all
  show ?case unfolding parseredirs.simps [of b es c s] p g h prod.case
    using "1.IH" [OF p [symmetric] _ g [symmetric] refl refl h [symmetric] refl refl] le by (auto intro: ends_from)
qed

lemma backs_ge: "backs b es c s = (d, s') \<Longrightarrow> s \<le> s'"
proof (induction b es c s rule: backs.induct)
  case (1 b es c s)
  obtain p s1 where p: "peek b es s (str ''&'') = (p, s1)" by force
  obtain t q e s2 where g: "gettoken b es s1 = (t, q, e, s2)" by (metis prod_cases4)
  have le: "s \<le> s1" "s1 \<le> s2" using peek_ge [OF p] gettoken_le [OF g [symmetric]] by simp_all
  show ?case using "1.IH" [OF p [symmetric] _ g [symmetric] refl refl] "1.prems" le
    unfolding backs.simps [of b es c s] p g prod.case by (auto split: if_splits)
qed

lemma parseargs_ends: "ends P s (parseargs b es c n s)"
proof (induction b es c n s rule: parseargs.induct)
  case (1 b es c n s)
  obtain p s1 where p: "peek b es s (str ''|)&;'') = (p, s1)" by force
  obtain t q e s2 where g: "gettoken b es s1 = (t, q, e, s2)" by (metis prod_cases4)
  have le: "s \<le> s1" "s1 \<le> s2" using peek_ge [OF p] gettoken_le [OF g [symmetric]] by simp_all
  have "ends P s (pbind (parseredirs b es (push_arg c (q, e)) s2) (\<lambda>(c, s3). parseargs b es c (n + 1) s3))"
    if "\<not> p" "t \<noteq> 0" "t = of_char CHR ''a''" "\<not> MAXARGS \<le> n + 1"
  proof (rule ends_bind)
    show "ends P s (parseredirs b es (push_arg c (q, e)) s2)" by (rule ends_weaken [OF parseredirs_ends]) (use le in auto)
    fix d s' assume "parseredirs b es (push_arg c (q, e)) s2 = Inr (d, s')" "s \<le> s'"
    then show "ends P s ((\<lambda>(c, s3). parseargs b es c (n + 1) s3) (d, s'))"
      using "1.IH" [OF p [symmetric] that(1) g [symmetric] refl refl] that by (auto intro: ends_from)
  qed
  then show ?case unfolding parseargs.simps [of b es c n s] p g prod.case using le by auto
qed

text \<open>Every cycle through the four routines reads a token.\<close>

lemma ends_after_token:
  assumes p: "peek b es s1 toks = (True, s2)" and g: "gettoken b es s2 = (t, q, e, s3)" and toks: "set toks \<subseteq> set (str ''|();&<>'')"
    and s: "s \<le> s1" and r: "ends (4 * (length b - s3) + 4 \<le> n) s3 r" and j: "1 \<le> j"
  shows "ends (4 * (length b - s) + j \<le> Suc n) s r"
  by (rule ends_weaken [OF r]) (use peek_gettoken [OF p g toks] peek_ge [OF p] s j in auto)

lemma parseline_ends:
  assumes "ends (4 * (length b - s) + 3 \<le> n) s (parsepipe n b es s)" and rec: "\<And>s. ends (4 * (length b - s) + 4 \<le> n) s (parseline n b es s)"
  shows "ends (4 * (length b - s) + 4 \<le> Suc n) s (parseline (Suc n) b es s)"
  unfolding parseline.simps
proof (rule ends_bind)
  show "ends (4 * (length b - s) + 4 \<le> Suc n) s (parsepipe n b es s)" by (rule ends_weaken [OF assms(1)]) auto
  fix c s1 assume s1: "s \<le> s1"
  obtain d s2 where b: "backs b es c s1 = (d, s2)" by force
  obtain p s3 where p: "peek b es s2 (str '';'') = (p, s3)" by force
  obtain t q e s4 where g: "gettoken b es s3 = (t, q, e, s4)" by (metis prod_cases4)
  have le: "s \<le> s2" "s \<le> s3" using s1 backs_ge [OF b] peek_ge [OF p] by auto
  have "ends (4 * (length b - s) + 4 \<le> Suc n) s (pbind (parseline n b es s4) (\<lambda>(e, s5). Inr (ListC d e, s5)))" if p
    by (rule ends_bind, rule ends_after_token [OF p [unfolded that [THEN eqTrueI]] g _ le(1) rec]) (auto simp: str_def)
  then show "ends (4 * (length b - s) + 4 \<le> Suc n) s (case (c, s1) of (c, s1) \<Rightarrow> case backs b es c s1 of (c, s2) \<Rightarrow> case peek b es s2 (str '';'') of (p, s3) \<Rightarrow>
      if p then (case gettoken b es s3 of (_, _, _, s4) \<Rightarrow> pbind (parseline n b es s4) (\<lambda>(d, s5). Inr (ListC c d, s5))) else Inr (c, s3))"
    unfolding prod.case b p g using le by auto
qed

lemma parsepipe_ends:
  assumes "ends (4 * (length b - s) + 2 \<le> n) s (parseexec n b es s)" and rec: "\<And>s. ends (4 * (length b - s) + 3 \<le> n) s (parsepipe n b es s)"
  shows "ends (4 * (length b - s) + 3 \<le> Suc n) s (parsepipe (Suc n) b es s)"
  unfolding parsepipe.simps
proof (rule ends_bind)
  show "ends (4 * (length b - s) + 3 \<le> Suc n) s (parseexec n b es s)" by (rule ends_weaken [OF assms(1)]) auto
  fix c s1 assume s1: "s \<le> s1"
  obtain p s2 where p: "peek b es s1 (str ''|'') = (p, s2)" by force
  obtain t q e s3 where g: "gettoken b es s2 = (t, q, e, s3)" by (metis prod_cases4)
  have le: "s \<le> s2" using s1 peek_ge [OF p] by auto
  have "ends (4 * (length b - s3) + 4 \<le> n) s3 (parsepipe n b es s3)" by (rule ends_weaken [OF rec]) auto
  then have "ends (4 * (length b - s) + 3 \<le> Suc n) s (pbind (parsepipe n b es s3) (\<lambda>(d, s4). Inr (PipeC c d, s4)))" if p
    by (intro ends_bind ends_after_token [OF p [unfolded that [THEN eqTrueI]] g _ s1]) (auto simp: str_def)
  then show "ends (4 * (length b - s) + 3 \<le> Suc n) s (case (c, s1) of (c, s1) \<Rightarrow> case peek b es s1 (str ''|'') of (p, s2) \<Rightarrow>
      if p then (case gettoken b es s2 of (_, _, _, s3) \<Rightarrow> pbind (parsepipe n b es s3) (\<lambda>(d, s4). Inr (PipeC c d, s4))) else Inr (c, s2))"
    unfolding prod.case p g using le by auto
qed

lemma parseexec_ends:
  assumes rec: "\<And>s. ends (4 * (length b - s) + 1 \<le> n) s (parseblock n b es s)"
  shows "ends (4 * (length b - s) + 2 \<le> Suc n) s (parseexec (Suc n) b es s)"
proof -
  obtain p s1 where p: "peek b es s (str ''('') = (p, s1)" by force
  have le: "s \<le> s1" using peek_ge [OF p] by simp
  have "ends (4 * (length b - s) + 2 \<le> Suc n) s (parseblock n b es s1)" by (rule ends_weaken [OF rec]) (use le in auto)
  moreover have "ends P s (pbind (parseredirs b es (ExecC []) s1) (\<lambda>(c, s2). parseargs b es c 0 s2))" for P
    using ends_from [OF parseredirs_ends [of P s1 b es "ExecC []"] le] by (rule ends_bind) (auto intro: ends_from [OF parseargs_ends])
  ultimately show ?thesis unfolding parseexec.simps p prod.case by simp
qed

lemma parseblock_ends:
  assumes rec: "\<And>s. ends (4 * (length b - s) + 4 \<le> n) s (parseline n b es s)"
  shows "ends (4 * (length b - s) + 1 \<le> Suc n) s (parseblock (Suc n) b es s)"
proof -
  obtain p s1 where p: "peek b es s (str ''('') = (p, s1)" by force
  obtain t q e s2 where g: "gettoken b es s1 = (t, q, e, s2)" by (metis prod_cases4)
  let ?k = "\<lambda>(c, s3). case peek b es s3 (str '')'') of (p, s4) \<Rightarrow> if \<not> p then Inl (Syntax ''syntax - missing )'')
    else (case gettoken b es s4 of (_, _, _, s5) \<Rightarrow> parseredirs b es c s5)"
  have "ends (4 * (length b - s) + 1 \<le> Suc n) s (pbind (parseline n b es s2) ?k)" if p
  proof (rule ends_bind)
    show "ends (4 * (length b - s) + 1 \<le> Suc n) s (parseline n b es s2)"
      by (rule ends_after_token [OF p [unfolded that [THEN eqTrueI]] g _ le_refl rec]) (auto simp: str_def)
    fix c s3 assume le: "s \<le> s3"
    obtain p' s4 where p': "peek b es s3 (str '')'') = (p', s4)" by force
    obtain t' q' e' s5 where g': "gettoken b es s4 = (t', q', e', s5)" by (metis prod_cases4)
    have "s \<le> s5" using le peek_ge [OF p'] gettoken_le [OF g' [symmetric]] by simp
    then show "ends (4 * (length b - s) + 1 \<le> Suc n) s (?k (c, s3))"
      unfolding prod.case p' g' by (auto intro: ends_from [OF parseredirs_ends])
  qed
  then show ?thesis unfolding parseblock.simps p g prod.case by simp
qed

lemma parse_ends:
  "ends (4 * (length b - s) + 4 \<le> n) s (parseline n b es s)" "ends (4 * (length b - s) + 3 \<le> n) s (parsepipe n b es s)"
  "ends (4 * (length b - s) + 2 \<le> n) s (parseexec n b es s)" "ends (4 * (length b - s) + 1 \<le> n) s (parseblock n b es s)"
proof (induction n arbitrary: s)
  case (Suc n)
  { case 1 show ?case by (rule parseline_ends [OF Suc(2,1)]) }
  { case 2 show ?case by (rule parsepipe_ends [OF Suc(3,2)]) }
  { case 3 show ?case by (rule parseexec_ends [OF Suc(4)]) }
  { case 4 show ?case by (rule parseblock_ends [OF Suc(1)]) }
qed simp_all

text \<open>
  C16. The parser ends on every line: \<open>parsecmd\<close> gives a command or one of the shell's syntax errors; the fuel of four
  calls for each byte of the line is never used up.
\<close>

theorem parsecmd_ends: "parsecmd b \<noteq> Inl NoFuel"
proof -
  have "ends True 0 (parseline (4 * length b + 4) b (buf_strlen b) 0)" by (rule ends_weaken [OF parse_ends(1)]) auto
  then show ?thesis
    by (cases "parseline (4 * length b + 4) b (buf_strlen b) 0") (auto simp: parsecmd_def ends_def Let_def split: prod.splits)
qed


section \<open>Reading back a printed command\<close>

datatype tok = Word "u8 list" | Sym u8

definition word_char :: "u8 \<Rightarrow> bool" where
  "word_char c \<longleftrightarrow> c \<noteq> 0 \<and> c \<notin> set whitespace \<and> c \<notin> set symbols"

fun tok_ok :: "tok \<Rightarrow> bool" where
  "tok_ok (Word w) \<longleftrightarrow> w \<noteq> [] \<and> (\<forall>c \<in> set w. word_char c)"
| "tok_ok (Sym c) \<longleftrightarrow> c \<in> set symbols"

fun tok_text :: "tok \<Rightarrow> u8 list" where
  "tok_text (Word w) = w @ [32]"
| "tok_text (Sym c) = [c, 32]"

text \<open>At position \<open>s\<close> of the buffer the tokens \<open>ts\<close> are left, up to the end of the line.\<close>

definition left :: "u8 list \<Rightarrow> nat \<Rightarrow> nat \<Rightarrow> tok list \<Rightarrow> bool" where
  "left b es s ts \<longleftrightarrow> (\<forall>t \<in> set ts. tok_ok t) \<and> es = s + length (concat (map tok_text ts))
     \<and> (\<exists>z. drop s b = concat (map tok_text ts) @ 0 # z)"

lemma left_char:
  assumes "left b es s ts" and "k \<le> length (concat (map tok_text ts))"
  shows "chr_at b (s + k) = (concat (map tok_text ts) @ [0]) ! k"
proof -
  obtain z where z: "drop s b = concat (map tok_text ts) @ 0 # z" using assms(1) by (auto simp: left_def)
  have "s + k < length b" using arg_cong [OF z, of length] assms(2) by simp
  moreover have "b ! (s + k) = drop s b ! k" using \<open>s + k < length b\<close> by simp
  ultimately show ?thesis unfolding chr_at_def z using assms(2) by (simp add: nth_append)
qed

lemma left_step: "left b es s (t # ts) \<Longrightarrow> left b es (s + length (tok_text t)) ts"
  by (auto simp: left_def add.commute [of s] drop_drop [symmetric] simp del: drop_drop)

lemma skip_white_stay: "\<not> chr_at b s \<in> set whitespace \<Longrightarrow> skip_white b es s = s"
  unfolding skip_white_def by (subst scan.simps) simp

lemma skip_white_space: "chr_at b s = 32 \<Longrightarrow> s < es \<Longrightarrow> \<not> chr_at b (s + 1) \<in> set whitespace \<Longrightarrow> skip_white b es s = s + 1"
  unfolding skip_white_def by (subst scan.simps) (simp add: whitespace_def, subst scan.simps, simp)

lemma symbols_white: "c \<in> set symbols \<Longrightarrow> c \<notin> set whitespace \<and> c \<noteq> 0"
  by (auto simp: symbols_def whitespace_def)

lemma left_first:
  assumes l: "left b es s ts"
  shows "chr_at b s = (case ts of [] \<Rightarrow> 0 | Word w # _ \<Rightarrow> hd w | Sym c # _ \<Rightarrow> c)" "chr_at b s \<notin> set whitespace"
proof -
  have ok: "\<forall>t \<in> set ts. tok_ok t" using l by (simp add: left_def)
  show f: "chr_at b s = (case ts of [] \<Rightarrow> 0 | Word w # _ \<Rightarrow> hd w | Sym c # _ \<Rightarrow> c)"
    using left_char [OF l, of 0] ok by (auto simp: nth_append hd_conv_nth split: list.splits tok.splits)
  show "chr_at b s \<notin> set whitespace"
    unfolding f using ok by (auto simp: whitespace_def word_char_def symbols_def split: list.splits tok.splits)
qed

lemma left_peek:
  assumes l: "left b es s ts" and "set toks \<subseteq> set symbols"
  shows "peek b es s toks = ((case ts of Sym c # _ \<Rightarrow> c \<in> set toks | _ \<Rightarrow> False), s)"
proof -
  have ok: "\<forall>t \<in> set ts. tok_ok t" using l by (simp add: left_def)
  show ?thesis unfolding peek_def skip_white_stay [OF left_first(2) [OF l]] left_first(1) [OF l] Let_def
    using ok assms(2) symbols_white by (auto simp: word_char_def subset_eq split: list.splits tok.splits)
qed

lemma left_skip:
  assumes l: "left b es s (t # ts)"
  shows "skip_white b es (s + length (tok_text t) - 1) = s + length (tok_text t)"
proof -
  let ?e = "s + length (tok_text t) - 1"
  have p: "0 < length (tok_text t)" by (cases t) auto
  have "chr_at b ?e = 32" using left_char [OF l, of "length (tok_text t) - 1"] p
    by (cases t) (auto simp: nth_append)
  moreover have "?e < es" using l p by (cases t) (auto simp: left_def)
  ultimately show ?thesis using skip_white_space [of b ?e es] left_first(2) [OF left_step [OF l]] p by simp
qed


lemma scan_run:
  assumes "\<And>j. j < k \<Longrightarrow> P (chr_at b (s + j))" and "s + k \<le> es" and "\<not> P (chr_at b (s + k))"
  shows "scan P b es s = s + k"
  using assms
proof (induction k arbitrary: s)
  case 0
  then show ?case by (subst scan.simps) simp
next
  case (Suc k)
  have "scan P b es (s + 1) = (s + 1) + k"
    using Suc.prems(1) [of "Suc _"] Suc.prems(2,3) by (intro Suc.IH) simp_all
  then show ?case using Suc.prems(1) [of 0] Suc.prems(2) by (subst scan.simps) simp
qed

text \<open>A pair of positions of the parser stands for the word between them.\<close>

definition reads_word :: "u8 list \<Rightarrow> nat \<times> nat \<Rightarrow> u8 list \<Rightarrow> bool" where
  "reads_word b p w \<longleftrightarrow> snd p = fst p + length w \<and> snd p < length b \<and> (\<forall>k < length w. b ! (fst p + k) = w ! k)
     \<and> (\<forall>c \<in> set w. word_char c) \<and> \<not> word_char (b ! snd p)"

lemma left_sym:
  assumes l: "left b es s (Sym c # ts)"
  shows "\<exists>e. gettoken b es s = (c, s, e, s + 2)" "left b es (s + 2) ts"
proof -
  have c: "c \<in> set symbols" using l by (simp add: left_def)
  show "left b es (s + 2) ts" using left_step [OF l] by simp
  have s1: "chr_at b (s + 1) = 32" using left_char [OF l, of 1] by simp
  have sk: "skip_white b es (s + 1) = s + 2" using left_skip [OF l] by simp
  show "\<exists>e. gettoken b es s = (c, s, e, s + 2)"
    unfolding gettoken_def skip_white_stay [OF left_first(2) [OF l]] left_first(1) [OF l] Let_def
    using c s1 sk by (auto simp: symbols_def)
qed

lemma left_word:
  assumes l: "left b es s (Word w # ts)"
  shows "gettoken b es s = (of_char CHR ''a'', s, s + length w, s + length w + 1)" "left b es (s + length w + 1) ts"
    "reads_word b (s, s + length w) w"
proof -
  have w: "w \<noteq> []" "\<forall>c \<in> set w. word_char c" using l by (simp_all add: left_def)
  show "left b es (s + length w + 1) ts" using left_step [OF l] by simp
  have ch: "chr_at b (s + k) = w ! k" if "k < length w" for k using left_char [OF l, of k] that by (simp add: nth_append)
  have e: "chr_at b (s + length w) = 32" using left_char [OF l, of "length w"] by (simp add: nth_append)
  have es: "s + length w \<le> es" using l by (simp add: left_def)
  have sc: "scan (\<lambda>c. strchr whitespace c = None \<and> strchr symbols c = None) b es s = s + length w"
    by (rule scan_run) (use ch e es w in \<open>auto simp: word_char_def whitespace_def\<close>)
  have sk: "skip_white b es (s + length w) = s + length w + 1" using left_skip [OF l] by simp
  have h: "hd w \<noteq> 0" "hd w \<notin> set symbols" using w by (auto simp: word_char_def)
  have h': "hd w \<notin> set (str ''|();&<'')" "hd w \<noteq> of_char CHR ''>''" using h(2) by (auto simp: symbols_def)
  show "gettoken b es s = (of_char CHR ''a'', s, s + length w, s + length w + 1)"
    unfolding gettoken_def skip_white_stay [OF left_first(2) [OF l]] left_first(1) [OF l] Let_def
    using h(1) h' sc sk by simp
  have "s + length w < length b" using e by (auto simp: chr_at_def split: if_splits)
  moreover have "b ! (s + k) = w ! k" if "k < length w" for k using ch [OF that] w(2) that by (auto simp: chr_at_def word_char_def split: if_splits)
  ultimately show "reads_word b (s, s + length w) w"
    using w(2) e by (simp add: reads_word_def chr_at_def word_char_def whitespace_def split: if_splits)
qed

lemma left_end: "left b es s [] \<Longrightarrow> gettoken b es s = (0, s, s, s)" "left b es s [] \<Longrightarrow> s = es"
  using left_first [of b es s "[]"] skip_white_stay [of b s es] by (simp_all add: gettoken_def Let_def left_def)

text \<open>How a command is printed; \<open>l\<close> says how tightly the context binds: in a block 0, before \<open>&\<close> or \<open>;\<close> 1, after \<open>|\<close> 2, else 3.\<close>

fun ptoks :: "nat \<Rightarrow> u8 list cmd \<Rightarrow> tok list" where
  "ptoks l (ExecC as) = map Word as"
| "ptoks l (RedirC c f m d) = ptoks 3 c @ [Sym (of_char (if d = 0 then CHR ''<'' else CHR ''>'')), Word f]"
| "ptoks l (PipeC c d) =
     (let ts = ptoks 3 c @ [Sym (of_char CHR ''|'')] @ ptoks 2 d
      in if l > 2 then Sym (of_char CHR ''('') # ts @ [Sym (of_char CHR '')'')] else ts)"
| "ptoks l (BackC c) =
     (let ts = ptoks 1 c @ [Sym (of_char CHR ''&'')]
      in if l > 1 then Sym (of_char CHR ''('') # ts @ [Sym (of_char CHR '')'')] else ts)"
| "ptoks l (ListC c d) =
     (let ts = ptoks 1 c @ [Sym (of_char CHR '';'')] @ ptoks 0 d
      in if l > 0 then Sym (of_char CHR ''('') # ts @ [Sym (of_char CHR '')'')] else ts)"

text \<open>Commands the shell can express: words of ordinary characters, at most nine of them, its two kinds of redirection.\<close>

fun cmd_ok :: "u8 list cmd \<Rightarrow> bool" where
  "cmd_ok (ExecC as) \<longleftrightarrow> length as < MAXARGS \<and> (\<forall>w \<in> set as. tok_ok (Word w))"
| "cmd_ok (RedirC c f m d) \<longleftrightarrow> cmd_ok c \<and> tok_ok (Word f) \<and> (d = 0 \<and> m = O_RDONLY \<or> d = 1 \<and> m = O_WRONLY OR O_CREATE)"
| "cmd_ok (PipeC c d) \<longleftrightarrow> cmd_ok c \<and> cmd_ok d"
| "cmd_ok (BackC c) \<longleftrightarrow> cmd_ok c"
| "cmd_ok (ListC c d) \<longleftrightarrow> cmd_ok c \<and> cmd_ok d"

lemma ptoks_ok: "cmd_ok c \<Longrightarrow> t \<in> set (ptoks l c) \<Longrightarrow> tok_ok t"
  by (induction l c rule: ptoks.induct) (auto simp: Let_def symbols_def split: if_splits)

definition rtoks :: "(u8 list \<times> u32 \<times> nat) list \<Rightarrow> tok list" where
  "rtoks rs = concat (map (\<lambda>(f, m, d). [Sym (of_char (if d = 0 then CHR ''<'' else CHR ''>'')), Word f]) rs)"

definition wrap :: "('a \<times> u32 \<times> nat) list \<Rightarrow> 'a cmd \<Rightarrow> 'a cmd" where
  "wrap rs c = foldl (\<lambda>c (f, m, d). RedirC c f m d) c rs"

definition redirs_ok :: "(u8 list \<times> u32 \<times> nat) list \<Rightarrow> bool" where
  "redirs_ok rs \<longleftrightarrow> (\<forall>(f, m, d) \<in> set rs. d = 0 \<and> m = O_RDONLY \<or> d = 1 \<and> m = O_WRONLY OR O_CREATE)"

lemma peel_redirs:
  "cmd_ok c \<Longrightarrow> \<exists>rs d. c = wrap rs d \<and> redirs_ok rs \<and> cmd_ok d \<and> ptoks 3 c = ptoks 3 d @ rtoks rs \<and> (\<forall>e f m n. d \<noteq> RedirC e f m n)"
proof (induction c)
  case (RedirC c f m d)
  then obtain rs e where "c = wrap rs e" "redirs_ok rs" "cmd_ok e" "ptoks 3 c = ptoks 3 e @ rtoks rs" "\<forall>e' f m n. e \<noteq> RedirC e' f m n" by auto
  then show ?case using RedirC.prems
    by (intro exI [where x = "rs @ [(f, m, d)]"] exI [where x = e]) (auto simp: wrap_def rtoks_def redirs_ok_def)
qed (force simp: wrap_def rtoks_def redirs_ok_def intro!: exI [where x = "[]"])+


text \<open>Up to fuel, a routine gives the command \<open>c\<close> and leaves the tokens \<open>ts\<close>.\<close>

definition gives :: "u8 list \<Rightarrow> nat \<Rightarrow> perr + pcmd \<times> nat \<Rightarrow> u8 list cmd \<Rightarrow> tok list \<Rightarrow> bool" where
  "gives b es r c ts \<longleftrightarrow> r = Inl NoFuel \<or> (\<exists>d s. r = Inr (d, s) \<and> rel_cmd (reads_word b) d c \<and> left b es s ts)"

lemma gives_Inr: "rel_cmd (reads_word b) d c \<Longrightarrow> left b es s ts \<Longrightarrow> gives b es (Inr (d, s)) c ts"
  by (auto simp: gives_def)

lemma gives_NoFuel [simp]: "gives b es (Inl NoFuel) c ts"
  by (simp add: gives_def)

lemma gives_bind:
  assumes "gives b es r c ts" and "\<And>d s. rel_cmd (reads_word b) d c \<Longrightarrow> left b es s ts \<Longrightarrow> gives b es (f (d, s)) c' ts'"
  shows "gives b es (pbind r f) c' ts'"
proof (cases "r = Inl NoFuel")
  case False
  then obtain d s where "r = Inr (d, s)" "rel_cmd (reads_word b) d c" "left b es s ts" using assms(1) by (auto simp: gives_def)
  then show ?thesis using assms(2) by simp
qed simp

definition follow :: "string \<Rightarrow> tok list \<Rightarrow> bool" where
  "follow cs ts \<longleftrightarrow> (case ts of [] \<Rightarrow> True | Sym c # _ \<Rightarrow> c \<in> set (str cs) | Word _ # _ \<Rightarrow> False)"

lemma symbol_sets:
  "set (str ''<>'') \<subseteq> set symbols" "set (str ''|)&;'') \<subseteq> set symbols" "set (str ''&'') \<subseteq> set symbols"
  "set (str '';'') \<subseteq> set symbols" "set (str ''|'') \<subseteq> set symbols" "set (str ''('') \<subseteq> set symbols" "set (str '')'') \<subseteq> set symbols"
  by (simp_all add: symbols_def)

lemma parseredirs_left:
  assumes "rel_cmd (reads_word b) d c" and "redirs_ok rs" and "left b es s (rtoks rs @ ts)" and "\<And>x us. ts = Sym x # us \<Longrightarrow> x \<notin> set (str ''<>'')"
  shows "gives b es (parseredirs b es d s) (wrap rs c) ts"
  using assms(1-3)
proof (induction rs arbitrary: c d s)
  case Nil
  then have l: "left b es s ts" by (simp add: rtoks_def)
  have "peek b es s (str ''<>'') = (False, s)"
    unfolding left_peek [OF l symbol_sets(1)] using assms(4) by (auto split: list.splits tok.splits)
  then show ?case using Nil.prems(1) l by (subst parseredirs.simps) (simp add: gives_Inr wrap_def del: str_simps)
next
  case (Cons r rs)
  obtain f m k where r: "r = (f, m, k)" by (cases r)
  let ?c = "of_char (if k = 0 then CHR ''<'' else CHR ''>'') :: u8"
  have l: "left b es s (Sym ?c # Word f # rtoks rs @ ts)" using Cons.prems(3) by (simp add: rtoks_def r)
  have p: "peek b es s (str ''<>'') = (True, s)" unfolding left_peek [OF l symbol_sets(1)] by simp
  obtain e where g: "gettoken b es s = (?c, s, e, s + 2)" using left_sym(1) [OF l] by auto
  note w = left_word [OF left_sym(2) [OF l]]
  have rd: "redir ?c d (s + 2, s + 2 + length f) = RedirC d (s + 2, s + 2 + length f) m k"
    using Cons.prems(2) by (auto simp: redir_def redirs_ok_def r)
  have "gives b es (parseredirs b es (RedirC d (s + 2, s + 2 + length f) m k) (s + 2 + length f + 1)) (wrap rs (RedirC c f m k)) ts"
    by (rule Cons.IH) (use Cons.prems w in \<open>auto simp: redirs_ok_def\<close>)
  then show ?case unfolding parseredirs.simps [of b es d s] p g w(1) prod.case rd by (simp add: wrap_def r)
qed

lemma parseargs_stop:
  assumes l: "left b es s ts" and "follow ''|)&;'' ts"
  shows "parseargs b es d n s = Inr (d, s)"
proof (cases ts)
  case Nil
  then have p: "peek b es s (str ''|)&;'') = (False, s)" and g: "gettoken b es s = (0, s, s, s)"
    using left_end(1) [of b es s] l left_peek [OF l symbol_sets(2)] by simp_all
  show ?thesis unfolding parseargs.simps [of b es d n s] p g prod.case by simp
next
  case (Cons t us)
  then show ?thesis using assms left_peek [OF l symbol_sets(2)]
    by (subst parseargs.simps) (auto simp: follow_def split: tok.splits simp del: str_simps)
qed

lemma parseargs_left:
  assumes f: "follow ''|)&;'' ts" and ok: "redirs_ok rs"
  shows "rel_cmd (reads_word b) d (ExecC pre) \<Longrightarrow> left b es s (map Word as @ rtoks rs @ ts) \<Longrightarrow> length pre + length as < MAXARGS \<Longrightarrow>
    as \<noteq> [] \<or> rs = [] \<Longrightarrow> gives b es (parseargs b es d (length pre) s) (wrap rs (ExecC (pre @ as))) ts"
proof (induction as arbitrary: d pre s)
  case Nil
  then have l: "left b es s ts" by (simp add: rtoks_def)
  show ?case unfolding parseargs_stop [OF l f] using Nil by (simp add: gives_Inr wrap_def l)
next
  case (Cons a as)
  obtain ps where d: "d = ExecC ps" "list_all2 (reads_word b) ps pre" using Cons.prems(1) by (cases d) auto
  have l: "left b es s (Word a # map Word as @ rtoks rs @ ts)" using Cons.prems(2) by simp
  note w = left_word [OF l]
  have p: "peek b es s (str ''|)&;'') = (False, s)" unfolding left_peek [OF l symbol_sets(2)] by simp
  let ?d = "push_arg d (s, s + length a)"
  have rel: "rel_cmd (reads_word b) ?d (ExecC (pre @ [a]))" using d w(3) by (simp add: list_all2_appendI)
  have "gives b es (pbind (parseredirs b es ?d (s + length a + 1)) (\<lambda>(c, s3). parseargs b es c (length pre + 1) s3)) (wrap rs (ExecC (pre @ a # as))) ts"
  proof (cases "as = []")
    case True
    have "gives b es (parseredirs b es ?d (s + length a + 1)) (wrap rs (ExecC (pre @ [a]))) ts"
      by (rule parseredirs_left [OF rel ok]) (use w(2) True f in \<open>auto simp: follow_def\<close>)
    then show ?thesis by (rule gives_bind) (use parseargs_stop [OF _ f] True in \<open>auto intro: gives_Inr\<close>)
  next
    case False
    then obtain x xs where x: "as = x # xs" by (cases as) auto
    have "gives b es (parseredirs b es ?d (s + length a + 1)) (wrap [] (ExecC (pre @ [a]))) (map Word as @ rtoks rs @ ts)"
      by (rule parseredirs_left [OF rel]) (use w(2) x in \<open>auto simp: redirs_ok_def rtoks_def\<close>)
    then show ?thesis
    proof (rule gives_bind)
      fix e u assume "rel_cmd (reads_word b) e (wrap [] (ExecC (pre @ [a])))" "left b es u (map Word as @ rtoks rs @ ts)"
      then show "gives b es ((\<lambda>(c, s3). parseargs b es c (length pre + 1) s3) (e, u)) (wrap rs (ExecC (pre @ a # as))) ts"
        using Cons.IH [of e "pre @ [a]" u] Cons.prems(3) False by (simp add: wrap_def)
    qed
  qed
  then show ?case unfolding parseargs.simps [of b es d "length pre" s] p w(1) prod.case using Cons.prems(3) by simp
qed

lemma backs_left:
  assumes "left b es s (replicate k (Sym (of_char CHR ''&'')) @ ts)" and "follow '';)'' ts"
  shows "\<exists>u. backs b es d s = ((BackC ^^ k) d, u) \<and> left b es u ts"
  using assms(1)
proof (induction k arbitrary: s d)
  case 0
  then have l: "left b es s ts" by simp
  have "peek b es s (str ''&'') = (False, s)"
    unfolding left_peek [OF l symbol_sets(3)] using assms(2) by (auto simp: follow_def split: list.splits tok.splits)
  then show ?case using l by (subst backs.simps) (simp del: str_simps)
next
  case (Suc k)
  have l: "left b es s (Sym (of_char CHR ''&'') # replicate k (Sym (of_char CHR ''&'')) @ ts)" using Suc.prems by simp
  have p: "peek b es s (str ''&'') = (True, s)" unfolding left_peek [OF l symbol_sets(3)] by simp
  obtain e where g: "gettoken b es s = (of_char CHR ''&'', s, e, s + 2)" using left_sym(1) [OF l] by auto
  show ?case unfolding backs.simps [of b es d s] p g prod.case
    using Suc.IH [OF left_sym(2) [OF l], of "BackC d"] by (simp add: funpow_swap1)
qed


lemma ptoks_levels:
  "(\<forall>e f. c \<noteq> PipeC e f) \<Longrightarrow> ptoks 2 c = ptoks 3 c" "(\<forall>e. c \<noteq> BackC e) \<Longrightarrow> ptoks 1 c = ptoks 2 c"
  "(\<forall>e f. c \<noteq> ListC e f) \<Longrightarrow> ptoks 0 c = ptoks 1 c"
  "(\<forall>as. c \<noteq> ExecC as) \<Longrightarrow> (\<forall>e f m n. c \<noteq> RedirC e f m n) \<Longrightarrow> ptoks 3 c = Sym (of_char CHR ''('') # ptoks 0 c @ [Sym (of_char CHR '')'')]"
  by (cases c; simp add: Let_def)+

lemma peel_backs: "cmd_ok c \<Longrightarrow> \<exists>k d. c = (BackC ^^ k) d \<and> cmd_ok d \<and> (\<forall>e. d \<noteq> BackC e) \<and> ptoks 1 c = ptoks 2 d @ replicate k (Sym (of_char CHR ''&''))"
proof (induction c)
  case (BackC c)
  then obtain k d where "c = (BackC ^^ k) d" "cmd_ok d" "\<forall>e. d \<noteq> BackC e" "ptoks 1 c = ptoks 2 d @ replicate k (Sym (of_char CHR ''&''))" by auto
  then show ?case by (intro exI [where x = "Suc k"] exI [where x = d]) (simp add: replicate_append_same)
qed (rule exI [where x = 0], force simp: ptoks_levels(2))+

lemma rel_backs: "rel_cmd R d c \<Longrightarrow> rel_cmd R ((BackC ^^ k) d) ((BackC ^^ k) c)"
  by (induction k) simp_all

lemma parseblock_gives:
  assumes rec: "\<And>c s ts. cmd_ok c \<Longrightarrow> left b es s (ptoks 0 c @ ts) \<Longrightarrow> follow '')'' ts \<Longrightarrow> gives b es (parseline n b es s) c ts"
    and "cmd_ok c" and "redirs_ok rs" and "follow ''|)&;'' ts"
    and l: "left b es s (Sym (of_char CHR ''('') # ptoks 0 c @ Sym (of_char CHR '')'') # rtoks rs @ ts)"
  shows "gives b es (parseblock (Suc n) b es s) (wrap rs c) ts"
proof -
  have p: "peek b es s (str ''('') = (True, s)" unfolding left_peek [OF l symbol_sets(6)] by simp
  obtain e where g: "gettoken b es s = (of_char CHR ''('', s, e, s + 2)" using left_sym(1) [OF l] by auto
  have "gives b es (parseline n b es (s + 2)) c (Sym (of_char CHR '')'') # rtoks rs @ ts)"
    by (rule rec [OF assms(2) left_sym(2) [OF l]]) (simp add: follow_def)
  then show ?thesis unfolding parseblock.simps p g prod.case if_not_P [OF not_not [THEN iffD2, OF TrueI]]
  proof (rule gives_bind)
    fix d u assume d: "rel_cmd (reads_word b) d c" and u: "left b es u (Sym (of_char CHR '')'') # rtoks rs @ ts)"
    have p': "peek b es u (str '')'') = (True, u)" unfolding left_peek [OF u symbol_sets(7)] by simp
    obtain e' where g': "gettoken b es u = (of_char CHR '')'', u, e', u + 2)" using left_sym(1) [OF u] by auto
    have "gives b es (parseredirs b es d (u + 2)) (wrap rs c) ts"
      by (rule parseredirs_left [OF d assms(3) left_sym(2) [OF u]]) (use assms(4) in \<open>auto simp: follow_def\<close>)
    then show "gives b es (case (d, u) of (c, s3) \<Rightarrow> case peek b es s3 (str '')'') of (p, s4) \<Rightarrow> if \<not> p then Inl (Syntax ''syntax - missing )'')
        else (case gettoken b es s4 of (_, _, _, s5) \<Rightarrow> parseredirs b es c s5)) (wrap rs c) ts"
      unfolding prod.case p' g' by simp
  qed
qed

lemma parseexec_gives:
  assumes rec: "\<And>c rs s ts. cmd_ok c \<Longrightarrow> redirs_ok rs \<Longrightarrow> follow ''|)&;'' ts \<Longrightarrow>
      left b es s (Sym (of_char CHR ''('') # ptoks 0 c @ Sym (of_char CHR '')'') # rtoks rs @ ts) \<Longrightarrow> gives b es (parseblock n b es s) (wrap rs c) ts"
    and "cmd_ok c" and l: "left b es s (ptoks 3 c @ ts)" and f: "follow ''|)&;'' ts"
  shows "gives b es (parseexec (Suc n) b es s) c ts"
proof -
  obtain rs d where c: "c = wrap rs d" "redirs_ok rs" "cmd_ok d" "ptoks 3 c = ptoks 3 d @ rtoks rs" "\<forall>e f m n. d \<noteq> RedirC e f m n"
    using peel_redirs [OF assms(2)] by blast
  show ?thesis
  proof (cases "\<exists>as. d = ExecC as")
    case False
    then have "left b es s (Sym (of_char CHR ''('') # ptoks 0 d @ Sym (of_char CHR '')'') # rtoks rs @ ts)"
      using l c(4) ptoks_levels(4) [of d] c(5) by simp
    note l' = this
    have p: "peek b es s (str ''('') = (True, s)" unfolding left_peek [OF l' symbol_sets(6)] by simp
    show ?thesis unfolding parseexec.simps p prod.case c(1) using rec [OF c(3,2) f l'] by simp
  next
    case True
    then obtain as where d: "d = ExecC as" by auto
    have l': "left b es s (map Word as @ rtoks rs @ ts)" using l c(4) d by simp
    have p: "peek b es s (str ''('') = (False, s)"
      unfolding left_peek [OF l' symbol_sets(6)] using f by (cases as; cases rs) (auto simp: rtoks_def follow_def split: list.splits tok.splits if_splits)
    let ?rs = "if as = [] then rs else []" and ?rest = "if as = [] then ts else map Word as @ rtoks rs @ ts"
    have rest: "x \<notin> set (str ''<>'')" if "?rest = Sym x # us" for x us using that f by (cases as) (auto simp: follow_def)
    have "gives b es (parseredirs b es (ExecC []) s) (wrap ?rs (ExecC [])) ?rest"
      by (rule parseredirs_left [OF _ _ _ rest]) (use c(2) l' in \<open>auto simp: redirs_ok_def rtoks_def\<close>)
    then have "gives b es (pbind (parseredirs b es (ExecC []) s) (\<lambda>(c, s2). parseargs b es c 0 s2)) (wrap rs (ExecC as)) ts"
    proof (rule gives_bind)
      fix e u assume e: "rel_cmd (reads_word b) e (wrap ?rs (ExecC []))" and u: "left b es u ?rest"
      show "gives b es (case (e, u) of (c, s2) \<Rightarrow> parseargs b es c 0 s2) (wrap rs (ExecC as)) ts"
      proof (cases "as = []")
        case True
        then show ?thesis using e u parseargs_stop [OF _ f, of b es u] by (simp add: gives_Inr)
      next
        case False
        then show ?thesis using e u parseargs_left [OF f c(2), of b e "[]" es u as] c(3) d by (simp add: wrap_def)
      qed
    qed
    then show ?thesis unfolding parseexec.simps p prod.case c(1) d by simp
  qed
qed

lemma parsepipe_gives:
  assumes exec: "\<And>c s ts. cmd_ok c \<Longrightarrow> left b es s (ptoks 3 c @ ts) \<Longrightarrow> follow ''|)&;'' ts \<Longrightarrow> gives b es (parseexec n b es s) c ts"
    and rec: "\<And>c s ts. cmd_ok c \<Longrightarrow> left b es s (ptoks 2 c @ ts) \<Longrightarrow> follow '')&;'' ts \<Longrightarrow> gives b es (parsepipe n b es s) c ts"
    and "cmd_ok c" and l: "left b es s (ptoks 2 c @ ts)" and f: "follow '')&;'' ts"
  shows "gives b es (parsepipe (Suc n) b es s) c ts"
proof (cases "\<exists>e f. c = PipeC e f")
  case True
  then obtain x y where c: "c = PipeC x y" by auto
  have "gives b es (parseexec n b es s) x (Sym (of_char CHR ''|'') # ptoks 2 y @ ts)"
    using assms(3) l c by (intro exec) (simp_all add: follow_def Let_def)
  then show ?thesis unfolding parsepipe.simps
  proof (rule gives_bind)
    fix d u assume d: "rel_cmd (reads_word b) d x" and u: "left b es u (Sym (of_char CHR ''|'') # ptoks 2 y @ ts)"
    have p: "peek b es u (str ''|'') = (True, u)" unfolding left_peek [OF u symbol_sets(5)] by simp
    obtain e where g: "gettoken b es u = (of_char CHR ''|'', u, e, u + 2)" using left_sym(1) [OF u] by auto
    have "gives b es (parsepipe n b es (u + 2)) y ts" using rec [OF _ left_sym(2) [OF u] f] assms(3) c by simp
    then have "gives b es (pbind (parsepipe n b es (u + 2)) (\<lambda>(e, s4). Inr (PipeC d e, s4))) c ts"
      by (rule gives_bind) (use d c in \<open>auto intro: gives_Inr\<close>)
    then show "gives b es (case (d, u) of (c, s1) \<Rightarrow> case peek b es s1 (str ''|'') of (p, s2) \<Rightarrow> if p
        then (case gettoken b es s2 of (_, _, _, s3) \<Rightarrow> pbind (parsepipe n b es s3) (\<lambda>(d, s4). Inr (PipeC c d, s4))) else Inr (c, s2)) c ts"
      unfolding prod.case p g by simp
  qed
next
  case False
  have "gives b es (parseexec n b es s) c ts"
    using assms(3) l f ptoks_levels(1) [of c] False by (intro exec) (auto simp: follow_def split: list.splits tok.splits)
  then show ?thesis unfolding parsepipe.simps
  proof (rule gives_bind)
    fix d u assume d: "rel_cmd (reads_word b) d c" and u: "left b es u ts"
    have p: "peek b es u (str ''|'') = (False, u)"
      unfolding left_peek [OF u symbol_sets(5)] using f by (auto simp: follow_def split: list.splits tok.splits)
    show "gives b es (case (d, u) of (c, s1) \<Rightarrow> case peek b es s1 (str ''|'') of (p, s2) \<Rightarrow> if p
        then (case gettoken b es s2 of (_, _, _, s3) \<Rightarrow> pbind (parsepipe n b es s3) (\<lambda>(d, s4). Inr (PipeC c d, s4))) else Inr (c, s2)) c ts"
      unfolding prod.case p using d u by (simp add: gives_Inr)
  qed
qed


lemma parseline_gives:
  assumes pipe: "\<And>c s ts. cmd_ok c \<Longrightarrow> left b es s (ptoks 2 c @ ts) \<Longrightarrow> follow '')&;'' ts \<Longrightarrow> gives b es (parsepipe n b es s) c ts"
    and rec: "\<And>c s ts. cmd_ok c \<Longrightarrow> left b es s (ptoks 0 c @ ts) \<Longrightarrow> follow '')'' ts \<Longrightarrow> gives b es (parseline n b es s) c ts"
    and "cmd_ok c" and l: "left b es s (ptoks 0 c @ ts)" and f: "follow '')'' ts"
  shows "gives b es (parseline (Suc n) b es s) c ts"
proof -
  define x us where "x = (case c of ListC e _ \<Rightarrow> e | _ \<Rightarrow> c)" and "us = (case c of ListC _ e \<Rightarrow> Sym (of_char CHR '';'') # ptoks 0 e @ ts | _ \<Rightarrow> ts)"
  have x: "cmd_ok x" "left b es s (ptoks 1 x @ us)" "follow '';)'' us"
    using assms(3) l f ptoks_levels(3) [of c] by (auto simp: x_def us_def Let_def follow_def split: cmd.splits list.splits tok.splits)
  obtain k d where d: "x = (BackC ^^ k) d" "cmd_ok d" "ptoks 1 x = ptoks 2 d @ replicate k (Sym (of_char CHR ''&''))"
    using peel_backs [OF x(1)] by blast
  have "follow '')&;'' (replicate k (Sym (of_char CHR ''&'')) @ us)"
    using x(3) by (cases k) (auto simp: follow_def split: list.splits tok.splits)
  then have "gives b es (parsepipe n b es s) d (replicate k (Sym (of_char CHR ''&'')) @ us)"
    using x(2) d(2,3) by (intro pipe) simp_all
  then show ?thesis unfolding parseline.simps
  proof (rule gives_bind)
    fix d' u assume d': "rel_cmd (reads_word b) d' d" and u: "left b es u (replicate k (Sym (of_char CHR ''&'')) @ us)"
    obtain v where bk: "backs b es d' u = ((BackC ^^ k) d', v)" and v: "left b es v us" using backs_left [OF u x(3)] by blast
    have rel: "rel_cmd (reads_word b) ((BackC ^^ k) d') x" unfolding d(1) by (rule rel_backs [OF d'])
    obtain t q e w where g: "gettoken b es v = (t, q, e, w)" by (metis prod_cases4)
    have "gives b es (if fst (peek b es v (str '';'')) then pbind (parseline n b es w) (\<lambda>(e, s5). Inr (ListC ((BackC ^^ k) d') e, s5))
        else Inr ((BackC ^^ k) d', v)) c ts"
    proof (cases "\<exists>y. c = ListC x y")
      case True
      then obtain y where c: "c = ListC x y" by auto
      have v': "left b es v (Sym (of_char CHR '';'') # ptoks 0 y @ ts)" using v by (simp add: us_def c)
      have w: "left b es w (ptoks 0 y @ ts)" using left_sym [OF v'] g by auto
      have "gives b es (parseline n b es w) y ts" using rec [OF _ w f] assms(3) c by simp
      then have "gives b es (pbind (parseline n b es w) (\<lambda>(e, s5). Inr (ListC ((BackC ^^ k) d') e, s5))) c ts"
        by (rule gives_bind) (use rel c in \<open>auto intro: gives_Inr\<close>)
      then show ?thesis using left_peek [OF v' symbol_sets(4)] by simp
    next
      case False
      then have c: "x = c" "us = ts" by (auto simp: x_def us_def split: cmd.splits)
      have "\<not> fst (peek b es v (str '';''))"
        unfolding left_peek [OF v symbol_sets(4)] c(2) using f by (auto simp: follow_def split: list.splits tok.splits)
      then show ?thesis using rel v c by (simp add: gives_Inr)
    qed
    moreover have "snd (peek b es v (str '';'')) = v" unfolding left_peek [OF v symbol_sets(4)] by simp
    ultimately show "gives b es (case (d', u) of (c, s1) \<Rightarrow> case backs b es c s1 of (c, s2) \<Rightarrow> case peek b es s2 (str '';'') of (p, s3) \<Rightarrow>
        if p then (case gettoken b es s3 of (_, _, _, s4) \<Rightarrow> pbind (parseline n b es s4) (\<lambda>(d, s5). Inr (ListC c d, s5))) else Inr (c, s3)) c ts"
      unfolding prod.case bk by (cases "peek b es v (str '';'')") (auto simp: g split: if_splits)
  qed
qed

lemma parse_gives:
  "cmd_ok c \<Longrightarrow> left b es s (ptoks 0 c @ ts) \<Longrightarrow> follow '')'' ts \<Longrightarrow> gives b es (parseline n b es s) c ts"
  "cmd_ok c \<Longrightarrow> left b es s (ptoks 2 c @ ts) \<Longrightarrow> follow '')&;'' ts \<Longrightarrow> gives b es (parsepipe n b es s) c ts"
  "cmd_ok c \<Longrightarrow> left b es s (ptoks 3 c @ ts) \<Longrightarrow> follow ''|)&;'' ts \<Longrightarrow> gives b es (parseexec n b es s) c ts"
  "cmd_ok c \<Longrightarrow> redirs_ok rs \<Longrightarrow> follow ''|)&;'' ts \<Longrightarrow> left b es s (Sym (of_char CHR ''('') # ptoks 0 c @ Sym (of_char CHR '')'') # rtoks rs @ ts) \<Longrightarrow>
     gives b es (parseblock n b es s) (wrap rs c) ts"
proof (induction n arbitrary: c rs s ts)
  case (Suc n)
  { case 1 then show ?case by (intro parseline_gives [OF Suc(2,1)]) }
  { case 2 then show ?case by (intro parsepipe_gives [OF Suc(3,2)]) }
  { case 3 then show ?case by (intro parseexec_gives [OF Suc(4)]) }
  { case 4 then show ?case by (intro parseblock_gives [OF Suc(1)]) }
qed simp_all

text \<open>Ending the words in place does not harm one another.\<close>

lemma nulterminate_nth:
  "length (nulterminate c b) = length b" "i < length b \<Longrightarrow> nulterminate c b ! i = (if i \<in> snd ` set_cmd c then 0 else b ! i)"
proof -
  have f: "length (foldl (\<lambda>b (q, eq). b[eq := 0]) b ps) = length b
      \<and> (i < length b \<longrightarrow> foldl (\<lambda>b (q, eq). b[eq := 0]) b ps ! i = (if i \<in> snd ` set ps then 0 else b ! i))" for ps and b :: "u8 list"
    by (induction ps arbitrary: b) (simp, force simp: nth_list_update)
  have "length (nulterminate c b) = length b \<and> (i < length b \<longrightarrow> nulterminate c b ! i = (if i \<in> snd ` set_cmd c then 0 else b ! i))"
    by (induction c arbitrary: b) (simp_all add: f nth_update_if image_Un)
  then show "length (nulterminate c b) = length b" "i < length b \<Longrightarrow> nulterminate c b ! i = (if i \<in> snd ` set_cmd c then 0 else b ! i)" by auto
qed

lemma cstr_word:
  assumes c: "\<forall>p \<in> set_cmd c. \<exists>w. reads_word b p w" and p: "p \<in> set_cmd c" "reads_word b p w"
  shows "cstr_at (nulterminate c b) (fst p) = w"
proof -
  let ?b = "nulterminate c b"
  note r = p(2) [unfolded reads_word_def]
  have in_word: "?b ! (fst p + k) = w ! k" if "k < length w" for k
  proof -
    have "b ! (fst p + k) = w ! k" "word_char (w ! k)" using r that by auto
    then have "fst p + k \<notin> snd ` set_cmd c" using c by (auto simp: reads_word_def)
    then show ?thesis using nulterminate_nth(2) [of "fst p + k" b c] r that by auto
  qed
  have "snd p \<in> snd ` set_cmd c" using p(1) by (rule imageI)
  then have e: "?b ! (fst p + length w) = 0" using nulterminate_nth(2) [of "snd p" b c] r by simp
  have lt: "fst p + length w < length ?b" using r nulterminate_nth(1) by simp
  have "take (length w) (drop (fst p) ?b) = w" using in_word lt by (intro nth_equalityI) auto
  then have "drop (fst p) ?b = w @ 0 # drop (Suc (length w)) (drop (fst p) ?b)"
    using id_take_nth_drop [of "length w" "drop (fst p) ?b"] e lt by simp
  then have "cstr_at ?b (fst p) = takeWhile (\<lambda>c. c \<noteq> 0) (w @ 0 # drop (Suc (length w)) (drop (fst p) ?b))" by (simp only: cstr_at_def)
  then show ?thesis using r by (simp add: takeWhile_append word_char_def)
qed

lemma rel_cmd_strings:
  assumes r: "rel_cmd (reads_word b) d c"
  shows "map_cmd (\<lambda>p. cstr_at (nulterminate d b) (fst p)) d = c"
proof -
  have "rel_set (reads_word b) (set_cmd d) (set_cmd c)" using rel_funD [OF cmd.set_transfer r] .
  then have "\<forall>p \<in> set_cmd d. \<exists>w. reads_word b p w" by (auto simp: rel_set_def)
  then have "rel_cmd (\<lambda>p w. cstr_at (nulterminate d b) (fst p) = w) d c"
    using cstr_word by (intro cmd.rel_mono_strong [OF r]) blast
  then show ?thesis using cmd.rel_map(1) [of "(=)" _ d c] by (simp add: cmd.rel_eq)
qed

definition cmd_text :: "u8 list cmd \<Rightarrow> u8 list" where
  "cmd_text c = concat (map tok_text (ptoks 0 c))"

lemma text_nonzero:
  assumes "tok_ok t" and "x \<in> set (tok_text t)"
  shows "x \<noteq> 0"
proof (cases t)
  case (Word w)
  then show ?thesis using assms by (cases "x = 32") (simp_all add: word_char_def)
next
  case (Sym c)
  then show ?thesis using assms symbols_white [of c] by (cases "x = 32") simp_all
qed

text \<open>
  C17. The parser reads back what is printed. Every command that the shell can express, printed with parentheses where
  they are needed, is parsed to that command: after \<open>nulterminate\<close>, the strings its pointers point to are the
  words of the command.
\<close>

theorem parsecmd_prints:
  assumes ok: "cmd_ok c"
  shows "\<exists>d b. parsecmd (cmd_text c @ 0 # z) = Inr (d, b) \<and> map_cmd (\<lambda>p. cstr_at b (fst p)) d = c"
proof -
  let ?b = "cmd_text c @ 0 # z"
  let ?r = "parseline (4 * length ?b + 4) ?b (buf_strlen ?b) 0"
  have "\<forall>x \<in> set (cmd_text c). x \<noteq> 0" using ptoks_ok [OF ok] text_nonzero by (auto simp: cmd_text_def)
  then have es: "buf_strlen ?b = length (cmd_text c)" by (simp add: buf_strlen_def takeWhile_append)
  have l: "left ?b (buf_strlen ?b) 0 (ptoks 0 c @ [])" using ptoks_ok [OF ok] unfolding es by (auto simp: left_def cmd_text_def)
  have "gives ?b (buf_strlen ?b) ?r c []" by (rule parse_gives(1) [OF ok l]) (simp add: follow_def)
  moreover have "ends True 0 ?r" by (rule ends_weaken [OF parse_ends(1)]) auto
  ultimately obtain d s where r: "?r = Inr (d, s)" "rel_cmd (reads_word ?b) d c" "left ?b (buf_strlen ?b) s []"
    by (auto simp: gives_def ends_def)
  have "snd (peek ?b (buf_strlen ?b) s []) = buf_strlen ?b"
    using left_peek [OF r(3), of "[]"] left_end(2) [OF r(3)] by simp
  then have "parsecmd ?b = Inr (d, nulterminate d ?b)"
    unfolding parsecmd_def Let_def r(1) pbind_simps by (cases "peek ?b (buf_strlen ?b) s []") simp
  then show ?thesis using rel_cmd_strings [OF r(2)] by blast
qed

lemma parsecmd_prints_witness:
  "\<exists>d b. parsecmd (str ''ls > y | ( wc & ) ; echo hi '' @ [0]) = Inr (d, b) \<and> map_cmd (\<lambda>p. cstr_at b (fst p)) d =
    ListC (PipeC (RedirC (ExecC [str ''ls'']) (str ''y'') (O_WRONLY OR O_CREATE) 1) (BackC (ExecC [str ''wc'']))) (ExecC [str ''echo'', str ''hi''])"
proof -
  let ?c = "ListC (PipeC (RedirC (ExecC [str ''ls'']) (str ''y'') (O_WRONLY OR O_CREATE) 1) (BackC (ExecC [str ''wc'']))) (ExecC [str ''echo'', str ''hi''])"
  have "cmd_ok ?c" by (simp add: MAXARGS_def word_char_def whitespace_def symbols_def)
  from parsecmd_prints [OF this, of "[]"] show ?thesis by (simp add: cmd_text_def)
qed


section \<open>How the processes of a command are connected\<close>

text \<open>
  The open files of a process, and what its system calls do to them when they succeed: a new descriptor is
  the lowest that is free. Pipes are named by the place in the tree of forks at which they are made.
\<close>

datatype ofile = Given nat | File "u8 list" u32 | PipeR "nat list" | PipeW "nat list"

type_synonym fds = "nat \<Rightarrow> ofile option"

definition lowest :: "fds \<Rightarrow> nat" where
  "lowest F = (LEAST n. F n = None)"

text \<open>The programs that are started, each with its arguments and all its open files.\<close>

primrec launch :: "sys \<Rightarrow> fds \<Rightarrow> nat list \<Rightarrow> (u8 list list \<times> fds) list" where
  "launch SExit = (\<lambda>F i. [])"
| "launch (SExec path argv k) = (\<lambda>F i. [(argv, F)])"
| "launch (SClose d k) = (\<lambda>F i. launch k (F(d := None)) i)"
| "launch (SOpen path m k) = (\<lambda>F i. launch (k (int (lowest F))) (F(lowest F \<mapsto> File path m)) i)"
| "launch (SDup d k) = (\<lambda>F i. launch k (F(lowest F := F d)) i)"
| "launch (SPipe k) = (\<lambda>F i.
     let p0 = lowest F; F' = F(p0 \<mapsto> PipeR i); p1 = lowest F'
     in launch (k (Some (p0, p1))) (F'(p1 \<mapsto> PipeW i)) i)"
| "launch (SFork k) = (\<lambda>F i. launch (k 0) F (i @ [0]) @ launch (k 1) F (i @ [1]))"
| "launch (SWait k) = launch k"
| "launch (SWrite d xs k) = launch k"

text \<open>What a command means: each program with standard input and output as the operators say, and nothing else open.\<close>

fun connects :: "u8 list cmd \<Rightarrow> fds \<Rightarrow> nat list \<Rightarrow> (u8 list list \<times> fds) list" where
  "connects (ExecC as) F i = (if as = [] then [] else [(as, F)])"
| "connects (RedirC c f m d) F i = connects c (F(d \<mapsto> File f m)) i"
| "connects (PipeC l r) F i = connects l (F(1 \<mapsto> PipeW i)) (i @ [0]) @ connects r (F(0 \<mapsto> PipeR i)) (i @ [1, 0])"
| "connects (ListC l r) F i = connects l F (i @ [0]) @ connects r F (i @ [1])"
| "connects (BackC c) F i = connects c F (i @ [0])"

fun std_redirs :: "'a cmd \<Rightarrow> bool" where
  "std_redirs (ExecC as) \<longleftrightarrow> True"
| "std_redirs (RedirC c f m d) \<longleftrightarrow> d \<le> 2 \<and> std_redirs c"
| "std_redirs (PipeC l r) \<longleftrightarrow> std_redirs l \<and> std_redirs r"
| "std_redirs (ListC l r) \<longleftrightarrow> std_redirs l \<and> std_redirs r"
| "std_redirs (BackC c) \<longleftrightarrow> std_redirs c"

lemma lowestI:
  assumes "F n = None" and "\<And>k. k < n \<Longrightarrow> F k \<noteq> None"
  shows "lowest F = n"
  unfolding lowest_def
proof (rule Least_equality)
  show "F n = None" by (rule assms(1))
  fix k assume "F k = None"
  then show "n \<le> k" using assms(2) [of k] by (cases "k < n") auto
qed

text \<open>Three files are open: the standard ones.\<close>

definition std_fds :: "fds \<Rightarrow> bool" where
  "std_fds F \<longleftrightarrow> (\<forall>n. F n = None \<longleftrightarrow> 3 \<le> n)"

lemma std_upd: "std_fds F \<Longrightarrow> d \<le> 2 \<Longrightarrow> std_fds (F(d \<mapsto> x))" "std_fds F \<Longrightarrow> d \<le> 2 \<Longrightarrow> lowest (F(d := None)) = d"
proof -
  assume F: "std_fds F" and d: "d \<le> 2"
  show "std_fds (F(d \<mapsto> x))" using F d by (auto simp: std_fds_def)
  show "lowest (F(d := None)) = d" by (rule lowestI) (use F d in \<open>simp_all add: std_fds_def del: not_None_eq\<close>)
qed

lemma pipe_fds:
  assumes F: "std_fds F" and d: "d \<le> 2"
  shows "lowest F = 3" "lowest (F(3 \<mapsto> x)) = 4" "lowest (F(3 \<mapsto> x, 4 \<mapsto> y, d := None)) = d"
    "F(3 \<mapsto> x, 4 \<mapsto> y, d := None, d \<mapsto> z, 3 := None, 4 := None) = F(d \<mapsto> z)"
proof -
  note f = F [unfolded std_fds_def]
  show "lowest F = 3" "lowest (F(3 \<mapsto> x)) = 4" "lowest (F(3 \<mapsto> x, 4 \<mapsto> y, d := None)) = d"
    by (rule lowestI; use f d in \<open>auto simp del: not_None_eq\<close>)+
  show "F(3 \<mapsto> x, 4 \<mapsto> y, d := None, d \<mapsto> z, 3 := None, 4 := None) = F(d \<mapsto> z)"
    using f [THEN spec, of 3] f [THEN spec, of 4] d by (auto simp: fun_eq_iff)
qed

lemma launch_fork1: "launch (fork1 k) F i = launch (k 0) F (i @ [0]) @ launch (k 1) F (i @ [1])"
  by (simp add: fork1_def)

text \<open>
  C18. \<open>runcmd\<close> connects the processes of a command as it is written. Started with the three standard files and nothing
  else open, it starts the programs of the command, each with standard input and output from the nearest
  redirection or pipe around it, and with no other descriptor: no end of a pipe is left open by mistake.
\<close>

theorem runcmd_connects:
  assumes "std_redirs c" and "std_fds F"
  shows "launch (runcmd b c) F i = connects (map_cmd (\<lambda>p. cstr_at b (fst p)) c) F i"
  using assms
proof (induction c arbitrary: F i)
  case (PipeC l r)
  note f = pipe_fds [OF PipeC.prems(2)]
  have "launch (runcmd b l) (F(1 \<mapsto> PipeW i)) (i @ [0]) = connects (map_cmd (\<lambda>p. cstr_at b (fst p)) l) (F(1 \<mapsto> PipeW i)) (i @ [0])"
    "launch (runcmd b r) (F(0 \<mapsto> PipeR i)) (i @ [1, 0]) = connects (map_cmd (\<lambda>p. cstr_at b (fst p)) r) (F(0 \<mapsto> PipeR i)) (i @ [1, 0])"
    using PipeC by (simp_all add: std_upd)
  then show ?case
    using f(1) [of 0] f(2) [of 0] f(3,4) [of 0] f(3,4) [of 1] by (simp add: launch_fork1 Let_def)
qed (auto simp: launch_fork1 std_upd hd_map split: list.splits)

lemma runcmd_connects_witness:
  "launch (runcmd [97, 0, 98, 0, 99, 0] (PipeC (ExecC [(0, 1)]) (RedirC (ExecC [(2, 3)]) (4, 5) 0 1))) (\<lambda>n. if n < 3 then Some (Given n) else None) [] =
    [([[97]], (\<lambda>n. if n < 3 then Some (Given n) else None)(1 \<mapsto> PipeW [])),
     ([[98]], (\<lambda>n. if n < 3 then Some (Given n) else None)(0 \<mapsto> PipeR [], 1 \<mapsto> File [99] 0))]"
  using runcmd_connects [of "PipeC (ExecC [(0, 1)]) (RedirC (ExecC [(2, 3)]) (4, 5) 0 1)" "\<lambda>n. if n < 3 then Some (Given n) else None"]
  by (simp add: std_fds_def cstr_at_def)

end
