(* ===== verification/Kbd.thy ===== *)
theory Kbd
  imports Console
begin

text \<open>
  The keyboard drivers of xv6 (\<open>kbd.c\<close>, \<open>kbd.h\<close>): scan codes to characters, with the state of the modifier keys. A read of
  the controller gives a scan code or, when its status says that no data is there, nothing.
\<close>

section \<open>Tables\<close>

definition SHIFT :: u32 where "SHIFT = 1"
definition CTL :: u32 where "CTL = 2"
definition ALT :: u32 where "ALT = 4"
definition CAPSLOCK :: u32 where "CAPSLOCK = 8"
definition NUMLOCK :: u32 where "NUMLOCK = 16"
definition SCROLLLOCK :: u32 where "SCROLLLOCK = 32"
definition E0ESC :: u32 where "E0ESC = 64"

text \<open>A table of 256 bytes: its first entries, and some by position.\<close>

definition key_table :: "u8 list \<Rightarrow> (nat \<times> u8) list \<Rightarrow> u8 \<Rightarrow> u8" where
  "key_table rows xs d =
     (case map_of xs (unat d) of Some c \<Rightarrow> c | None \<Rightarrow> if unat d < length rows then rows ! unat d else 0)"

definition shiftcode :: "u8 \<Rightarrow> u32" where
  "shiftcode d =
     (if d = 0x1D \<or> d = 0x9D then CTL else if d = 0x2A \<or> d = 0x36 then SHIFT
      else if d = 0x38 \<or> d = 0xB8 then ALT else 0)"

definition togglecode :: "u8 \<Rightarrow> u32" where
  "togglecode d = (if d = 0x3A then CAPSLOCK else if d = 0x45 then NUMLOCK else if d = 0x46 then SCROLLLOCK else 0)"

definition special_keys :: "(nat \<times> u8) list" where
  "special_keys = [(0xC8, 0xE2), (0xD0, 0xE3), (0xC9, 0xE6), (0xD1, 0xE7), (0xCB, 0xE4), (0xCD, 0xE5),
     (0x97, 0xE0), (0xCF, 0xE1), (0xD2, 0xE8), (0xD3, 0xE9)]"

definition normal_rows :: "u8 list" where
  "normal_rows = [0, 0x1B] @ str ''1234567890-='' @ [8, 9] @ str ''qwertyuiop[]'' @ [10, 0] @ str ''asdfghjkl;''
     @ [39, 96, 0, 92] @ str ''zxcvbnm,./'' @ [0, 42, 0, 32] @ replicate 13 0 @ str ''789-456+1230.''"

definition shift_rows :: "u8 list" where
  "shift_rows = [0, 0x1B] @ str ''!@#$%^&*()_+'' @ [8, 9] @ str ''QWERTYUIOP{}'' @ [10, 0] @ str ''ASDFGHJKL:''
     @ [34, 126, 0, 124] @ str ''ZXCVBNM<>?'' @ [0, 42, 0, 32] @ replicate 13 0 @ str ''789-456+1230.''"

definition ctl_rows :: "u8 list" where
  "ctl_rows = replicate 16 0 @ map (\<lambda>c. c - 64) (str ''QWERTYUIOP'') @ [0, 0, 13, 0] @ map (\<lambda>c. c - 64) (str ''ASDFGHJKL'')
     @ [0, 0, 0, 0, 92 - 64] @ map (\<lambda>c. c - 64) (str ''ZXCVBNM'') @ [0, 0, 47 - 64, 0, 0]"

definition normalmap :: "u8 \<Rightarrow> u8" where
  "normalmap = key_table normal_rows ([(0x9C, 10), (0xB5, 47)] @ special_keys)"

definition shiftmap :: "u8 \<Rightarrow> u8" where
  "shiftmap = key_table shift_rows ([(0x9C, 10), (0xB5, 47)] @ special_keys)"

definition ctlmap :: "u8 \<Rightarrow> u8" where
  "ctlmap = key_table ctl_rows ([(0x9C, 13), (0xB5, 47 - 64)] @ special_keys)"

definition charcode :: "u32 \<Rightarrow> u8 \<Rightarrow> u8" where
  "charcode i = (if i = 0 then normalmap else if i = 1 then shiftmap else ctlmap)"

section \<open>The driver\<close>

text \<open>What Caps Lock does to a character.\<close>

definition caps :: "u8 \<Rightarrow> u8" where
  "caps c = (if 97 \<le> c \<and> c \<le> 122 then c + 65 - 97 else if 65 \<le> c \<and> c \<le> 90 then c + 97 - 65 else c)"

text \<open>A key that goes down, after an \<open>E0\<close> escape has been taken into account: the new state and the character.\<close>

definition key_down :: "(u32 \<Rightarrow> u8 \<Rightarrow> u8) \<Rightarrow> u32 \<Rightarrow> u8 \<Rightarrow> u8 \<times> u32" where
  "key_down codes shift d =
     (let shift = (shift OR shiftcode d) XOR togglecode d;
          c = codes (shift AND (CTL OR SHIFT)) d
      in (if shift AND CAPSLOCK \<noteq> 0 then caps c else c, shift))"

definition kbdgetc :: "u32 \<Rightarrow> u8 option \<Rightarrow> int \<times> u32" where
  "kbdgetc shift port =
     (case port of None \<Rightarrow> (- 1, shift)
      | Some data \<Rightarrow>
          if data = 0xE0 then (0, shift OR E0ESC)
          else if data AND 0x80 \<noteq> 0 then
            (let data = (if shift AND E0ESC \<noteq> 0 then data else data AND 0x7F)
             in (0, shift AND NOT (shiftcode data OR E0ESC)))
          else
            (case (if shift AND E0ESC \<noteq> 0 then key_down charcode (shift AND NOT E0ESC) (data OR 0x80)
                   else key_down charcode shift data) of
               (c, shift) \<Rightarrow> (int (unat c), shift)))"

text \<open>\<open>consoleintr\<close> calls \<open>kbdgetc\<close> until it answers -1; the scan codes that wait in the controller are a list.\<close>

fun kbd_codes :: "u32 \<Rightarrow> u8 list \<Rightarrow> u32 list \<times> u32" where
  "kbd_codes shift [] = ([], snd (kbdgetc shift None))"
| "kbd_codes shift (d # ds) =
     (case kbdgetc shift (Some d) of (c, shift) \<Rightarrow>
        (case kbd_codes shift ds of (cs, shift) \<Rightarrow> (word_of_int c # cs, shift)))"

definition kbdintr :: "u32 \<Rightarrow> u8 list \<Rightarrow> ('a cnstate_scheme, u32) km" where
  "kbdintr shift ds = (case kbd_codes shift ds of (cs, shift) \<Rightarrow> bnd (consoleintr cs) (\<lambda>_. ret shift))"

section \<open>Modifier keys\<close>

lemma letters_typed:
  "map (\<lambda>d. fst (kbdgetc 0 (Some d))) [0x23, 0x12, 0x26, 0x26, 0x18, 0x1C] = map int [104, 101, 108, 108, 111, 10]"
  by code_simp

lemma rows_length: "length normal_rows = 84" "length shift_rows = 84" "length ctl_rows = 56"
  by (simp_all add: normal_rows_def shift_rows_def ctl_rows_def)

text \<open>Pressing and releasing a modifier key leaves the state as it was before, when the key was up.\<close>

lemma modifier_released:
  assumes "d \<in> {0x1D, 0x2A, 0x36, 0x38}" and "shift AND (shiftcode d OR E0ESC) = 0"
  shows "snd (kbdgetc (snd (kbdgetc shift (Some d))) (Some (d OR 0x80))) = shift"
proof -
  have up: "(shift OR v) AND NOT (v OR E0ESC) = shift" if "shift AND (v OR E0ESC) = 0" for v
  proof (rule bit_word_eqI)
    fix n assume "n < LENGTH(32)"
    have "bit (shift AND (v OR E0ESC)) n = bit (0 :: u32) n" using that by simp
    then show "bit ((shift OR v) AND NOT (v OR E0ESC)) n = bit shift n"
      using \<open>n < LENGTH(32)\<close> by (auto simp: bit_simps)
  qed
  have e: "shift AND E0ESC = 0"
    using assms(2) by (metis bit.conj_disj_distrib or_eq_0_iff)
  have v: "shiftcode d AND E0ESC = 0" "togglecode d = 0" "d \<noteq> 0xE0" "d AND 0x80 = 0" "d OR 0x80 \<noteq> 0xE0"
    "(d OR 0x80) AND 0x80 \<noteq> 0" "(d OR 0x80) AND 0x7F = d"
    using assms(1) by (auto simp: shiftcode_def togglecode_def CTL_def SHIFT_def ALT_def E0ESC_def)
  have 1: "snd (kbdgetc shift (Some d)) = shift OR shiftcode d"
    using v e by (simp add: kbdgetc_def key_down_def Let_def)
  have "(shift OR shiftcode d) AND E0ESC = 0" using e v(1) by (simp add: bit.conj_disj_distrib2)
  then have "snd (kbdgetc (shift OR shiftcode d) (Some (d OR 0x80))) = (shift OR shiftcode d) AND NOT (shiftcode d OR E0ESC)"
    using v by (simp add: kbdgetc_def Let_def)
  then show ?thesis using up [OF assms(2)] by (simp add: 1)
qed

end
