(* ===== verification/Jos_String.thy ===== *)
theory Jos_String
  imports Printf
begin

text \<open>
  The string library of the JOS tree (\<open>lib/string.c\<close>), on byte-addressed memory. Loops that run to a NUL byte
  may not end and are partial functions; loops bounded by a count recurse on it. \<open>memset\<close> and \<open>memmove\<close> are the
  versions in assembly, which \<open>ASM\<close> selects: \<open>stosb\<close>, \<open>stosl\<close>, \<open>movsb\<close> and \<open>movsl\<close> with a repeat prefix, upwards or,
  after \<open>std\<close>, downwards.
\<close>

section \<open>Length and copies\<close>

partial_function (option) jos_strlen_loop :: "mem \<Rightarrow> u32 \<Rightarrow> u32 \<Rightarrow> u32 option" where
  "jos_strlen_loop m s n = (if m s \<noteq> 0 then jos_strlen_loop m (s + 1) (n + 1) else Some n)"

definition jos_strlen :: "mem \<Rightarrow> u32 \<Rightarrow> u32 option" where
  "jos_strlen m s = jos_strlen_loop m s 0"

fun jos_strnlen_loop :: "mem \<Rightarrow> u32 \<Rightarrow> nat \<Rightarrow> u32 \<Rightarrow> u32" where
  "jos_strnlen_loop m s 0 n = n"
| "jos_strnlen_loop m s (Suc k) n = (if m s \<noteq> 0 then jos_strnlen_loop m (s + 1) k (n + 1) else n)"

definition jos_strnlen :: "mem \<Rightarrow> u32 \<Rightarrow> u32 \<Rightarrow> u32" where
  "jos_strnlen m s sz = jos_strnlen_loop m s (unat sz) 0"

partial_function (option) strcpy_loop :: "mem \<Rightarrow> u32 \<Rightarrow> u32 \<Rightarrow> mem option" where
  "strcpy_loop m dst src =
     (let m' = m(dst := m src) in if m src \<noteq> 0 then strcpy_loop m' (dst + 1) (src + 1) else Some m')"

definition jos_strcpy :: "mem \<Rightarrow> u32 \<Rightarrow> u32 \<Rightarrow> (mem \<times> u32) option" where
  "jos_strcpy m dst src = map_option (\<lambda>m. (m, dst)) (strcpy_loop m dst src)"

definition jos_strcat :: "mem \<Rightarrow> u32 \<Rightarrow> u32 \<Rightarrow> (mem \<times> u32) option" where
  "jos_strcat m dst src =
     (case jos_strlen m dst of None \<Rightarrow> None
      | Some len \<Rightarrow> map_option (\<lambda>(m, _). (m, dst)) (jos_strcpy m (dst + len) src))"

fun jos_strncpy_loop :: "mem \<Rightarrow> u32 \<Rightarrow> u32 \<Rightarrow> nat \<Rightarrow> mem" where
  "jos_strncpy_loop m dst src 0 = m"
| "jos_strncpy_loop m dst src (Suc k) =
     (let m' = m(dst := m src) in jos_strncpy_loop m' (dst + 1) (if m' src \<noteq> 0 then src + 1 else src) k)"

definition jos_strncpy :: "mem \<Rightarrow> u32 \<Rightarrow> u32 \<Rightarrow> u32 \<Rightarrow> mem \<times> u32" where
  "jos_strncpy m dst src sz = (jos_strncpy_loop m dst src (unat sz), dst)"

text \<open>\<open>k\<close> is the count that \<open>--size\<close> still lets through.\<close>

fun strlcpy_loop :: "mem \<Rightarrow> u32 \<Rightarrow> u32 \<Rightarrow> nat \<Rightarrow> mem \<times> u32" where
  "strlcpy_loop m dst src 0 = (m, dst)"
| "strlcpy_loop m dst src (Suc k) =
     (if m src \<noteq> 0 then strlcpy_loop (m(dst := m src)) (dst + 1) (src + 1) k else (m, dst))"

definition strlcpy :: "mem \<Rightarrow> u32 \<Rightarrow> u32 \<Rightarrow> u32 \<Rightarrow> mem \<times> u32" where
  "strlcpy m dst_in src sz =
     (if 0 < sz then
        case strlcpy_loop m dst_in src (unat sz - 1) of (m', dst) \<Rightarrow> (m'(dst := 0), dst - dst_in)
      else (m, 0))"

section \<open>Comparison and search\<close>

partial_function (option) jos_strcmp :: "mem \<Rightarrow> u32 \<Rightarrow> u32 \<Rightarrow> int option" where
  "jos_strcmp m p q =
     (if m p \<noteq> 0 \<and> m p = m q then jos_strcmp m (p + 1) (q + 1)
      else Some (int (unat (m p)) - int (unat (m q))))"

fun jos_strncmp :: "mem \<Rightarrow> u32 \<Rightarrow> u32 \<Rightarrow> nat \<Rightarrow> int" where
  "jos_strncmp m p q 0 = 0"
| "jos_strncmp m p q (Suc n) =
     (if m p \<noteq> 0 \<and> m p = m q then jos_strncmp m (p + 1) (q + 1) n
      else int (unat (m p)) - int (unat (m q)))"

text \<open>The null pointer is 0.\<close>

partial_function (option) jos_strchr :: "mem \<Rightarrow> u32 \<Rightarrow> u8 \<Rightarrow> u32 option" where
  "jos_strchr m s c =
     (if m s \<noteq> 0 then if m s = c then Some s else jos_strchr m (s + 1) c else Some 0)"

partial_function (option) strfind :: "mem \<Rightarrow> u32 \<Rightarrow> u8 \<Rightarrow> u32 option" where
  "strfind m s c =
     (if m s \<noteq> 0 then if m s = c then Some s else strfind m (s + 1) c else Some s)"

fun jos_memcmp :: "mem \<Rightarrow> u32 \<Rightarrow> u32 \<Rightarrow> nat \<Rightarrow> int" where
  "jos_memcmp m s1 s2 0 = 0"
| "jos_memcmp m s1 s2 (Suc n) =
     (if m s1 \<noteq> m s2 then int (unat (m s1)) - int (unat (m s2)) else jos_memcmp m (s1 + 1) (s2 + 1) n)"

function memfind_loop :: "mem \<Rightarrow> u32 \<Rightarrow> u8 \<Rightarrow> u32 \<Rightarrow> u32" where
  "memfind_loop m s c ends =
     (if s < ends then if m s = c then s else memfind_loop m (s + 1) c ends else s)"
  by pat_completeness auto
termination
proof (relation "measure (\<lambda>(m, s, c, ends). unat (ends - s))", goal_cases)
  case (2 m s c ends)
  then have "ends - s \<noteq> 0" by auto
  then have "unat (ends - s - 1) < unat (ends - s)"
    using unat_minus_1_nz [of "ends - s"] unat_eq_zero [of "ends - s"] by linarith
  then show ?case by (simp add: diff_diff_eq)
qed simp

declare memfind_loop.simps [simp del]

definition memfind :: "mem \<Rightarrow> u32 \<Rightarrow> u32 \<Rightarrow> u32 \<Rightarrow> u32" where
  "memfind m s c n = memfind_loop m s (ucast c) (s + n)"

section \<open>Filling and moving\<close>

definition jos_memset :: "mem \<Rightarrow> u32 \<Rightarrow> u32 \<Rightarrow> u32 \<Rightarrow> mem" where
  "jos_memset m v c n =
     (if n = 0 then m
      else if sint v mod 4 = 0 \<and> unat n mod 4 = 0 then
        let c = c AND 255
        in stosl m v (push_bit 24 c OR push_bit 16 c OR push_bit 8 c OR c) (unat n div 4)
      else stosb m v (ucast c) (unat n))"

fun movsl_up :: "mem \<Rightarrow> u32 \<Rightarrow> u32 \<Rightarrow> nat \<Rightarrow> mem" where
  "movsl_up m d s 0 = m"
| "movsl_up m d s (Suc k) = movsl_up (st32 m d (ld32 m s)) (d + 4) (s + 4) k"

fun movsl_down :: "mem \<Rightarrow> u32 \<Rightarrow> u32 \<Rightarrow> nat \<Rightarrow> mem" where
  "movsl_down m d s 0 = m"
| "movsl_down m d s (Suc k) = movsl_down (st32 m d (ld32 m s)) (d - 4) (s - 4) k"

fun movsb_up :: "mem \<Rightarrow> u32 \<Rightarrow> u32 \<Rightarrow> nat \<Rightarrow> mem" where
  "movsb_up m d s 0 = m"
| "movsb_up m d s (Suc k) = movsb_up (m(d := m s)) (d + 1) (s + 1) k"

fun movsb_down :: "mem \<Rightarrow> u32 \<Rightarrow> u32 \<Rightarrow> nat \<Rightarrow> mem" where
  "movsb_down m d s 0 = m"
| "movsb_down m d s (Suc k) = movsb_down (m(d := m s)) (d - 1) (s - 1) k"

definition jos_memmove :: "mem \<Rightarrow> u32 \<Rightarrow> u32 \<Rightarrow> u32 \<Rightarrow> mem" where
  "jos_memmove m d s n =
     (if s < d \<and> d < s + n then
        let s = s + n; d = d + n
        in if sint s mod 4 = 0 \<and> sint d mod 4 = 0 \<and> unat n mod 4 = 0
           then movsl_down m (d - 4) (s - 4) (unat n div 4)
           else movsb_down m (d - 1) (s - 1) (unat n)
      else if sint s mod 4 = 0 \<and> sint d mod 4 = 0 \<and> unat n mod 4 = 0
      then movsl_up m d s (unat n div 4)
      else movsb_up m d s (unat n))"

definition jos_memcpy :: "mem \<Rightarrow> u32 \<Rightarrow> u32 \<Rightarrow> u32 \<Rightarrow> mem" where
  "jos_memcpy m dst src n = jos_memmove m dst src n"

section \<open>Numbers\<close>

text \<open>\<open>char\<close> is signed, so a byte above 127 compares below \<open>'0'\<close>.\<close>

definition strtol_digit :: "u8 \<Rightarrow> int option" where
  "strtol_digit c =
     (if 48 \<le> sint c \<and> sint c \<le> 57 then Some (sint c - 48)
      else if 97 \<le> sint c \<and> sint c \<le> 122 then Some (sint c - 97 + 10)
      else if 65 \<le> sint c \<and> sint c \<le> 90 then Some (sint c - 65 + 10)
      else None)"

partial_function (option) strtol_blanks :: "mem \<Rightarrow> u32 \<Rightarrow> u32 option" where
  "strtol_blanks m s = (if m s = 32 \<or> m s = 9 then strtol_blanks m (s + 1) else Some s)"

partial_function (option) strtol_loop :: "mem \<Rightarrow> u32 \<Rightarrow> int \<Rightarrow> u32 \<Rightarrow> (u32 \<times> u32) option" where
  "strtol_loop m s base val =
     (case strtol_digit (m s) of None \<Rightarrow> Some (s, val)
      | Some dig \<Rightarrow> if base \<le> dig then Some (s, val)
                    else strtol_loop m (s + 1) base (val * of_int base + of_int dig))"

text \<open>The prefix that fixes the base: where the digits begin and their base.\<close>

definition strtol_prefix :: "mem \<Rightarrow> u32 \<Rightarrow> int \<Rightarrow> u32 \<times> int" where
  "strtol_prefix m s base =
     (if (base = 0 \<or> base = 16) \<and> m s = 48 \<and> m (s + 1) = 120 then (s + 2, 16)
      else if base = 0 \<and> m s = 48 then (s + 1, 8)
      else if base = 0 then (s, 10)
      else (s, base))"

text \<open>
  The result is \<open>*endptr\<close> and the value. The code does not look for overflow; the additions and the multiplication of
  the loop then wrap around modulo \<open>2^32\<close>, as the compiled code does (the C standard leaves signed overflow undefined).
\<close>

definition strtol :: "mem \<Rightarrow> u32 \<Rightarrow> int \<Rightarrow> (u32 \<times> u32) option" where
  "strtol m s base =
     (case strtol_blanks m s of None \<Rightarrow> None
      | Some s \<Rightarrow>
         (let neg = (m s = 45);
              s = (if m s = 43 \<or> neg then s + 1 else s)
          in case strtol_prefix m s base of (s, base) \<Rightarrow>
             map_option (\<lambda>(e, val). (e, if neg then - val else val)) (strtol_loop m s base 0)))"

section \<open>The block move in assembly\<close>

text \<open>Aligned regions are moved in words of four bytes; this has the effect of the byte loops of the C version.\<close>

lemma movsb_up_eq: "movsb_up m d s k = copy_up m d s k"
  by (induction k arbitrary: m d s) simp_all

lemma movsb_down_eq: "movsb_down m (d - 1) (s - 1) k = copy_down m d s k"
proof (induction k arbitrary: m d s)
  case (Suc k)
  show ?case unfolding movsb_down.simps copy_down.simps by (rule Suc.IH)
qed simp

lemma ld32_bytes:
  "ucast (ld32 m a) = m a" "ucast (drop_bit 8 (ld32 m a)) = m (a + 1)"
  "ucast (drop_bit 16 (ld32 m a)) = m (a + 2)" "ucast (drop_bit 24 (ld32 m a)) = m (a + 3)"
  by (rule bit_word_eqI; auto simp: ld32_def bit_simps dest: bit_imp_le_length)+

lemma st32_ld32: "st32 m d (ld32 m s) = m(d := m s, d + 1 := m (s + 1), d + 2 := m (s + 2), d + 3 := m (s + 3))"
  by (simp add: st32_def ld32_bytes)

lemma aligned_apart:
  fixes d s :: u32
  assumes "4 dvd unat d" and "4 dvd unat s" and "0 < k" and "k < 4"
  shows "d \<noteq> s + k"
proof
  assume e: "d = s + k"
  have k: "unat k < 4" "0 < unat k" using assms(3,4) by (simp_all add: word_less_nat_alt unat_gt_0)
  have "unat s + unat k < 2 ^ 32"
  proof -
    obtain q where q: "unat s = 4 * q" using assms(2) by auto
    then have "4 * q < 4 * 2 ^ 30" using unat32_less [of s] by simp
    then have "q < 2 ^ 30" by simp
    then show ?thesis using q k by simp
  qed
  then have "unat d = unat s + unat k" using e by (simp add: unat_word_ariths)
  then have "4 dvd unat k" using assms(1,2) by (simp add: dvd_add_right_iff)
  then show False using k by auto
qed

lemma word_copy_up:
  assumes "4 dvd unat d" and "4 dvd unat s"
  shows "st32 m d (ld32 m s) = copy_up m d s 4"
proof -
  have "d \<noteq> s + 1" "d \<noteq> s + 2" "d \<noteq> s + 3" "s + 1 \<noteq> d" "s + 2 \<noteq> d" "s + 3 \<noteq> d" "d \<noteq> s + 1 - 0"
    using aligned_apart [OF assms, of 1] aligned_apart [OF assms, of 2] aligned_apart [OF assms, of 3] by auto
  moreover from this have "s + 2 \<noteq> d + 1" "s + 3 \<noteq> d + 1" "s + 3 \<noteq> d + 2"
    by (auto simp: algebra_simps)
  ultimately show ?thesis by (simp add: st32_ld32 numeral_eq_Suc add.assoc)
qed

lemma dvd4_add: "4 dvd unat (a :: u32) \<Longrightarrow> 4 dvd unat b \<Longrightarrow> 4 dvd unat (a + b)"
proof -
  assume "4 dvd unat a" "4 dvd unat b"
  then have "4 dvd (unat a + unat b) mod 2 ^ 32" by (simp add: dvd_mod)
  then show ?thesis by (simp add: unat_word_ariths)
qed

lemma copy_up_add: "copy_up m d s (j + k) = copy_up (copy_up m d s j) (d + of_nat j) (s + of_nat j) k"
  by (induction j arbitrary: m d s) (simp_all add: algebra_simps)

lemma copy_down_add: "copy_down m d s (j + k) = copy_down (copy_down m d s j) (d - of_nat j) (s - of_nat j) k"
  by (induction j arbitrary: m d s) (simp_all add: algebra_simps)

lemma movsl_up_eq:
  "4 dvd unat d \<Longrightarrow> 4 dvd unat s \<Longrightarrow> movsl_up m d s k = copy_up m d s (4 * k)"
proof (induction k arbitrary: m d s)
  case (Suc k)
  have "4 dvd unat (d + 4)" "4 dvd unat (s + 4)" using Suc.prems dvd4_add [of _ 4] by simp_all
  then show ?case
    using Suc word_copy_up [of d s m] copy_up_add [of m d s 4 "4 * k"] by simp
qed simp

lemma word_copy_down:
  assumes "4 dvd unat d" and "4 dvd unat s"
  shows "st32 m (d - 4) (ld32 m (s - 4)) = copy_down m d s 4"
proof -
  have n: "s \<noteq> d + 1" "s \<noteq> d + 2" "s \<noteq> d + 3"
    using aligned_apart [OF assms(2,1), of 1] aligned_apart [OF assms(2,1), of 2] aligned_apart [OF assms(2,1), of 3]
    by auto
  then have "s - 2 \<noteq> d - 1" "s - 3 \<noteq> d - 1" "s - 4 \<noteq> d - 1" "s - 3 \<noteq> d - 2" "s - 4 \<noteq> d - 2" "s - 4 \<noteq> d - 3"
    by (auto simp: algebra_simps)
  then have "copy_down m d s 4 = m(d - 1 := m (s - 1), d - 2 := m (s - 2), d - 3 := m (s - 3), d - 4 := m (s - 4))"
    by (simp add: numeral_eq_Suc diff_diff_eq)
  also have "\<dots> = m(d - 4 := m (s - 4), d - 3 := m (s - 3), d - 2 := m (s - 2), d - 1 := m (s - 1))"
    by (simp add: fun_eq_iff)
  also have "\<dots> = st32 m (d - 4) (ld32 m (s - 4))"
    by (simp add: st32_ld32)
  finally show ?thesis by simp
qed

lemma dvd4_sub: "4 dvd unat (a :: u32) \<Longrightarrow> 4 dvd unat (a - 4)"
  using dvd4_add [of a "- 4"] by simp

lemma movsl_down_eq:
  "4 dvd unat d \<Longrightarrow> 4 dvd unat s \<Longrightarrow> movsl_down m (d - 4) (s - 4) k = copy_down m d s (4 * k)"
proof (induction k arbitrary: m d s)
  case (Suc k)
  have "movsl_down m (d - 4) (s - 4) (Suc k) = copy_down (copy_down m d s 4) (d - 4) (s - 4) (4 * k)"
    using Suc.IH [OF dvd4_sub dvd4_sub, of d s] Suc.prems word_copy_down [of d s m] by simp
  then show ?case using copy_down_add [of m d s 4 "4 * k"] by simp
qed simp

lemma sint_mod4: "sint (x :: u32) mod 4 = 0 \<longleftrightarrow> 4 dvd unat x"
proof -
  have "sint x mod 4 = uint x mod 4"
  proof (cases "bit x 31")
    case True
    then have "uint x = sint x + 4 * 2 ^ 30" by (simp add: sint_u32)
    then show ?thesis by (metis mod_mult_self2)
  qed (simp add: sint_u32)
  moreover have "uint x = int (unat x)" by (fact uint_nat)
  ultimately have "sint x mod 4 = int (unat x) mod 4" by argo
  then show ?thesis by presburger
qed

lemma jos_memmove_eq: "jos_memmove m d s n = memmove m d s n"
proof -
  have n: "4 * (unat n div 4) = unat n" if "unat n mod 4 = 0" using that by auto
  show ?thesis
    by (auto simp: jos_memmove_def memmove_def Let_def sint_mod4 movsl_up_eq movsl_down_eq movsb_up_eq movsb_down_eq n)
qed

interpretation jos_move: block_move jos_memmove
  by unfold_locales (simp add: jos_memmove_eq memmove_moved)

lemma jos_memset_eq: "jos_memset m v c n = stosb m v (ucast c) (unat n)"
  using memset_eq_stosb [of m v c n] by (auto simp: jos_memset_def memset_def sint_mod4 dvd_eq_mod_eq_0)

end
