(* ===== verification/Jos_Printf.thy ===== *)
theory Jos_Printf
  imports Jos_String
begin

text \<open>
  Formatted output of the JOS tree: \<open>lib/printfmt.c\<close>, \<open>kern/printf.c\<close> and \<open>lib/readline.c\<close>. The characters that
  \<open>vprintfmt\<close> hands to \<open>putch\<close> are a list, in order. The list of arguments says of each whether it is a word, a
  \<open>long long\<close> or a pointer to a string (\<open>None\<close>: the null pointer); strings are lists of bytes without their
  terminator. Where C gives no meaning, the result is \<open>None\<close>: an argument that is missing or of the other kind,
  or a number in the format that does not fit an \<open>int\<close>.
\<close>

datatype varg = VInt u32 | VLong "64 word" | VStr "u8 list option"

definition MAXERROR :: int where "MAXERROR = 8"

definition error_string :: "int \<Rightarrow> u8 list option" where
  "error_string err =
     (if err = 1 then Some (str ''unspecified error'')
      else if err = 2 then Some (str ''bad environment'')
      else if err = 3 then Some (str ''invalid parameter'')
      else if err = 4 then Some (str ''out of memory'')
      else if err = 5 then Some (str ''out of environments'')
      else if err = 6 then Some (str ''segmentation fault'')
      else None)"

section \<open>Numbers\<close>

definition lower_digits :: "u8 list" where "lower_digits = str ''0123456789abcdef''"

text \<open>\<open>printnum\<close> is only called with base 8, 10 and 16.\<close>

function printnum :: "nat \<Rightarrow> nat \<Rightarrow> int \<Rightarrow> u8 \<Rightarrow> u8 list" where
  "printnum num base width padc =
     (if base \<le> num \<and> 2 \<le> base then printnum (num div base) base (width - 1) padc
      else replicate (nat (width - 1)) padc) @ [lower_digits ! (num mod base)]"
  by pat_completeness auto
termination
  by (relation "measure fst") (auto simp: div_less_dividend)

declare printnum.simps [simp del]

fun getuint :: "varg list \<Rightarrow> nat \<Rightarrow> (64 word \<times> varg list) option" where
  "getuint (VLong x # ap) lflag = (if 2 \<le> lflag then Some (x, ap) else None)"
| "getuint (VInt x # ap) lflag = (if 2 \<le> lflag then None else Some (ucast x, ap))"
| "getuint _ lflag = None"

fun getint :: "varg list \<Rightarrow> nat \<Rightarrow> (64 word \<times> varg list) option" where
  "getint (VLong x # ap) lflag = (if 2 \<le> lflag then Some (x, ap) else None)"
| "getint (VInt x # ap) lflag = (if 2 \<le> lflag then None else Some (scast x, ap))"
| "getint _ lflag = None"

section \<open>Directives\<close>

record pflags =
  padc :: u8
  width :: int
  precision :: int
  lflag :: nat
  altflag :: bool

text \<open>The loop over the digits of a width or precision, from the digit \<open>ch\<close> on.\<close>

fun read_width :: "int \<Rightarrow> u8 \<Rightarrow> u8 list \<Rightarrow> (int \<times> u8 list) option" where
  "read_width prec ch fmt =
     (if 2 ^ 31 \<le> prec * 10 + int (unat ch) then None
      else let prec = prec * 10 + int (unat ch) - 48
           in case fmt of
                [] \<Rightarrow> Some (prec, [])
              | c # fmt' \<Rightarrow> if 48 \<le> c \<and> c \<le> 57 then read_width prec c fmt' else Some (prec, fmt))"

definition process_precision :: "pflags \<Rightarrow> pflags" where
  "process_precision f = (if width f < 0 then f\<lparr>width := precision f, precision := - 1\<rparr> else f)"

declare read_width.simps [simp del]

lemma read_width_le: "read_width p c fmt = Some (q, rest) \<Longrightarrow> length rest \<le> length fmt"
proof (induction fmt arbitrary: p c)
  case Nil
  then show ?case by (simp add: read_width.simps [of p c] Let_def split: if_splits)
next
  case (Cons x fmt)
  then show ?case by (auto simp: read_width.simps [of p c] Let_def le_SucI split: if_splits)
qed

text \<open>
  The \<open>switch\<close> after a \<open>%\<close>, as long as it goes back to \<open>reswitch\<close>: flags, the character that ends the directive
  (0 at the end of the format), and what follows it.
\<close>

function directive :: "pflags \<Rightarrow> u8 list \<Rightarrow> varg list \<Rightarrow> (pflags \<times> u8 \<times> u8 list \<times> varg list) option" where
  "directive f [] ap = Some (f, 0, [], ap)"
| "directive f (ch # fmt) ap =
     (if ch = of_char CHR ''-'' then directive (f\<lparr>padc := of_char CHR ''-''\<rparr>) fmt ap
      else if ch = of_char CHR ''0'' then directive (f\<lparr>padc := of_char CHR ''0''\<rparr>) fmt ap
      else if 49 \<le> ch \<and> ch \<le> 57 then
        (case read_width 0 ch fmt of None \<Rightarrow> None
         | Some (p, fmt) \<Rightarrow> directive (process_precision (f\<lparr>precision := p\<rparr>)) fmt ap)
      else if ch = of_char CHR ''*'' then
        (case ap of VInt p # ap \<Rightarrow> directive (process_precision (f\<lparr>precision := sint p\<rparr>)) fmt ap
         | _ \<Rightarrow> None)
      else if ch = of_char CHR ''.'' then
        directive (if width f < 0 then f\<lparr>width := 0\<rparr> else f) fmt ap
      else if ch = of_char CHR ''#'' then directive (f\<lparr>altflag := True\<rparr>) fmt ap
      else if ch = of_char CHR ''l'' then directive (f\<lparr>lflag := lflag f + 1\<rparr>) fmt ap
      else Some (f, ch, fmt, ap))"
  by pat_completeness auto
termination
  by (relation "measure (\<lambda>(f, fmt, ap). length fmt)") (auto dest: read_width_le)

declare directive.simps(2) [simp del]

lemma directive_le: "directive f fmt ap = Some (g, c, rest, ap') \<Longrightarrow> length rest \<le> length fmt"
proof (induction "length fmt" arbitrary: f fmt ap rule: less_induct)
  case less
  show ?case
  proof (cases fmt)
    case Nil
    then show ?thesis using less.prems by simp
  next
    case (Cons ch r)
    have IH: "length rest \<le> Suc (length r)" if "directive f' r' ap'' = Some (g, c, rest, ap')" "length r' \<le> length r" for f' r' ap''
      using less.hyps [of r' f' ap''] that Cons by simp
    note IH0 = IH [of _ r]
    have w: "length rest \<le> Suc (length r)" if "(case read_width 0 ch r of None \<Rightarrow> None | Some (p, fmt) \<Rightarrow> directive (F p) fmt ap) = Some (g, c, rest, ap')" for F
      using that IH read_width_le [of 0 ch r] by (auto split: option.splits)
    have v: "length rest \<le> Suc (length r)" if "(case ap of VInt p # ap \<Rightarrow> directive (F p) r ap | _ \<Rightarrow> None) = Some (g, c, rest, ap')" for F
      using that IH0 by (auto split: list.splits varg.splits)
    show ?thesis
      using less.prems unfolding Cons directive.simps length_Cons
      by (simp only: split: if_split_asm) (erule IH0 [OF _ order_refl] | erule w | erule v | simp)+
  qed
qed

section \<open>Conversions\<close>

text \<open>\<open>%s\<close>: padding on the left, at most \<open>precision\<close> characters, and padding on the right with what is left of \<open>width\<close>.\<close>

definition fmt_string :: "pflags \<Rightarrow> u8 list option \<Rightarrow> u32 list" where
  "fmt_string f t =
     (let p = (case t of None \<Rightarrow> str ''(null)'' | Some p \<Rightarrow> p);
          n = (if precision f < 0 then length p else min (length p) (nat (precision f)));
          left = (0 < width f \<and> padc f \<noteq> of_char CHR ''-'');
          w = (if left then width f - int n else width f)
      in (if left then replicate (nat w) (scast (padc f)) else [])
         @ map (\<lambda>ch. if altflag f \<and> (sint ch < 32 \<or> 126 < sint ch) then of_char CHR ''?'' else scast ch) (take n p)
         @ replicate (nat ((if left then min w 0 else w) - int n)) 32)"

definition fmt_number :: "pflags \<Rightarrow> nat \<Rightarrow> 64 word \<Rightarrow> u32 list" where
  "fmt_number f base num = map scast (printnum (unat num) base (width f) (padc f))"

text \<open>
  \<open>pf\<close> is the call of \<open>printfmt\<close> that \<open>%e\<close> makes. The smallest number stays negative when its sign is changed, passes
  the check against \<open>MAXERROR\<close> and indexes the table out of its bounds: the result is then \<open>None\<close>.
\<close>

definition fmt_error :: "(u8 list \<Rightarrow> varg list \<Rightarrow> u32 list option) \<Rightarrow> u32 \<Rightarrow> u32 list option" where
  "fmt_error pf x =
     (if sint x = - (2 ^ 31) then None
      else let err = (if sint x < 0 then - sint x else sint x)
           in if MAXERROR \<le> err \<or> error_string err = None then pf (str ''error %d'') [VInt (of_int err)]
              else pf (str ''%s'') [VStr (error_string err)])"

definition convert ::
  "(u8 list \<Rightarrow> varg list \<Rightarrow> u32 list option) \<Rightarrow> pflags \<Rightarrow> u8 \<Rightarrow> varg list \<Rightarrow> (u32 list \<times> varg list) option" where
  "convert pf f ch ap =
     (if ch = of_char CHR ''c'' then (case ap of VInt x # ap \<Rightarrow> Some ([x], ap) | _ \<Rightarrow> None)
      else if ch = of_char CHR ''e'' then
        (case ap of VInt x # ap \<Rightarrow> map_option (\<lambda>out. (out, ap)) (fmt_error pf x) | _ \<Rightarrow> None)
      else if ch = of_char CHR ''s'' then
        (case ap of VStr t # ap \<Rightarrow> Some (fmt_string f t, ap) | _ \<Rightarrow> None)
      else if ch = of_char CHR ''d'' then
        map_option (\<lambda>(num, ap). (if sint num < 0 then of_char CHR ''-'' # fmt_number f 10 (- num) else fmt_number f 10 num, ap))
          (getint ap (lflag f))
      else if ch = of_char CHR ''u'' then map_option (\<lambda>(num, ap). (fmt_number f 10 num, ap)) (getuint ap (lflag f))
      else if ch = of_char CHR ''o'' then map_option (\<lambda>(num, ap). (fmt_number f 8 num, ap)) (getuint ap (lflag f))
      else if ch = of_char CHR ''p'' then
        (case ap of VInt x # ap \<Rightarrow> Some (of_char CHR ''0'' # of_char CHR ''x'' # fmt_number f 16 (ucast x), ap) | _ \<Rightarrow> None)
      else if ch = of_char CHR ''x'' then map_option (\<lambda>(num, ap). (fmt_number f 16 num, ap)) (getuint ap (lflag f))
      else Some ([ucast ch], ap))"

definition flags0 :: pflags where
  "flags0 = \<lparr>padc = 32, width = - 1, precision = - 1, lflag = 0, altflag = False\<rparr>"

text \<open>
  The main loop. A directive that is not recognised is printed literally: the \<open>%\<close>, and the format from the
  character after it on.
\<close>

function vprintfmt_loop ::
  "(u8 list \<Rightarrow> varg list \<Rightarrow> u32 list option) \<Rightarrow> u8 list \<Rightarrow> varg list \<Rightarrow> u32 list option" where
  "vprintfmt_loop pf [] ap = Some []"
| "vprintfmt_loop pf (ch # fmt) ap =
     (if ch \<noteq> of_char CHR ''%'' then map_option (\<lambda>out. ucast ch # out) (vprintfmt_loop pf fmt ap)
      else case directive flags0 fmt ap of
        None \<Rightarrow> None
      | Some (f, c, rest, ap) \<Rightarrow>
          if c \<in> set (str ''cesduopx%'') then
            (case convert pf f c ap of None \<Rightarrow> None
             | Some (out, ap) \<Rightarrow> map_option (\<lambda>out'. out @ out') (vprintfmt_loop pf rest ap))
          else map_option (\<lambda>out. of_char CHR ''%'' # out) (vprintfmt_loop pf fmt ap))"
  by pat_completeness auto
termination
  by (relation "measure (\<lambda>(pf, fmt, ap). length fmt)") (auto simp: less_Suc_eq_le simp del: str_simps dest: directive_le)

declare vprintfmt_loop.simps [simp del]

text \<open>\<open>%e\<close> calls \<open>printfmt\<close> with formats that do not contain \<open>%e\<close>, so the calls nest once.\<close>

fun vprintfmt_nested :: "nat \<Rightarrow> u8 list \<Rightarrow> varg list \<Rightarrow> u32 list option" where
  "vprintfmt_nested 0 = (\<lambda>fmt ap. None)"
| "vprintfmt_nested (Suc k) = vprintfmt_loop (vprintfmt_nested k)"

definition vprintfmt :: "u8 list \<Rightarrow> varg list \<Rightarrow> u32 list option" where
  "vprintfmt = vprintfmt_nested 2"

section \<open>Printing to a buffer\<close>

record sprintbuf =
  sb_buf :: u32
  sb_ebuf :: u32
  sb_cnt :: u32

fun sprintputch :: "mem \<times> sprintbuf \<Rightarrow> u32 \<Rightarrow> mem \<times> sprintbuf" where
  "sprintputch (m, b) ch =
     (let b = b\<lparr>sb_cnt := sb_cnt b + 1\<rparr>
      in if sb_buf b < sb_ebuf b then (m(sb_buf b := ucast ch), b\<lparr>sb_buf := sb_buf b + 1\<rparr>) else (m, b))"

definition vsnprintf :: "mem \<Rightarrow> u32 \<Rightarrow> u32 \<Rightarrow> u8 list \<Rightarrow> varg list \<Rightarrow> (mem \<times> u32) option" where
  "vsnprintf m buf n fmt ap =
     (if buf = 0 \<or> sint n < 1 then Some (m, - 3)
      else map_option
        (\<lambda>out. case foldl sprintputch (m, \<lparr>sb_buf = buf, sb_ebuf = buf + n - 1, sb_cnt = 0\<rparr>) out of
           (m', b) \<Rightarrow> (m'(sb_buf b := 0), sb_cnt b))
        (vprintfmt fmt ap))"

definition snprintf :: "mem \<Rightarrow> u32 \<Rightarrow> u32 \<Rightarrow> u8 list \<Rightarrow> varg list \<Rightarrow> (mem \<times> u32) option" where
  "snprintf m buf n fmt ap = vsnprintf m buf n fmt ap"

section \<open>Printing to the console\<close>

text \<open>
  \<open>putch\<close> of \<open>kern/printf.c\<close>: the statement \<open>*cnt++\<close> steps its own copy of the pointer and leaves the count alone.
\<close>

fun jos_putch :: "u32 list \<times> u32 \<Rightarrow> u32 \<Rightarrow> u32 list \<times> u32" where
  "jos_putch (screen, cnt) ch = (screen @ [ch], cnt)"

definition vcprintf :: "u8 list \<Rightarrow> varg list \<Rightarrow> (u32 list \<times> u32) option" where
  "vcprintf fmt ap = map_option (foldl jos_putch ([], 0)) (vprintfmt fmt ap)"

definition jos_cprintf :: "u8 list \<Rightarrow> varg list \<Rightarrow> (u32 list \<times> u32) option" where
  "jos_cprintf fmt ap = vcprintf fmt ap"

section \<open>Reading a line\<close>

text \<open>
  \<open>readline\<close> on what the calls of \<open>getchar\<close> return. The result is the line (\<open>Inr\<close>) or the null pointer (\<open>Inl\<close>), the
  characters it has put on the console, and the input that is left; \<open>None\<close> when the input ends before the line does.
\<close>

definition BUFLEN :: nat where "BUFLEN = 1024"

fun readline_loop :: "bool \<Rightarrow> u8 list \<Rightarrow> int list \<Rightarrow> ((unit + u8 list) \<times> u32 list \<times> int list) option" where
  "readline_loop echoing buf [] = None"
| "readline_loop echoing buf (c # inp) =
     (if c < 0 then
        map_option (\<lambda>(out, _). (Inl (), out, inp)) (jos_cprintf (str ''read error: %e'' @ [10]) [VInt (of_int c)])
      else if (c = 8 \<or> c = 127) \<and> buf \<noteq> [] then
        map_option (\<lambda>(r, out, inp). (r, (if echoing then [8] else []) @ out, inp)) (readline_loop echoing (butlast buf) inp)
      else if 32 \<le> c \<and> length buf < BUFLEN - 1 then
        map_option (\<lambda>(r, out, inp). (r, (if echoing then [of_int c] else []) @ out, inp))
          (readline_loop echoing (buf @ [of_int c]) inp)
      else if c = 10 \<or> c = 13 then Some (Inr buf, if echoing then [10] else [], inp)
      else readline_loop echoing buf inp)"

definition readline ::
  "u8 list option \<Rightarrow> bool \<Rightarrow> int list \<Rightarrow> ((unit + u8 list) \<times> u32 list \<times> int list) option" where
  "readline prompt iscons inp =
     (case (case prompt of None \<Rightarrow> Some ([], 0) | Some p \<Rightarrow> jos_cprintf (str ''%s'') [VStr (Some p)]) of
        None \<Rightarrow> None
      | Some (out, _) \<Rightarrow> map_option (\<lambda>(r, out', inp). (r, out @ out', inp)) (readline_loop iscons [] inp))"

end
