(* ===== verification/Jos_Props.thy ===== *)
theory Jos_Props
  imports Jos_Printf
begin

text \<open>
  Properties of the formatted output of the JOS tree: \<open>snprintf\<close> stays within its buffer, and \<open>strtol\<close> reads back the
  numbers it prints.
\<close>

section \<open>Numbers\<close>

lemma printnum_digits:
  "2 \<le> base \<Longrightarrow> printnum num base w pc =
     replicate (nat (w - int (length (rdigits base num)))) pc @ map (\<lambda>d. lower_digits ! d) (rev (rdigits base num))"
proof (induction base num arbitrary: w rule: rdigits.induct)
  case (1 base num)
  show ?case
  proof (cases "base \<le> num")
    case True
    then have nz: "num div base \<noteq> 0" using 1(2) by (simp add: div_eq_0_iff)
    have r: "rdigits base num = num mod base # rdigits base (num div base)"
      using nz 1(2) by (simp add: rdigits.simps [of base num])
    have "printnum num base w pc = printnum (num div base) base (w - 1) pc @ [lower_digits ! (num mod base)]"
      using True 1(2) by (simp add: printnum.simps [of num])
    moreover have "w - 1 - int (length (rdigits base (num div base))) = w - int (length (rdigits base num))" by (simp add: r)
    ultimately show ?thesis using 1(1) [of "w - 1"] nz 1(2) by (simp add: r)
  next
    case False
    then have "rdigits base num = [num mod base]" using 1(2) by (simp add: rdigits.simps [of base num])
    then show ?thesis using False by (simp add: printnum.simps [of num])
  qed
qed

lemma lower_digit_plain:
  assumes "d < 16"
  shows "lower_digits ! d \<notin> {0, 9, 32, 43, 45, 120} \<and> strtol_digit (lower_digits ! d) = Some (int d)
     \<and> ucast (scast (lower_digits ! d) :: u32) = lower_digits ! d"
proof -
  have "\<forall>d \<in> set [0..<16]. lower_digits ! d \<notin> {0, 9, 32, 43, 45, 120} \<and> strtol_digit (lower_digits ! d) = Some (int d)
     \<and> ucast (scast (lower_digits ! d) :: u32) = lower_digits ! d"
    by code_simp
  then show ?thesis using assms by simp
qed

lemma strtol_loop_digits:
  assumes "cstr m s (map (\<lambda>d. lower_digits ! d) ds)" and "set ds \<subseteq> {..<base}" and "base \<le> 16"
  shows "strtol_loop m s (int base) (of_nat v) =
    Some (s + of_nat (length ds), of_nat (foldl (\<lambda>n d. base * n + d) v ds))"
  using assms(1,2)
proof (induction ds arbitrary: s v)
  case Nil
  then show ?case by (subst strtol_loop.simps) (simp add: strtol_digit_def)
next
  case (Cons d ds)
  have d: "d < base" "strtol_digit (m s) = Some (int d)" "cstr m (s + 1) (map (\<lambda>d. lower_digits ! d) ds)"
    using Cons.prems assms(3) lower_digit_plain [of d] by auto
  have "strtol_loop m s (int base) (of_nat v) = strtol_loop m (s + 1) (int base) (of_nat (base * v + d))"
    using d by (subst strtol_loop.simps) (simp add: algebra_simps)
  also have "\<dots> = Some (s + 1 + of_nat (length ds), of_nat (foldl (\<lambda>n d. base * n + d) (base * v + d) ds))"
    by (rule Cons.IH) (use d Cons.prems in auto)
  finally show ?case by (simp add: algebra_simps)
qed

text \<open>A number in digits, with or without a minus sign, is read back as its value modulo \<open>2^32\<close>.\<close>

lemma strtol_rdigits:
  assumes "cstr m s ((if neg then [45] else []) @ map (\<lambda>d. lower_digits ! d) (rev (rdigits base num)))"
    and "2 \<le> base" and "base \<le> 16"
  shows "strtol m s (int base) = Some (s + of_nat ((if neg then 1 else 0) + length (rdigits base num)),
    if neg then - of_nat num else of_nat num)"
proof -
  define t where "t = (if neg then s + 1 else s)"
  let ?ds = "rev (rdigits base num)"
  have c: "cstr m t (map (\<lambda>d. lower_digits ! d) ?ds)" using assms(1) by (auto simp: t_def split: if_splits)
  have lt: "set ?ds \<subseteq> {..<base}" using rdigits_less [OF assms(2)] by auto
  obtain d ds where ds: "?ds = d # ds" by (metis rdigits_Nil rev_is_Nil_conv list.exhaust)
  have d: "m t = lower_digits ! d" "d < 16" using c lt ds assms(3) by auto
  have nx: "m (t + 1) \<noteq> 120"
  proof (cases ds)
    case Nil
    then show ?thesis using c ds by simp
  next
    case (Cons e es)
    then have "m (t + 1) = lower_digits ! e" "e < 16" using c lt ds assms(3) by auto
    then show ?thesis using lower_digit_plain [of e] by simp
  qed
  have pl: "m t \<noteq> 9" "m t \<noteq> 32" "m t \<noteq> 43" "m t \<noteq> 45" using d lower_digit_plain [of d] by simp_all
  have sg: "if neg then m s = 45 else m s = m t" using assms(1) by (cases neg) (simp_all add: t_def)
  have b: "strtol_blanks m s = Some s"
    using sg pl by (subst strtol_blanks.simps) (simp split: if_splits)
  have "strtol_prefix m t (int base) = (t, int base)" using nx assms(2) by (simp add: strtol_prefix_def)
  moreover have "strtol_loop m t (int base) (of_nat 0) = Some (t + of_nat (length ?ds), of_nat (foldl (\<lambda>n d. base * n + d) 0 ?ds))"
    by (rule strtol_loop_digits [OF c lt assms(3)])
  moreover have "foldl (\<lambda>n d. base * n + d) 0 ?ds = num" using assms(2) by (simp only: foldl_rvalue rvalue_rdigits)
  moreover have "m s = 45 \<longleftrightarrow> neg" using sg pl by (cases neg) auto
  moreover have "(if m s = 43 \<or> m s = 45 then s + 1 else s) = t" using sg pl t_def by (cases neg) auto
  ultimately have "strtol m s (int base) = Some (t + of_nat (length ?ds), if neg then - of_nat num else of_nat num)"
    using b by (simp add: strtol_def Let_def)
  then show ?thesis by (simp add: t_def)
qed

section \<open>The buffer\<close>

lemma sprintputch_fold:
  assumes "unat b + k < 2 ^ 32"
  shows "foldl sprintputch (m, \<lparr>sb_buf = b, sb_ebuf = b + of_nat k, sb_cnt = c\<rparr>) out =
    ((\<lambda>a. if unat (a - b) < min k (length out) then ucast (out ! unat (a - b)) else m a),
     \<lparr>sb_buf = b + of_nat (min k (length out)), sb_ebuf = b + of_nat k, sb_cnt = c + of_nat (length out)\<rparr>)"
  using assms
proof (induction out arbitrary: m b k c)
  case Nil
  then show ?case by simp
next
  case (Cons ch out)
  show ?case
  proof (cases k)
    case 0
    then show ?thesis using Cons.IH [of b 0 m "c + 1"] Cons.prems by (simp add: algebra_simps)
  next
    case (Suc j)
    have "unat (of_nat k :: u32) = k" using Cons.prems by (simp add: unat_of_nat)
    then have lt: "b < b + of_nat k" using Cons.prems Suc by (simp add: word_less_nat_alt unat_word_ariths)
    have e: "b + of_nat k = b + 1 + of_nat j" by (simp add: Suc algebra_simps)
    have b1: "unat (b + 1) = unat b + 1" using Cons.prems Suc by (simp add: unat_word_ariths)
    have IH: "foldl sprintputch (m(b := ucast ch), \<lparr>sb_buf = b + 1, sb_ebuf = b + 1 + of_nat j, sb_cnt = c + 1\<rparr>) out =
      ((\<lambda>a. if unat (a - (b + 1)) < min j (length out) then ucast (out ! unat (a - (b + 1))) else (m(b := ucast ch)) a),
       \<lparr>sb_buf = b + 1 + of_nat (min j (length out)), sb_ebuf = b + 1 + of_nat j, sb_cnt = c + 1 + of_nat (length out)\<rparr>)"
      by (rule Cons.IH) (use b1 Cons.prems Suc in simp)
    have fn: "(if unat (a - (b + 1)) < min j (length out) then ucast (out ! unat (a - (b + 1))) else (m(b := ucast ch)) a) =
      (if unat (a - b) < min k (length (ch # out)) then ucast ((ch # out) ! unat (a - b)) else m a)" for a
    proof (cases "a = b")
      case True
      have "min j (length out) < 2 ^ 32" using Cons.prems Suc by simp
      then show ?thesis using range_first [of "min j (length out)" b] True Suc by auto
    next
      case False
      have "a - (b + 1) = (a - b) - 1" by simp
      then have "unat (a - b) = Suc (unat (a - (b + 1)))"
        using False unat_minus_1_nz [of "a - b"] unat_eq_zero [of "a - b"] by (metis Suc_pred neq0_conv diff_add_cancel add_0 right_minus_eq One_nat_def)
      then show ?thesis using False Suc by simp
    qed
    have st: "foldl sprintputch (m, \<lparr>sb_buf = b, sb_ebuf = b + of_nat k, sb_cnt = c\<rparr>) (ch # out) =
      foldl sprintputch (m(b := ucast ch), \<lparr>sb_buf = b + 1, sb_ebuf = b + 1 + of_nat j, sb_cnt = c + 1\<rparr>) out"
      using lt by (simp add: e)
    show ?thesis unfolding st IH fn by (simp add: Suc)
  qed
qed


lemma vsnprintf_buffer:
  assumes out: "vprintfmt fmt ap = Some out" and "buf \<noteq> 0" and "1 \<le> sint n" and "unat buf + unat n \<le> 2 ^ 32"
  defines "k \<equiv> min (unat n - 1) (length out)"
  shows "vsnprintf m buf n fmt ap =
    Some ((\<lambda>a. if unat (a - buf) < k then ucast (out ! unat (a - buf)) else if unat (a - buf) = k then 0 else m a),
      of_nat (length out))"
proof -
  have n1: "1 \<le> unat n" using assms(3) by (metis Suc_leI One_nat_def unat_gt_0 signed_0 not_one_le_zero)
  have e: "buf + n - 1 = buf + of_nat (unat n - 1)" using n1 by (simp add: of_nat_diff)
  have k: "k < 2 ^ 32" using unat32_less [of n] n1 by (simp add: k_def)
  have ku: "unat (of_nat k :: u32) = k" using k by (simp add: unat_of_nat)
  have eq: "a = buf + of_nat k \<longleftrightarrow> unat (a - buf) = k" for a
    using ku by (metis add_diff_cancel_left' diff_add_cancel add.commute word_unat_eq_iff)
  have "foldl sprintputch (m, \<lparr>sb_buf = buf, sb_ebuf = buf + of_nat (unat n - 1), sb_cnt = 0\<rparr>) out =
    ((\<lambda>a. if unat (a - buf) < k then ucast (out ! unat (a - buf)) else m a),
     \<lparr>sb_buf = buf + of_nat k, sb_ebuf = buf + of_nat (unat n - 1), sb_cnt = 0 + of_nat (length out)\<rparr>)"
    unfolding k_def by (rule sprintputch_fold) (use n1 assms(4) in simp)
  then show ?thesis
    using assms(2,3) out unfolding vsnprintf_def e by (auto simp: fun_eq_iff eq)
qed

lemma cstr_from:
  assumes "\<And>i. i < length xs \<Longrightarrow> m (s + of_nat i) = xs ! i" and "m (s + of_nat (length xs)) = 0" and "0 \<notin> set xs"
  shows "cstr m s xs"
  using assms
proof (induction xs arbitrary: s)
  case (Cons x xs)
  have "cstr m (s + 1) xs"
    by (rule Cons.IH) (use Cons.prems(1) [of "Suc _"] Cons.prems(2,3) in \<open>simp_all add: algebra_simps\<close>)
  then show ?case using Cons.prems(1) [of 0] Cons.prems(3) by auto
qed simp

lemma snprintf_cstr:
  assumes "vprintfmt fmt ap = Some (map scast tt)" and "0 \<notin> set tt" and "\<And>c. c \<in> set tt \<Longrightarrow> ucast (scast c :: u32) = c"
    and "buf \<noteq> 0" and "int (length tt) < sint n" and "unat buf + unat n \<le> 2 ^ 32"
  shows "\<exists>m'. snprintf m buf n fmt ap = Some (m', of_nat (length tt)) \<and> cstr m' buf tt"
proof -
  have n: "length tt < unat n" using assms(5) unat_nonneg [of n] by linarith
  then have l: "length tt < 2 ^ 32" using unat32_less [of n] by linarith
  let ?m = "\<lambda>a. if unat (a - buf) < length tt then ucast (map scast tt ! unat (a - buf) :: u32) else if unat (a - buf) = length tt then 0 else m a"
  have k: "min (unat n - 1) (length (map scast tt :: u32 list)) = length tt" using n by simp
  have "vsnprintf m buf n fmt ap = Some (?m, of_nat (length tt))"
    using vsnprintf_buffer [OF assms(1,4) _ assms(6), of m, unfolded k] assms(5) by simp
  moreover have "cstr ?m buf tt"
    by (rule cstr_from) (use l assms(2,3) in \<open>simp_all add: unat_of_nat\<close>)
  ultimately show ?thesis by (auto simp: snprintf_def)
qed


section \<open>One number\<close>

lemma vprintfmt_one:
  assumes "c \<in> set (str ''duox'')"
  shows "vprintfmt [37, c] [VInt x] = map_option fst (convert (vprintfmt_nested 1) flags0 c [VInt x])"
proof -
  have d: "directive flags0 [c] ap = Some (flags0, c, [], ap)" for ap
    using assms by (auto simp: directive.simps(2))
  have "c \<in> set (str ''cesduopx%'')" using assms by auto
  then show ?thesis
    by (simp add: vprintfmt_def numeral_2_eq_2 vprintfmt_loop.simps d del: str_simps split: option.splits)
qed

lemma minus_scast64:
  assumes "sint (x :: u32) < 0"
  shows "sint (scast x :: 64 word) < 0" and "unat (- (scast x :: 64 word)) = nat (- sint x)"
proof -
  have s: "sint (scast x :: 64 word) = sint x" by (simp add: sint_up_scast is_up)
  then show "sint (scast x :: 64 word) < 0" using assms by simp
  have e: "- (scast x :: 64 word) = word_of_int (- sint x)" by simp
  have "0 \<le> - sint x" "- sint x < 2 ^ 64" using assms sint_ge [of x] by auto
  then have "uint (- (scast x :: 64 word)) = - sint x"
    unfolding e uint_word_of_int_eq by (intro take_bit_int_eq_self) simp_all
  moreover have "unat (- (scast x :: 64 word)) = nat (uint (- (scast x :: 64 word)))" by (simp only: uint_nat nat_int)
  ultimately show "unat (- (scast x :: 64 word)) = nat (- sint x)" by argo
qed

text \<open>The text of a number: a minus sign for \<open>%d\<close> and a negative number, then the digits.\<close>

lemma vprintfmt_number:
  fixes x :: u32
  assumes "(c, base) \<in> {(CHR ''d'', 10), (CHR ''u'', 10), (CHR ''o'', 8), (CHR ''x'', 16)}"
  defines "neg \<equiv> c = CHR ''d'' \<and> sint x < 0"
  defines "v \<equiv> if neg then nat (- sint x) else unat x"
  shows "vprintfmt (str [CHR ''%'', c]) [VInt x] =
    Some (map scast ((if neg then [45] else []) @ map (\<lambda>d. lower_digits ! d) (rev (rdigits base v))))"
proof -
  have w: "width flags0 = - 1" "lflag flags0 = 0" by (simp_all add: flags0_def)
  have num: "fmt_number flags0 base num = map scast (map (\<lambda>d. lower_digits ! d) (rev (rdigits base (unat num))))" for num
    using assms(1) printnum_digits [of base "unat num" "- 1" "padc flags0"] by (auto simp: fmt_number_def w)
  have u: "unat (ucast x :: 64 word) = unat x" 
    using unat32_less [of x] by (simp add: unsigned_ucast_eq take_bit_nat_eq_self)
  have "str [CHR ''%'', c] = [37, of_char c]" "of_char c \<in> set (str ''duox'')" using assms(1) by auto
  note f = this(1) vprintfmt_one [OF this(2), of x]
  consider "c = CHR ''d''" "neg" | "c = CHR ''d''" "\<not> neg" | "c \<noteq> CHR ''d''" by blast
  then show ?thesis
  proof cases
    case 1
    then have n: "sint x < 0" by (simp add: neg_def)
    show ?thesis unfolding f using 1 assms(1) num minus_scast64 [OF n] by (simp add: convert_def w v_def)
  next
    case 2
    then have n: "\<not> sint x < 0" by (simp add: neg_def)
    moreover have "\<not> sint (scast x :: 64 word) < 0" using n by (simp add: sint_up_scast is_up)
    moreover have "scast x = (ucast x :: 64 word)"
      using unat_nonneg [OF n] by (metis of_int_of_nat_eq of_int_sint of_nat_unat)
    ultimately show ?thesis unfolding f using 2 assms(1) num u by (simp add: convert_def w v_def)
  next
    case 3
    then show ?thesis unfolding f using assms(1) num u by (auto simp: convert_def w v_def neg_def)
  qed
qed

section \<open>Properties\<close>

text \<open>
  C21. \<open>snprintf\<close> never writes outside its buffer: of what the format prints it stores as much as leaves room for the
  NUL byte, the NUL byte after it, and nothing else, and it returns the length of the whole output. Without a buffer
  or with a size below 1 it returns \<open>-E_INVAL\<close> and stores nothing.
\<close>

theorem snprintf_bounded:
  assumes "buf \<noteq> 0 \<Longrightarrow> 1 \<le> sint n \<Longrightarrow> unat buf + unat n \<le> 2 ^ 32" and "vprintfmt fmt ap = Some out"
  shows "snprintf m buf n fmt ap =
    (if buf = 0 \<or> sint n < 1 then Some (m, - 3)
     else let k = min (unat n - 1) (length out)
          in Some ((\<lambda>a. let i = unat (a - buf) in if i < k then ucast (out ! i) else if i = k then 0 else m a),
                   of_nat (length out)))"
proof (cases "buf = 0 \<or> sint n < 1")
  case True
  then show ?thesis by (simp add: snprintf_def vsnprintf_def)
next
  case False
  then have b: "buf \<noteq> 0" "1 \<le> sint n" "unat buf + unat n \<le> 2 ^ 32" using assms(1) by auto
  show ?thesis unfolding snprintf_def vsnprintf_buffer [OF assms(2) b] Let_def if_not_P [OF False] by (rule refl)
qed

lemma snprintf_bounded_witness:
  "snprintf (\<lambda>_. 7) 100 3 (str ''%x'') [VInt 4660] =
    Some ((\<lambda>a. let i = unat (a - 100) in if i < 2 then ucast ([49, 50, 51, 52 :: u32] ! i) else if i = 2 then 0 else 7), 4)"
proof -
  have "rdigits 16 4660 = [4, 3, 2, 1]" by (simp add: rdigits.simps)
  then have "vprintfmt (str ''%x'') [VInt 4660] = Some [49, 50, 51, 52]"
    using vprintfmt_number [of "CHR ''x''" 16 4660] by (simp add: lower_digits_def)
  then show ?thesis
    using snprintf_bounded [of 100 3 "str ''%x''" "[VInt 4660]" "[49, 50, 51, 52]" "\<lambda>_. 7"]
    by (simp del: str_simps add: Let_def) (simp only: numeral_2_eq_2)
qed

text \<open>
  C20. \<open>strtol\<close> reads back what \<open>snprintf\<close> prints, in each of the number formats and for every 32-bit value: the
  same value, with the end pointer at the end of the text.
\<close>

theorem snprintf_strtol:
  assumes "(c, base) \<in> {(CHR ''d'', 10), (CHR ''u'', 10), (CHR ''o'', 8), (CHR ''x'', 16)}"
    and "buf \<noteq> 0" and "12 \<le> sint n" and "unat buf + unat n \<le> 2 ^ 32"
  shows "\<exists>m' k. snprintf m buf n (str [CHR ''%'', c]) [VInt x] = Some (m', k) \<and> strtol m' buf (int base) = Some (buf + k, x)"
proof -
  define neg where "neg = (c = CHR ''d'' \<and> sint x < 0)"
  define v where "v = (if neg then nat (- sint x) else unat x)"
  define tt where "tt = (if neg then [45] else []) @ map (\<lambda>d. lower_digits ! d) (rev (rdigits base v))"
  have b: "2 \<le> base" "base \<le> 16" using assms(1) by auto
  have out: "vprintfmt (str [CHR ''%'', c]) [VInt x] = Some (map scast tt)"
    unfolding tt_def v_def neg_def by (rule vprintfmt_number [OF assms(1)])
  have plain: "ch \<noteq> 0 \<and> ucast (scast ch :: u32) = ch" if "ch \<in> set tt" for ch
    using that rdigits_less [OF b(1)] lower_digit_plain b(2) by (fastforce simp: tt_def split: if_splits)
  have v: "v < 8 ^ Suc 10" "neg \<Longrightarrow> base = 10 \<and> v < 10 ^ Suc 9"
    using unat32_less [of x] sint_ge [of x] assms(1) by (auto simp: v_def neg_def)
  have "length tt \<le> 11"
  proof (cases neg)
    case True
    then show ?thesis using v(2) length_rdigits [of 10 v 9] by (simp add: tt_def)
  next
    case False
    have "(8 :: nat) ^ Suc 10 \<le> base ^ Suc 10" using assms(1) by (intro power_mono) auto
    then have "length (rdigits base v) \<le> Suc 10" using v(1) b(1) by (intro length_rdigits) linarith+
    then show ?thesis using False by (simp add: tt_def)
  qed
  then obtain m' where m': "snprintf m buf n (str [CHR ''%'', c]) [VInt x] = Some (m', of_nat (length tt))" "cstr m' buf tt"
    using snprintf_cstr [OF out _ _ assms(2) _ assms(4), of m] plain assms(3) by (auto simp del: str_simps)
  have "(if neg then - of_nat v else of_nat v) = x"
    by (auto simp: v_def neg_def simp flip: of_int_minus)
  then have "strtol m' buf (int base) = Some (buf + of_nat (length tt), x)"
    using strtol_rdigits [OF m'(2) [unfolded tt_def] b] by (simp add: tt_def split: if_splits)
  with m'(1) show ?thesis by blast
qed

lemma snprintf_strtol_witness:
  "\<exists>m' k. snprintf (\<lambda>_. 7) 100 12 (str ''%d'') [VInt 2147483648] = Some (m', k) \<and> strtol m' 100 10 = Some (100 + k, 2147483648)"
  using snprintf_strtol [of "CHR ''d''" 10 100 12 "\<lambda>_. 7" 2147483648] by simp

end
