(* ===== verification/Jos_Console.thy ===== *)
theory Jos_Console
  imports Kbd Jos_Printf
begin

text \<open>
  The console of the JOS kernel (\<open>kern/console.c\<close>): screen, serial and parallel port, keyboard, and the buffer of input
  characters. Every \<open>outb\<close> is recorded, in order. The polling loops before an output only wait. What the
  devices deliver is an argument: the bytes that wait at the serial port and the scan codes at the keyboard.
\<close>

section \<open>State\<close>

record jcons =
  j_outb :: "(u16 \<times> u8) list"
  j_serial_exists :: bool
  j_addr_6845 :: u16
  j_crt_buf :: "nat \<Rightarrow> u16"
  j_crt_pos :: u16
  j_shift :: u32
  j_buf :: "u8 list"
  j_rpos :: u32
  j_wpos :: u32

definition CRT_COLS :: nat where "CRT_COLS = 80"
definition CRT_SIZE :: nat where "CRT_SIZE = 25 * 80"
definition CONSBUFSIZE :: nat where "CONSBUFSIZE = 512"
definition COM1 :: u16 where "COM1 = 0x3F8"

definition jos_outb :: "u16 \<Rightarrow> u8 \<Rightarrow> jcons \<Rightarrow> jcons" where
  "jos_outb port v s = s\<lparr>j_outb := j_outb s @ [(port, v)]\<rparr>"

section \<open>Output\<close>

definition serial_putc :: "u32 \<Rightarrow> jcons \<Rightarrow> jcons" where
  "serial_putc c s = jos_outb COM1 (ucast c) s"

definition lpt_putc :: "u32 \<Rightarrow> jcons \<Rightarrow> jcons" where
  "lpt_putc c s = jos_outb (0x378 + 2) 0x08 (jos_outb (0x378 + 2) (0x08 OR 0x04 OR 0x01) (jos_outb 0x378 (ucast c) s))"

text \<open>The \<open>switch\<close> of \<open>cga_putc\<close>; \<open>tab\<close> is the call of \<open>cons_putc\<close> for a tabulator.\<close>

definition cga_char :: "(u32 \<Rightarrow> jcons \<Rightarrow> jcons) \<Rightarrow> u32 \<Rightarrow> jcons \<Rightarrow> jcons" where
  "cga_char tab c s =
     (if c AND 0xff = 8 then
        if 0 < j_crt_pos s then
          s\<lparr>j_crt_pos := j_crt_pos s - 1,
            j_crt_buf := (j_crt_buf s)(unat (j_crt_pos s - 1) := ucast (c AND NOT 0xff) OR 32)\<rparr>
        else s
      else if c AND 0xff = 10 then
        (let pos = j_crt_pos s + of_nat CRT_COLS in s\<lparr>j_crt_pos := pos - pos mod of_nat CRT_COLS\<rparr>)
      else if c AND 0xff = 13 then s\<lparr>j_crt_pos := j_crt_pos s - j_crt_pos s mod of_nat CRT_COLS\<rparr>
      else if c AND 0xff = 9 then ((tab 32) ^^ 5) s
      else s\<lparr>j_crt_buf := (j_crt_buf s)(unat (j_crt_pos s) := ucast c), j_crt_pos := j_crt_pos s + 1\<rparr>)"

text \<open>One line up when the cursor is below the last line.\<close>

definition cga_scroll :: "jcons \<Rightarrow> jcons" where
  "cga_scroll s =
     (if CRT_SIZE \<le> unat (j_crt_pos s) then
        s\<lparr>j_crt_buf := (\<lambda>i. if i < CRT_SIZE - CRT_COLS then j_crt_buf s (i + CRT_COLS)
                          else if i < CRT_SIZE then 0x0700 OR 32 else j_crt_buf s i),
          j_crt_pos := j_crt_pos s - of_nat CRT_COLS\<rparr>
      else s)"

definition cga_cursor :: "jcons \<Rightarrow> jcons" where
  "cga_cursor s =
     (let a = j_addr_6845 s; pos = j_crt_pos s
      in jos_outb (a + 1) (ucast pos) (jos_outb a 15 (jos_outb (a + 1) (ucast (drop_bit 8 pos)) (jos_outb a 14 s))))"

definition cga_putc_with :: "(u32 \<Rightarrow> jcons \<Rightarrow> jcons) \<Rightarrow> u32 \<Rightarrow> jcons \<Rightarrow> jcons" where
  "cga_putc_with tab c s =
     (let c = (if c AND NOT 0xFF = 0 then c OR 0x0700 else c) in cga_cursor (cga_scroll (cga_char tab c s)))"

text \<open>A tabulator calls \<open>cons_putc\<close> with blanks, which do not call it again.\<close>

definition cons_putc_blank :: "u32 \<Rightarrow> jcons \<Rightarrow> jcons" where
  "cons_putc_blank c s = cga_putc_with (\<lambda>_ s. s) c (lpt_putc c (serial_putc c s))"

definition cga_putc :: "u32 \<Rightarrow> jcons \<Rightarrow> jcons" where
  "cga_putc = cga_putc_with cons_putc_blank"

definition cons_putc :: "u32 \<Rightarrow> jcons \<Rightarrow> jcons" where
  "cons_putc c s = cga_putc c (lpt_putc c (serial_putc c s))"

definition cputchar :: "u32 \<Rightarrow> jcons \<Rightarrow> jcons" where
  "cputchar c s = cons_putc c s"

text \<open>\<open>cprintf\<close> of a format without directives.\<close>

definition cons_print :: "u8 list \<Rightarrow> jcons \<Rightarrow> jcons" where
  "cons_print fmt s = fold (\<lambda>ch. cputchar (ucast ch)) fmt s"

section \<open>Keyboard and serial input\<close>

definition jos_special :: "(nat \<times> u8) list" where
  "jos_special = [(0xC8, 0xE2), (0xC9, 0xE6), (0xCB, 0xE4), (0xCD, 0xE5), (0xCF, 0xE1), (0xD0, 0xE3), (0xD1, 0xE7),
     (0xD2, 0xE8), (0xD3, 0xE9)]"

text \<open>The rows of the tables are those of xv6; the keys by position differ.\<close>

definition jos_normalmap :: "u8 \<Rightarrow> u8" where
  "jos_normalmap = key_table normal_rows ([(0xC7, 0xE0), (0x9C, 10), (0xB5, 47)] @ jos_special)"

definition jos_shiftmap :: "u8 \<Rightarrow> u8" where
  "jos_shiftmap = key_table shift_rows ([(0xC7, 0xE0), (0x9C, 10), (0xB5, 47)] @ jos_special)"

definition jos_ctlmap :: "u8 \<Rightarrow> u8" where
  "jos_ctlmap = key_table ctl_rows ([(0x97, 0xE0), (0xB5, 47 - 64)] @ jos_special)"

definition jos_charcode :: "u32 \<Rightarrow> u8 \<Rightarrow> u8" where
  "jos_charcode i = (if i = 0 then jos_normalmap else if i = 1 then jos_shiftmap else jos_ctlmap)"

definition KEY_DEL :: u8 where "KEY_DEL = 0xE9"

text \<open>\<open>kbd_proc_data\<close>, for the scan code at the controller (\<open>None\<close>: the status says that there is none).\<close>

definition kbd_proc_data :: "u8 option \<Rightarrow> jcons \<Rightarrow> int \<times> jcons" where
  "kbd_proc_data port s =
     (case port of None \<Rightarrow> (- 1, s)
      | Some data \<Rightarrow>
          let shift = j_shift s
          in if data = 0xE0 then (0, s\<lparr>j_shift := shift OR E0ESC\<rparr>)
             else if data AND 0x80 \<noteq> 0 then
               (let data = (if shift AND E0ESC \<noteq> 0 then data else data AND 0x7F)
                in (0, s\<lparr>j_shift := shift AND NOT (shiftcode data OR E0ESC)\<rparr>))
             else
               (case (if shift AND E0ESC \<noteq> 0 then key_down jos_charcode (shift AND NOT E0ESC) (data OR 0x80)
                      else key_down jos_charcode shift data) of
                  (c, shift) \<Rightarrow>
                    (let s = s\<lparr>j_shift := shift\<rparr>
                     in (int (unat c),
                         if NOT shift AND (CTL OR ALT) = 0 \<and> c = KEY_DEL then
                           jos_outb 0x92 3 (cons_print (str ''Rebooting!'' @ [10]) s)
                         else s))))"

text \<open>A character for the buffer; 0 stands for none.\<close>

definition cons_store :: "int \<Rightarrow> jcons \<Rightarrow> jcons" where
  "cons_store c s =
     (if c = 0 then s
      else let w = j_wpos s + 1
           in s\<lparr>j_buf := (j_buf s)[unat (j_wpos s) := of_int c], j_wpos := (if w = of_nat CONSBUFSIZE then 0 else w)\<rparr>)"

text \<open>\<open>cons_intr\<close> with each of the two routines it is called with, until that routine answers -1.\<close>

definition serial_intr :: "u8 list \<Rightarrow> jcons \<Rightarrow> jcons" where
  "serial_intr bytes s = (if j_serial_exists s then fold (\<lambda>b. cons_store (int (unat b))) bytes s else s)"

definition kbd_intr :: "u8 list \<Rightarrow> jcons \<Rightarrow> jcons" where
  "kbd_intr codes s = fold (\<lambda>d s. case kbd_proc_data (Some d) s of (c, s) \<Rightarrow> cons_store c s) codes s"

definition cons_getc :: "u8 list \<Rightarrow> u8 list \<Rightarrow> jcons \<Rightarrow> u32 \<times> jcons" where
  "cons_getc bytes codes s =
     (let s = kbd_intr codes (serial_intr bytes s)
      in if j_rpos s \<noteq> j_wpos s then
           (let r = j_rpos s + 1
            in (ucast (j_buf s ! unat (j_rpos s)), s\<lparr>j_rpos := (if r = of_nat CONSBUFSIZE then 0 else r)\<rparr>))
         else (0, s))"

text \<open>\<open>getchar\<close>: what arrives at each of its polls is a list; \<open>None\<close> when it is still waiting at its end.\<close>

fun getchar :: "(u8 list \<times> u8 list) list \<Rightarrow> jcons \<Rightarrow> (u32 \<times> jcons) option" where
  "getchar [] s = None"
| "getchar ((bytes, codes) # polls) s =
     (case cons_getc bytes codes s of (c, s) \<Rightarrow> if c = 0 then getchar polls s else Some (c, s))"

definition iscons :: "u32 \<Rightarrow> u32" where "iscons fdnum = 1"

section \<open>Initialisation\<close>

text \<open>
  The probe for the colour display: \<open>cga\<close> and \<open>mda\<close> are the cells of the two screens, \<open>back\<close> is what the first cell of
  the colour screen reads after \<open>0xA55A\<close> was written to it, and \<open>hi\<close> and \<open>lo\<close> are the registers of the controller that
  hold the cursor position. A colour screen gets its first cell back.
\<close>

definition cga_init :: "(nat \<Rightarrow> u16) \<Rightarrow> (nat \<Rightarrow> u16) \<Rightarrow> u16 \<Rightarrow> u8 \<Rightarrow> u8 \<Rightarrow> jcons \<Rightarrow> jcons" where
  "cga_init cga mda back hi lo s =
     (let was = cga 0; cga = cga(0 := 0xA55A);
          (cp, a) = (if back \<noteq> 0xA55A then (mda, 0x3B4) else (cga(0 := was), 0x3D4));
          pos = push_bit 8 (ucast hi) OR ucast lo
      in (jos_outb a 15 (jos_outb a 14 (s\<lparr>j_addr_6845 := a\<rparr>)))\<lparr>j_crt_buf := cp, j_crt_pos := pos\<rparr>)"

definition serial_init :: "u8 \<Rightarrow> jcons \<Rightarrow> jcons" where
  "serial_init lsr s =
     (fold (\<lambda>(port, v). jos_outb port v)
        [(COM1 + 2, 0), (COM1 + 3, 0x80), (COM1, 12), (COM1 + 1, 0), (COM1 + 3, 3), (COM1 + 4, 0), (COM1 + 1, 1)] s)
     \<lparr>j_serial_exists := lsr \<noteq> 0xFF\<rparr>"

definition cons_init :: "(nat \<Rightarrow> u16) \<Rightarrow> (nat \<Rightarrow> u16) \<Rightarrow> u16 \<Rightarrow> u8 \<Rightarrow> u8 \<Rightarrow> u8 \<Rightarrow> jcons \<Rightarrow> jcons" where
  "cons_init cga mda back hi lo lsr s =
     (let s = serial_init lsr (cga_init cga mda back hi lo s)
      in if \<not> j_serial_exists s then cons_print (str ''Serial port does not exist!'' @ [10]) s else s)"

section \<open>Well-formed states\<close>

definition jcons_ok :: "jcons \<Rightarrow> bool" where
  "jcons_ok s \<longleftrightarrow> unat (j_crt_pos s) < CRT_SIZE \<and> length (j_buf s) = CONSBUFSIZE
     \<and> unat (j_rpos s) < CONSBUFSIZE \<and> unat (j_wpos s) < CONSBUFSIZE"

lemmas jcons_defs = jcons_ok_def CRT_SIZE_def CRT_COLS_def CONSBUFSIZE_def

lemma jos_outb_ok [simp]: "jcons_ok (jos_outb p v s) = jcons_ok s" "j_crt_buf (jos_outb p v s) = j_crt_buf s"
  "j_crt_pos (jos_outb p v s) = j_crt_pos s" "j_buf (jos_outb p v s) = j_buf s"
  "j_rpos (jos_outb p v s) = j_rpos s" "j_wpos (jos_outb p v s) = j_wpos s"
  by (simp_all add: jos_outb_def jcons_ok_def)

lemma unat16_add: "unat (x :: u16) + unat y < 65536 \<Longrightarrow> unat (x + y) = unat x + unat y"
  by (simp add: unat_word_ariths)

lemma unat16_sub: "unat (y :: u16) \<le> unat x \<Longrightarrow> unat (x - y) = unat x - unat y"
  by (simp add: unat_sub word_le_nat_alt)

lemma unat16_mod: "unat (x mod y :: u16) = unat x mod unat y"
  by (simp add: unat_mod)

text \<open>What the \<open>switch\<close> may leave behind, before the screen is scrolled: a cursor at most one line too low.\<close>

definition near_ok :: "(nat \<Rightarrow> u16) \<Rightarrow> jcons \<Rightarrow> bool" where
  "near_ok b s \<longleftrightarrow> unat (j_crt_pos s) < CRT_SIZE + CRT_COLS \<and> length (j_buf s) = CONSBUFSIZE
     \<and> unat (j_rpos s) < CONSBUFSIZE \<and> unat (j_wpos s) < CONSBUFSIZE \<and> (\<forall>i \<ge> CRT_SIZE. j_crt_buf s i = b i)"

lemma near_ok_scroll:
  "near_ok b s \<Longrightarrow> jcons_ok (cga_cursor (cga_scroll s)) \<and> (\<forall>i \<ge> CRT_SIZE. j_crt_buf (cga_cursor (cga_scroll s)) i = b i)"
  using unat16_sub [of 80 "j_crt_pos s"]
  by (auto simp: near_ok_def cga_cursor_def Let_def cga_scroll_def jcons_defs)

lemma cga_char_near:
  assumes "jcons_ok s" and "\<forall>i \<ge> CRT_SIZE. j_crt_buf s i = b i"
    and tab: "\<And>s. jcons_ok s \<and> (\<forall>i \<ge> CRT_SIZE. j_crt_buf s i = b i) \<Longrightarrow>
      jcons_ok (tab 32 s) \<and> (\<forall>i \<ge> CRT_SIZE. j_crt_buf (tab 32 s) i = b i)"
  shows "near_ok b (cga_char tab c s)"
proof -
  have p: "unat (j_crt_pos s) < 2000" using assms(1) by (simp add: jcons_defs)
  have "unat (j_crt_pos s + 80 - (j_crt_pos s + 80) mod 80) < 2080"
    using p unat16_add [of "j_crt_pos s" 80] unat16_sub [of "(j_crt_pos s + 80) mod 80" "j_crt_pos s + 80"] by (simp add: unat16_mod)
  moreover have "unat (j_crt_pos s - j_crt_pos s mod 80) < 2080"
    using p unat16_sub [of "j_crt_pos s mod 80" "j_crt_pos s"] by (simp add: unat16_mod)
  moreover have "unat (j_crt_pos s + 1) < 2080" using p unat16_add [of "j_crt_pos s" 1] by simp
  moreover have "unat (j_crt_pos s - 1) < 2000" if "0 < j_crt_pos s"
    using p that unat16_sub [of 1 "j_crt_pos s"] by (simp add: word_less_nat_alt)
  moreover have "near_ok b ((tab 32 ^^ 5) s)"
  proof -
    have "jcons_ok ((tab 32 ^^ n) s) \<and> (\<forall>i \<ge> CRT_SIZE. j_crt_buf ((tab 32 ^^ n) s) i = b i)" for n
      using assms(1,2) tab by (induction n) simp_all
    from this [of 5] show ?thesis unfolding near_ok_def jcons_defs by auto
  qed
  ultimately show ?thesis
    using assms(1,2) p unfolding cga_char_def Let_def
    by (simp split: if_split) (simp add: near_ok_def jcons_defs, intro impI conjI, simp_all)
qed


text \<open>Output keeps the state well-formed and touches no memory beyond the screen.\<close>

definition keeps :: "(jcons \<Rightarrow> jcons) \<Rightarrow> bool" where
  "keeps f \<longleftrightarrow> (\<forall>s. jcons_ok s \<longrightarrow> jcons_ok (f s) \<and> (\<forall>i \<ge> CRT_SIZE. j_crt_buf (f s) i = j_crt_buf s i))"

lemma keepsD: "keeps f \<Longrightarrow> jcons_ok s \<Longrightarrow> jcons_ok (f s)"
  and keepsD2: "keeps f \<Longrightarrow> jcons_ok s \<Longrightarrow> CRT_SIZE \<le> i \<Longrightarrow> j_crt_buf (f s) i = j_crt_buf s i"
  by (auto simp: keeps_def)

lemma keeps_id: "keeps (\<lambda>s. s)" and keeps_outb: "keeps (jos_outb p v)"
  by (simp_all add: keeps_def)

lemma keeps_comp: "keeps f \<Longrightarrow> keeps g \<Longrightarrow> keeps (\<lambda>s. f (g s))"
  by (simp add: keeps_def)

lemma keeps_fold: "(\<And>x. keeps (f x)) \<Longrightarrow> keeps (fold f xs)"
  by (induction xs) (auto simp: keeps_def)

lemma keeps_serial: "keeps (serial_putc c)" and keeps_lpt: "keeps (lpt_putc c)"
  by (simp_all add: keeps_def serial_putc_def lpt_putc_def)

lemma keeps_cga: "keeps (tab 32) \<Longrightarrow> keeps (cga_putc_with tab c)"
proof -
  assume t: "keeps (tab 32)"
  have "near_ok (j_crt_buf s) (cga_char tab c s)" if "jcons_ok s" for c s
    by (rule cga_char_near) (use that t in \<open>auto simp: keeps_def\<close>)
  then show ?thesis using near_ok_scroll by (auto simp: keeps_def cga_putc_with_def Let_def)
qed

lemma keeps_cons_putc: "keeps (cons_putc c)"
proof -
  have "keeps (cons_putc_blank c)" for c
    using keeps_cga [of "\<lambda>_ s. s" c] keeps_id keeps_lpt [of c] keeps_serial [of c]
    by (simp add: keeps_def cons_putc_blank_def)
  then show ?thesis
    using keeps_cga [of cons_putc_blank c] keeps_lpt [of c] keeps_serial [of c]
    by (simp add: keeps_def cons_putc_def cga_putc_def)
qed

lemma next_index: "unat (r :: u32) < 512 \<Longrightarrow> r + 1 \<noteq> 512 \<Longrightarrow> unat (r + 1) < 512"
proof -
  assume a: "unat r < 512" "r + 1 \<noteq> 512"
  have e: "unat (r + 1) = unat r + 1" using a(1) by (simp add: unat_word_ariths)
  have "unat (r + 1) \<noteq> unat (512 :: u32)" using a(2) word_unat_eq_iff by blast
  then show ?thesis using e a(1) by simp
qed

lemma keeps_cons_store: "keeps (cons_store c)"
  using next_index by (auto simp: keeps_def cons_store_def jcons_defs Let_def)

lemma keeps_print: "keeps (cons_print xs)"
  using keeps_fold [of "\<lambda>ch :: u8. cputchar (ucast ch)" xs] keeps_cons_putc
  by (simp add: keeps_def cons_print_def cputchar_def [abs_def])

lemma ok_shift: "jcons_ok (s\<lparr>j_shift := x\<rparr>) = jcons_ok s"
  by (simp add: jcons_ok_def)

lemma keeps_kbd: "keeps (\<lambda>s. snd (kbd_proc_data p s))"
proof -
  have "keeps (\<lambda>s. snd (kbd_proc_data (Some d) s))" for d
    unfolding keeps_def
  proof (intro allI impI)
    fix s assume "jcons_ok s"
    then show "jcons_ok (snd (kbd_proc_data (Some d) s)) \<and> (\<forall>i \<ge> CRT_SIZE. j_crt_buf (snd (kbd_proc_data (Some d) s)) i = j_crt_buf s i)"
      by (simp add: kbd_proc_data_def Let_def case_prod_beta ok_shift keepsD [OF keeps_print] keepsD2 [OF keeps_print] del: str_simps)
  qed
  then show ?thesis by (cases p) (simp_all add: kbd_proc_data_def keeps_id)
qed

lemma keeps_kbd_intr: "keeps (kbd_intr ds)"
  unfolding kbd_intr_def
proof (rule keeps_fold)
  show "keeps (\<lambda>s. case kbd_proc_data (Some d) s of (c, s) \<Rightarrow> cons_store c s)" for d
    using keeps_kbd [of "Some d"] keeps_cons_store by (simp add: keeps_def case_prod_beta)
qed

lemma keeps_serial_intr: "keeps (serial_intr bs)"
  using keeps_fold [of "\<lambda>b :: u8. cons_store (int (unat b))" bs] keeps_cons_store
  by (simp add: keeps_def serial_intr_def)

text \<open>
  \<open>cons_intr\<close> does not look at \<open>rpos\<close>: when a whole buffer of characters arrives before one is read, the indices are
  equal again and all of them are lost.
\<close>

lemma cons_store_wpos:
  "c \<noteq> 0 \<Longrightarrow> unat (j_wpos s) < 512 \<Longrightarrow> unat (j_wpos (cons_store c s)) = (unat (j_wpos s) + 1) mod 512"
proof -
  assume a: "c \<noteq> 0" "unat (j_wpos s) < 512"
  have e: "unat (j_wpos s + 1) = unat (j_wpos s) + 1" using a(2) by (simp add: unat_word_ariths)
  show ?thesis
  proof (cases "j_wpos s + 1 = 512")
    case True
    then have "unat (j_wpos s) + 1 = 512" using e by simp
    then show ?thesis using a(1) True by (simp add: cons_store_def Let_def CONSBUFSIZE_def)
  next
    case False
    then show ?thesis using a e next_index [OF a(2) False] by (simp add: cons_store_def Let_def CONSBUFSIZE_def)
  qed
qed

lemma fold_store_wpos:
  "0 \<notin> set bs \<Longrightarrow> unat (j_wpos s) < 512 \<Longrightarrow>
     unat (j_wpos (fold (\<lambda>b :: u8. cons_store (int (unat b))) bs s)) = (unat (j_wpos s) + length bs) mod 512"
proof (induction bs arbitrary: s)
  case (Cons b bs)
  let ?s = "cons_store (int (unat b)) s"
  have "unat b \<noteq> 0" using Cons.prems(1) unat_eq_zero [of b] by auto
  then have "int (unat b) \<noteq> 0" by presburger
  from cons_store_wpos [OF this Cons.prems(2)] have "unat (j_wpos ?s) = (unat (j_wpos s) + 1) mod 512" .
  then show ?case using Cons.IH [of ?s] Cons.prems by (simp add: mod_simps add.assoc)
qed simp

lemma jos_input_overflow:
  assumes "jcons_ok s" and "j_rpos s = j_wpos s" and "j_serial_exists s" and "0 \<notin> set bs" and "length bs = CONSBUFSIZE"
  shows "fst (cons_getc bs [] s) = 0"
proof -
  have r: "j_rpos (fold (\<lambda>b :: u8. cons_store (int (unat b))) xs s) = j_rpos s" for xs s
    by (induction xs arbitrary: s) (simp_all add: cons_store_def Let_def)
  have "unat (j_wpos (serial_intr bs s)) = unat (j_wpos s)"
    using fold_store_wpos [OF assms(4), of s] assms by (simp add: serial_intr_def jcons_defs)
  then have "j_wpos (serial_intr bs s) = j_wpos s" using word_unat_eq_iff by blast
  then show ?thesis using r [of bs s] assms(2,3) by (simp add: cons_getc_def kbd_intr_def serial_intr_def)
qed

section \<open>Properties\<close>

text \<open>
  C22. Well-formedness of the JOS console is kept by every operation: the cursor is on the screen, the indices into the
  input buffer are within it. No operation writes to memory beyond the screen. \<open>cons_init\<close> establishes it when the
  display controller reports a cursor on the screen, and what it leaves beyond the screen is what the display had there.
\<close>

theorem jos_console_wf:
  assumes "jcons_ok s" and "unat (push_bit 8 (ucast hi) OR ucast lo :: u16) < CRT_SIZE"
  shows "jcons_ok (cons_putc c s) \<and> (\<forall>i. j_crt_buf (cons_putc c s) (CRT_SIZE + i) = j_crt_buf s (CRT_SIZE + i))
    \<and> jcons_ok (serial_intr bs s) \<and> (\<forall>i. j_crt_buf (serial_intr bs s) (CRT_SIZE + i) = j_crt_buf s (CRT_SIZE + i))
    \<and> jcons_ok (kbd_intr ds s) \<and> (\<forall>i. j_crt_buf (kbd_intr ds s) (CRT_SIZE + i) = j_crt_buf s (CRT_SIZE + i))
    \<and> jcons_ok (snd (cons_getc bs ds s)) \<and> (\<forall>i. j_crt_buf (snd (cons_getc bs ds s)) (CRT_SIZE + i) = j_crt_buf s (CRT_SIZE + i))
    \<and> jcons_ok (cons_init cga mda back hi lo lsr s)
    \<and> (\<forall>i. j_crt_buf (cons_init cga mda back hi lo lsr s) (CRT_SIZE + i) = (if back = 0xA55A then cga else mda) (CRT_SIZE + i))"
proof -
  have g: "keeps (\<lambda>s. snd (cons_getc bs ds s))"
    using keeps_comp [OF keeps_kbd_intr keeps_serial_intr, of ds bs] next_index
    by (auto simp: keeps_def cons_getc_def Let_def jcons_defs)
  define u where "u = serial_init lsr (cga_init cga mda back hi lo s)"
  define B where "B = (if back = 0xA55A then cga else mda)"
  have "jcons_ok u" "j_crt_buf u = B"
    using assms by (auto simp: serial_init_def cga_init_def Let_def jcons_ok_def u_def B_def)
  then have "jcons_ok (cons_init cga mda back hi lo lsr s)"
    "\<And>i. j_crt_buf (cons_init cga mda back hi lo lsr s) (CRT_SIZE + i) = B (CRT_SIZE + i)"
    using keepsD [OF keeps_print] keepsD2 [OF keeps_print _ le_add1]
    by (simp_all add: cons_init_def Let_def u_def [symmetric] del: str_simps)
  then show ?thesis unfolding B_def [symmetric]
    using keepsD [OF keeps_cons_putc assms(1)] keepsD [OF keeps_serial_intr assms(1)] keepsD [OF keeps_kbd_intr assms(1)]
      keepsD2 [OF keeps_cons_putc assms(1) le_add1] keepsD2 [OF keeps_serial_intr assms(1) le_add1]
      keepsD2 [OF keeps_kbd_intr assms(1) le_add1] keepsD [OF g assms(1)] keepsD2 [OF g assms(1) le_add1]
    by blast
qed

definition jcons0 :: jcons where
  "jcons0 = \<lparr>j_outb = [], j_serial_exists = True, j_addr_6845 = 0x3D4, j_crt_buf = \<lambda>_. 0x0720, j_crt_pos = 1999,
     j_shift = 0, j_buf = replicate 512 0, j_rpos = 0, j_wpos = 511\<rparr>"

lemma jos_console_wf_witness:
  "jcons_ok (cons_putc 65 jcons0) \<and> (\<forall>i. j_crt_buf (cons_putc 65 jcons0) (CRT_SIZE + i) = 0x0720)
    \<and> jcons_ok (serial_intr [97] jcons0) \<and> jcons_ok (kbd_intr [0x1E] jcons0) \<and> jcons_ok (snd (cons_getc [97] [0x1E] jcons0))
    \<and> jcons_ok (cons_init (\<lambda>_. 7) (\<lambda>_. 9) 0xA55A 1 80 0 jcons0)
    \<and> (\<forall>i. j_crt_buf (cons_init (\<lambda>_. 7) (\<lambda>_. 9) 0xA55A 1 80 0 jcons0) (CRT_SIZE + i) = 7)"
proof -
  have "jcons_ok jcons0" "unat (push_bit 8 (ucast (1 :: u8)) OR ucast (80 :: u8) :: u16) < CRT_SIZE"
    by (simp_all add: jcons0_def jcons_defs)
  from jos_console_wf [OF this, of 65 "[97]" "[0x1E]" "\<lambda>_. 7" "\<lambda>_. 9" "0xA55A" 0]
  show ?thesis by (simp add: jcons0_def)
qed

end
