(* ===== verification/Jos_Kdebug.thy ===== *)
theory Jos_Kdebug
  imports Jos_Printf "HOL-Library.Signed_Division"
begin

text \<open>
  The symbol tables of the JOS kernel (\<open>kern/kdebug.c\<close>): the binary search for the stab that contains an address,
  and \<open>debuginfo_eip\<close>, which looks up file, function and line of an instruction with it. The table is a function
  of the index, since a search that begins with a wrong region reads outside of it; the strings are in memory.
\<close>

record stab =
  n_strx :: u32
  n_type :: u8
  n_other :: u8
  n_desc :: u16
  n_value :: u32

definition N_FUN :: u8 where "N_FUN = 0x24"
definition N_SLINE :: u8 where "N_SLINE = 0x44"
definition N_SO :: u8 where "N_SO = 0x64"
definition N_SOL :: u8 where "N_SOL = 0x84"
definition N_PSYM :: u8 where "N_PSYM = 0xa0"

section \<open>The binary search\<close>

text \<open>\<open>while (m >= l && stabs[m].n_type != type) m--\<close>\<close>

function stab_back :: "(int \<Rightarrow> stab) \<Rightarrow> u8 \<Rightarrow> int \<Rightarrow> int \<Rightarrow> int" where
  "stab_back stabs type l m =
     (if l \<le> m \<and> n_type (stabs m) \<noteq> type then stab_back stabs type l (m - 1) else m)"
  by pat_completeness auto
termination
  by (relation "measure (\<lambda>(stabs, type, l, m). nat (m + 1 - l))") auto

declare stab_back.simps [simp del]

lemma stab_back_le: "stab_back stabs type l m \<le> m"
proof (induction stabs type l m rule: stab_back.induct)
  case (1 stabs type l m)
  then show ?case by (subst stab_back.simps) auto
qed

text \<open>
  The loop: \<open>any_matches\<close> and the region it ends with. The division of C rounds towards zero. The indices are
  \<open>int\<close> in the code; the properties below bound the region so that \<open>l + r\<close> does not overflow.
\<close>

lemma midpoint: "(l :: int) \<le> r \<Longrightarrow> l \<le> (l + r) sdiv 2" "(l :: int) \<le> r \<Longrightarrow> (l + r) sdiv 2 \<le> r"
  by (auto simp: signed_divide_int_def sgn_if abs_if)

function stab_loop ::
  "(int \<Rightarrow> stab) \<Rightarrow> u8 \<Rightarrow> int \<Rightarrow> int \<Rightarrow> bool \<Rightarrow> int \<Rightarrow> int \<Rightarrow> u32 \<Rightarrow> bool \<times> int \<times> int" where
  "stab_loop stabs type l r any_matches left right addr =
     (if r < l then (any_matches, left, right)
      else let true_m = (l + r) sdiv 2; m = stab_back stabs type l true_m
           in if m < l then stab_loop stabs type (true_m + 1) r any_matches left right addr
              else if n_value (stabs m) < addr then stab_loop stabs type (true_m + 1) r True m right addr
              else if addr < n_value (stabs m) then stab_loop stabs type l (m - 1) True left (m - 1) addr
              else stab_loop stabs type m r True m right (addr + 1))"
  by pat_completeness auto
termination
proof (relation "measures [\<lambda>(stabs, type, l, r, any, left, right, addr). nat (r + 1 - l),
    \<lambda>(stabs, type, l, r, any, left, right, addr). if n_value (stabs (stab_back stabs type l ((l + r) sdiv 2))) = addr then 1 else 0]", goal_cases)
  case (2 stabs type l r any left right addr tm m)
  then show ?case using midpoint [of l r] by auto
next
  case (3 stabs type l r any left right addr tm m)
  then show ?case using midpoint [of l r] by auto
next
  case (4 stabs type l r any left right addr tm m)
  have "m \<le> tm" using 4 stab_back_le by simp
  then show ?case using 4 midpoint [of l r] by auto
next
  case (5 stabs type l r any left right addr tm m)
  have "addr + 1 \<noteq> addr" by simp
  then show ?case using 5 by (cases "m = l") auto
qed auto

declare stab_loop.simps [simp del]

text \<open>The last loop, down from \<open>*region_right\<close>.\<close>

definition stab_binsearch :: "(int \<Rightarrow> stab) \<Rightarrow> int \<Rightarrow> int \<Rightarrow> u8 \<Rightarrow> u32 \<Rightarrow> int \<times> int" where
  "stab_binsearch stabs region_left region_right type addr =
     (case stab_loop stabs type region_left region_right False region_left region_right addr of
        (any_matches, left, right) \<Rightarrow>
          if \<not> any_matches then (left, left - 1)
          else (stab_back stabs type (left + 1) right, right))"

section \<open>\<open>debuginfo_eip\<close>\<close>

text \<open>A name is an address in the string table, or \<open>None\<close> for the literal \<open>"<unknown>"\<close>.\<close>

record eipdebuginfo =
  eip_file :: "u32 option"
  eip_line :: u32
  eip_fn_name :: "u32 option"
  eip_fn_namelen :: u32
  eip_fn_addr :: u32
  eip_fn_narg :: nat

definition ULIM :: u32 where "ULIM = 0xef800000"

text \<open>The loop back to the stab that names the file.\<close>

function file_back :: "(int \<Rightarrow> stab) \<Rightarrow> int \<Rightarrow> int \<Rightarrow> int" where
  "file_back stabs lfile lline =
     (if lfile \<le> lline \<and> n_type (stabs lline) \<noteq> N_SOL
         \<and> (n_type (stabs lline) \<noteq> N_SO \<or> n_value (stabs lline) = 0)
      then file_back stabs lfile (lline - 1) else lline)"
  by pat_completeness auto
termination
  by (relation "measure (\<lambda>(stabs, lfile, lline). nat (lline + 1 - lfile))") auto

declare file_back.simps [simp del]

text \<open>The stabs of the parameters follow that of the function.\<close>

function count_psym :: "(int \<Rightarrow> stab) \<Rightarrow> int \<Rightarrow> int \<Rightarrow> nat \<Rightarrow> nat" where
  "count_psym stabs lline rfun n =
     (if lline < rfun \<and> n_type (stabs lline) = N_PSYM then count_psym stabs (lline + 1) rfun (n + 1) else n)"
  by pat_completeness auto
termination
  by (relation "measure (\<lambda>(stabs, lline, rfun, n). nat (rfun - lline))") auto

declare count_psym.simps [simp del]

text \<open>The function of the address: what is known of it, the address the lines are searched for, and their region.\<close>

definition fun_info ::
  "(int \<Rightarrow> stab) \<Rightarrow> u32 \<Rightarrow> u32 \<Rightarrow> u32 \<Rightarrow> int \<Rightarrow> int \<Rightarrow> int \<Rightarrow> int \<Rightarrow> eipdebuginfo \<Rightarrow> eipdebuginfo \<times> u32 \<times> int \<times> int" where
  "fun_info stabs stabstr stabstr_end addr lfile rfile lfun rfun info =
     (if lfun \<le> rfun then
        let strx = n_strx (stabs lfun); value = n_value (stabs lfun);
            info = (if strx < stabstr_end - stabstr then info\<lparr>eip_fn_name := Some (stabstr + strx)\<rparr> else info)
        in (info\<lparr>eip_fn_addr := value\<rparr>, addr - value, lfun, rfun)
      else (info\<lparr>eip_fn_addr := addr\<rparr>, addr, lfile, rfile))"

text \<open>The length of the name up to a colon; \<open>"<unknown>"\<close> has none.\<close>

definition name_len :: "mem \<Rightarrow> u32 option \<Rightarrow> u32 option" where
  "name_len m name = (case name of None \<Rightarrow> Some 9 | Some a \<Rightarrow> map_option (\<lambda>e. e - a) (strfind m a 58))"

definition debuginfo_eip ::
  "mem \<Rightarrow> (int \<Rightarrow> stab) \<Rightarrow> int \<Rightarrow> u32 \<Rightarrow> u32 \<Rightarrow> u32 \<Rightarrow> stop + (int \<times> eipdebuginfo)" where
  "debuginfo_eip m stabs nstab stabstr stabstr_end addr =
     (let info = \<lparr>eip_file = None, eip_line = 0, eip_fn_name = None, eip_fn_namelen = 9, eip_fn_addr = addr, eip_fn_narg = 0\<rparr>
      in if addr < ULIM then Inl (Panic ''User address'')
         else if stabstr_end \<le> stabstr \<or> m (stabstr_end - 1) \<noteq> 0 then Inr (- 1, info)
         else case stab_binsearch stabs 0 (nstab - 1) N_SO addr of (lfile, rfile) \<Rightarrow>
           if lfile = 0 then Inr (- 1, info)
           else case stab_binsearch stabs lfile rfile N_FUN addr of (lfun, rfun) \<Rightarrow>
             case fun_info stabs stabstr stabstr_end addr lfile rfile lfun rfun info of (info, addr, lline, rline) \<Rightarrow>
               case name_len m (eip_fn_name info) of None \<Rightarrow> Inl Diverges
               | Some len \<Rightarrow>
                 (let info = info\<lparr>eip_fn_namelen := len\<rparr>
                  in case stab_binsearch stabs lline rline N_SLINE addr of (lline, rline) \<Rightarrow>
                    if rline < lline then Inr (- 1, info)
                    else
                      let info = info\<lparr>eip_line := ucast (n_desc (stabs rline))\<rparr>;
                          lline = file_back stabs lfile lline;
                          strx = n_strx (stabs lline);
                          info = (if lfile \<le> lline \<and> strx < stabstr_end - stabstr
                                  then info\<lparr>eip_file := Some (stabstr + strx)\<rparr> else info);
                          info = (if lfun < rfun then info\<lparr>eip_fn_narg := count_psym stabs (lfun + 1) rfun (eip_fn_narg info)\<rparr>
                                  else info)
                      in Inr (0, info)))"

section \<open>Correctness of the search\<close>

definition hits :: "(int \<Rightarrow> stab) \<Rightarrow> u8 \<Rightarrow> int \<Rightarrow> int \<Rightarrow> int set" where
  "hits stabs type L R = {i. L \<le> i \<and> i \<le> R \<and> n_type (stabs i) = type}"

lemma finite_hits [simp]: "finite (hits stabs type L R)"
  by (rule finite_subset [of _ "{L..R}"]) (auto simp: hits_def)

lemma stab_back_ge: "l \<le> m + 1 \<Longrightarrow> l \<le> stab_back stabs type l m + 1"
proof (induction stabs type l m rule: stab_back.induct)
  case (1 stabs type l m)
  then show ?case by (subst stab_back.simps) auto
qed

lemma stab_back_hit: "l \<le> stab_back stabs type l m \<Longrightarrow> n_type (stabs (stab_back stabs type l m)) = type"
proof (induction stabs type l m rule: stab_back.induct)
  case (1 stabs type l m)
  show ?case
  proof (cases "l \<le> m \<and> n_type (stabs m) \<noteq> type")
    case True
    then have "stab_back stabs type l m = stab_back stabs type l (m - 1)" by (simp add: stab_back.simps [of stabs type l m])
    then show ?thesis using 1 True by simp
  next
    case False
    then have "stab_back stabs type l m = m" by (auto simp: stab_back.simps [of stabs type l m])
    then show ?thesis using "1.prems" False by simp
  qed
qed

lemma stab_back_gap: "stab_back stabs type l m < i \<Longrightarrow> i \<le> m \<Longrightarrow> n_type (stabs i) \<noteq> type"
proof (induction stabs type l m rule: stab_back.induct)
  case (1 stabs type l m)
  show ?case
  proof (cases "l \<le> m \<and> n_type (stabs m) \<noteq> type")
    case True
    then show ?thesis using 1 by (cases "i = m") (auto simp: stab_back.simps [of stabs type l m])
  next
    case False
    then have "stab_back stabs type l m = m" by (auto simp: stab_back.simps [of stabs type l m])
    then show ?thesis using "1.prems" by simp
  qed
qed

text \<open>
  What the loop keeps: the matching stabs below \<open>l\<close> are at or below the address, those above \<open>r\<close> are above it, \<open>left\<close> is
  the last match below \<open>l\<close> and \<open>right\<close> is \<open>r\<close>.
\<close>

definition stab_inv ::
  "(int \<Rightarrow> stab) \<Rightarrow> u8 \<Rightarrow> u32 \<Rightarrow> int \<Rightarrow> int \<Rightarrow> int \<Rightarrow> int \<Rightarrow> bool \<Rightarrow> int \<Rightarrow> int \<Rightarrow> bool" where
  "stab_inv stabs type a L R l r any left right \<longleftrightarrow>
     (let H = hits stabs type L R
      in right = r \<and> l \<le> r + 1 \<and> L \<le> l \<and> r \<le> R \<and> (r = R \<or> r + 1 \<in> H)
         \<and> (\<forall>i \<in> H. i < l \<longrightarrow> n_value (stabs i) \<le> a) \<and> (\<forall>i \<in> H. r < i \<longrightarrow> a < n_value (stabs i))
         \<and> (left \<in> H \<and> n_value (stabs left) \<le> a \<and> (\<forall>i \<in> H. left < i \<longrightarrow> l \<le> i) \<or> left = L \<and> (\<forall>i \<in> H. l \<le> i))
         \<and> (if any then H \<noteq> {} else r = R \<and> (\<forall>i \<in> H. l \<le> i)))"

text \<open>The matching stabs are in order, and none stands at the address after \<open>a\<close>.\<close>

definition stabs_ok :: "(int \<Rightarrow> stab) \<Rightarrow> u8 \<Rightarrow> u32 \<Rightarrow> int \<Rightarrow> int \<Rightarrow> bool" where
  "stabs_ok stabs type a L R \<longleftrightarrow>
     a < a + 1 \<and> (\<forall>i \<in> hits stabs type L R. n_value (stabs i) \<noteq> a + 1)
     \<and> (\<forall>i \<in> hits stabs type L R. \<forall>j \<in> hits stabs type L R. i \<le> j \<longrightarrow> n_value (stabs i) \<le> n_value (stabs j))"

lemma below_next: "a < a + 1 \<Longrightarrow> (v :: u32) \<noteq> a + 1 \<Longrightarrow> b = a \<or> b = a + 1 \<Longrightarrow> v \<noteq> b \<Longrightarrow> v < b \<longleftrightarrow> v \<le> a"
  by (auto simp: word_less_nat_alt word_le_nat_alt unat_word_ariths word_unat_eq_iff split: if_splits)

lemma stab_loop_inv:
  assumes ok: "stabs_ok stabs type a L R"
  shows "stab_inv stabs type a L R l r any left right \<Longrightarrow> addr = a \<or> addr = a + 1 \<Longrightarrow>
    \<exists>any' left' r'. stab_loop stabs type l r any left right addr = (any', left', r')
      \<and> stab_inv stabs type a L R (r' + 1) r' any' left' r'"
  using ok
proof (induction stabs type l r any left right addr rule: stab_loop.induct)
  case (1 stabs type l r any left right addr)
  let ?H = "hits stabs type L R"
  note inv = "1.prems"(1)[unfolded stab_inv_def Let_def]
  show ?case
  proof (cases "r < l")
    case True
    then have "l = r + 1" "right = r" using inv by auto
    then show ?thesis using True "1.prems"(1) by (subst stab_loop.simps) auto
  next
    case False
    define tm where "tm = (l + r) sdiv 2"
    define m where "m = stab_back stabs type l tm"
    have tm: "l \<le> tm" "tm \<le> r" using False midpoint [of l r] by (auto simp: tm_def)
    have m: "m \<le> tm" "l \<le> m + 1" using stab_back_le [of stabs type l tm] stab_back_ge [of l tm stabs type] tm by (auto simp: m_def)
    have gap: "i \<notin> ?H" if "m < i" "i \<le> tm" for i
      using stab_back_gap [of stabs type l tm i] that by (auto simp: m_def hits_def)
    note step = stab_loop.simps [of stabs type l r any left right addr, unfolded Let_def, folded tm_def, folded m_def]
    have ok: "a < a + 1" "\<And>i. i \<in> ?H \<Longrightarrow> n_value (stabs i) \<noteq> a + 1"
      and mono: "\<And>i j. i \<in> ?H \<Longrightarrow> j \<in> ?H \<Longrightarrow> i \<le> j \<Longrightarrow> n_value (stabs i) \<le> n_value (stabs j)"
      using "1.prems"(3) by (auto simp: stabs_ok_def)
    consider "m < l" | "l \<le> m" "n_value (stabs m) < addr" | "l \<le> m" "addr < n_value (stabs m)" | "l \<le> m" "n_value (stabs m) = addr"
      by fastforce
    then show ?thesis
    proof cases
      case 1
      then have nx: "tm + 1 \<le> i" if "i \<in> ?H" "l \<le> i" for i using gap [of i] that by fastforce
      have "\<forall>i \<in> ?H. i < tm + 1 \<longrightarrow> n_value (stabs i) \<le> a" using inv nx by (meson not_le)
      moreover have "left \<in> ?H \<and> n_value (stabs left) \<le> a \<and> (\<forall>i \<in> ?H. left < i \<longrightarrow> tm + 1 \<le> i) \<or> left = L \<and> (\<forall>i \<in> ?H. tm + 1 \<le> i)"
        using inv nx by meson
      moreover have "if any then ?H \<noteq> {} else r = R \<and> (\<forall>i \<in> ?H. tm + 1 \<le> i)" using inv nx by meson
      ultimately have "stab_inv stabs type a L R (tm + 1) r any left right"
        using inv tm unfolding stab_inv_def Let_def by simp
      then show ?thesis using "1.IH"(1) [OF False tm_def m_def 1 _ "1.prems"(2,3)] step 1 False by simp
    next
      case 2
      have mH: "m \<in> ?H" using stab_back_hit [of l stabs type tm] 2(1) inv tm m by (auto simp: m_def hits_def)
      have le: "n_value (stabs m) \<le> a"
        using below_next [of a "n_value (stabs m)" addr] 2(2) "1.prems"(2) ok(1) ok(2) [OF mH] by auto
      have lo: "n_value (stabs i) \<le> a" if "i \<in> ?H" "i < tm + 1" for i
        using mono [OF that(1) mH] le that gap [of i] by fastforce
      have nx: "tm + 1 \<le> i" if "i \<in> ?H" "m < i" for i using gap [of i] that by fastforce
      have "stab_inv stabs type a L R (tm + 1) r True m right"
        using inv lo nx le mH tm m unfolding stab_inv_def Let_def by auto
      then show ?thesis using "1.IH"(2) [OF False tm_def m_def _ 2(2) _ "1.prems"(2,3)] step 2 False by simp
    next
      case 3
      have mH: "m \<in> ?H" using stab_back_hit [of l stabs type tm] 3(1) inv tm m by (auto simp: m_def hits_def)
      have gt: "a < n_value (stabs m)"
        using below_next [of a "n_value (stabs m)" addr] 3(2) "1.prems"(2) ok(1) ok(2) [OF mH] by auto
      have hi: "a < n_value (stabs i)" if "i \<in> ?H" "m - 1 < i" for i
        using mono [OF mH that(1)] gt that by fastforce
      have "stab_inv stabs type a L R l (m - 1) True left (m - 1)"
        using inv hi mH tm m 3(1) unfolding stab_inv_def Let_def by auto
      moreover have "\<not> n_value (stabs m) < addr" using 3(2) by simp
      ultimately show ?thesis using "1.IH"(3) [OF False tm_def m_def _ _ 3(2) _ "1.prems"(2,3)] step 3 False by simp
    next
      case 4
      have mH: "m \<in> ?H" using stab_back_hit [of l stabs type tm] 4(1) inv tm m by (auto simp: m_def hits_def)
      have eq: "addr = a" "n_value (stabs m) = a" using 4(2) "1.prems"(2) ok(2) [OF mH] by auto
      have lo: "n_value (stabs i) \<le> a" if "i \<in> ?H" "i < m" for i
        using mono [OF that(1) mH] eq that by fastforce
      have "stab_inv stabs type a L R m r True m right"
        using inv lo mH eq tm m 4(1) unfolding stab_inv_def Let_def by auto
      then show ?thesis using "1.IH"(4) [OF False tm_def m_def _ _ _ _ _ "1.prems"(3)] step 4 False eq by simp
    qed
  qed
qed

lemma stab_back_none:
  assumes "\<And>i. l \<le> i \<Longrightarrow> i \<le> m \<Longrightarrow> n_type (stabs i) \<noteq> type" and "l \<le> m + 1"
  shows "stab_back stabs type l m = l - 1"
proof -
  have "\<not> l \<le> stab_back stabs type l m"
    using stab_back_hit [of l stabs type m] assms(1) [of "stab_back stabs type l m"] stab_back_le [of stabs type l m] by blast
  then show ?thesis using stab_back_ge [OF assms(2), of stabs type] by linarith
qed

text \<open>The region the search ends with, in all cases.\<close>

lemma stab_binsearch_region:
  assumes "stabs_ok stabs type a L R" and "L \<le> R + 1"
  shows "stab_binsearch stabs L R type a =
    (let H = hits stabs type L R; lo = {i \<in> H. n_value (stabs i) \<le> a}; hi = {i \<in> H. a < n_value (stabs i)};
         r = (if hi = {} then R else Min hi - 1)
     in if H = {} then (L, L - 1) else (if lo = {} then min L r else Max lo, r))"
proof -
  let ?H = "hits stabs type L R"
  have "stab_inv stabs type a L R L R False L R" using assms(2) by (auto simp: stab_inv_def hits_def)
  from stab_loop_inv [OF assms(1) this] obtain any left r where
    l: "stab_loop stabs type L R False L R a = (any, left, r)" and i: "stab_inv stabs type a L R (r + 1) r any left r" by blast
  note inv = i [unfolded stab_inv_def Let_def]
  show ?thesis
  proof (cases any)
    case False
    then have "?H = {}" using inv by (auto simp: hits_def)
    then show ?thesis using False inv l by (simp add: stab_binsearch_def)
  next
    case True
    have H: "?H \<noteq> {}" using True inv by simp
    have lo: "{i \<in> ?H. n_value (stabs i) \<le> a} = {i \<in> ?H. i \<le> r}" using inv by fastforce
    have hi: "{i \<in> ?H. a < n_value (stabs i)} = {i \<in> ?H. r < i}" using inv by fastforce
    have r: "(if {i \<in> ?H. r < i} = {} then R else Min {i \<in> ?H. r < i} - 1) = r"
    proof (cases "r = R")
      case False
      then have "r + 1 \<in> ?H" using inv by blast
      then have "Min {i \<in> ?H. r < i} = r + 1" by (intro Min_eqI) auto
      then show ?thesis using \<open>r + 1 \<in> ?H\<close> by auto
    qed (auto simp: hits_def)
    have left: "left \<in> ?H \<and> left \<le> r \<and> (\<forall>i \<in> ?H. left < i \<longrightarrow> r < i) \<or> left = L \<and> (\<forall>i \<in> ?H. r < i)"
      using inv lo by force
    have "stab_back stabs type (left + 1) r = (if {i \<in> ?H. i \<le> r} = {} then min L r else Max {i \<in> ?H. i \<le> r})"
    proof (cases "{i \<in> ?H. i \<le> r} = {}")
      case True
      then have left: "left = L" using left by blast
      have "stab_back stabs type (L + 1) r = min L r"
      proof (cases "L \<le> r")
        case True
        have "stab_back stabs type (L + 1) r = L + 1 - 1"
          by (rule stab_back_none) (use True inv \<open>{i \<in> ?H. i \<le> r} = {}\<close> in \<open>auto simp: hits_def\<close>)
        then show ?thesis using True by simp
      next
        case False
        then show ?thesis by (subst stab_back.simps) simp
      qed
      then show ?thesis using True left by simp
    next
      case False
      then have left: "left \<in> ?H" "left \<le> r" "\<And>i. i \<in> ?H \<Longrightarrow> left < i \<Longrightarrow> r < i" using left by fastforce+
      have "Max {i \<in> ?H. i \<le> r} = left" by (rule Max_eqI) (use left in fastforce)+
      moreover have "stab_back stabs type (left + 1) r = left + 1 - 1"
      proof (rule stab_back_none)
        show "n_type (stabs i) \<noteq> type" if "left + 1 \<le> i" "i \<le> r" for i
          using left(3) [of i] left(1) that inv by (auto simp: hits_def)
      qed (use left(2) in simp)
      ultimately show ?thesis unfolding if_not_P [OF False] by simp
    qed
    then show ?thesis using True l H unfolding Let_def lo hi r by (simp add: stab_binsearch_def)
  qed
qed

section \<open>Properties\<close>

text \<open>
  C19. The search finds the stab that contains the address. Let the region lie within a table of less than \<open>2^30\<close>
  entries, let the stabs of the type be in order of address in it, and let none of them stand at the very next
  address. Then, if some stab of the type is at or below the address, \<open>*region_left\<close> becomes the last of these and
  \<open>*region_right\<close> the index before the next stab of the type, or stays at the end of the region when there is no next
  one. If there is no stab of the type at all, the region becomes empty.
\<close>

theorem stab_binsearch_finds:
  assumes "stabs_ok stabs type a L R" and "0 \<le> L" and "L \<le> R + 1" and "R < 2 ^ 30"
    and "hits stabs type L R = {} \<or> {i \<in> hits stabs type L R. n_value (stabs i) \<le> a} \<noteq> {}"
  shows "stab_binsearch stabs L R type a =
    (let H = hits stabs type L R; lo = {i \<in> H. n_value (stabs i) \<le> a}; hi = {i \<in> H. a < n_value (stabs i)}
     in if H = {} then (L, L - 1) else (Max lo, if hi = {} then R else Min hi - 1))"
  using stab_binsearch_region [OF assms(1,3)] assms(5) by (auto simp: Let_def)

text \<open>A table with one entry of type \<open>N_SO\<close> and functions at 256, 272 and 304.\<close>

definition stabs0 :: "int \<Rightarrow> stab" where
  "stabs0 i = \<lparr>n_strx = 0, n_type = (if i = 0 then N_SO else N_FUN), n_other = 0, n_desc = 0,
     n_value = (if i \<le> 1 then 256 else if i = 2 then 272 else 304)\<rparr>"

lemma hits0 [simp]: "hits stabs0 N_FUN 0 3 = {1, 2, 3}"
  by (auto simp: hits_def stabs0_def N_FUN_def N_SO_def)

lemma stab_binsearch_finds_witness:
  "stab_binsearch stabs0 0 3 N_FUN 280 = (2, 2) \<and> stab_binsearch stabs0 0 0 N_FUN 280 = (0, - 1)"
proof -
  have e: "{i \<in> {1, 2, 3 :: int}. n_value (stabs0 i) \<le> 280} = {1, 2}" "{i \<in> {1, 2, 3 :: int}. 280 < n_value (stabs0 i)} = {3}"
    by (auto simp: stabs0_def)
  have h: "hits stabs0 N_FUN 0 0 = {}" by (auto simp: hits_def stabs0_def N_FUN_def N_SO_def)
  have ok: "stabs_ok stabs0 N_FUN 280 0 3" "stabs_ok stabs0 N_FUN 280 0 0" by (simp_all add: stabs_ok_def stabs0_def h)
  have "stab_binsearch stabs0 0 3 N_FUN 280 = (2, 2)"
    using stab_binsearch_finds [OF ok(1)] unfolding Let_def hits0 e by simp
  then show ?thesis using stab_binsearch_finds [OF ok(2)] by (simp add: h Let_def)
qed



text \<open>
  C23. A stab at the next address is taken for the stab at the address: of two neighbouring stabs of the type at \<open>a\<close>
  and \<open>a + 1\<close>, the search for \<open>a\<close> returns the second, which does not contain \<open>a\<close>. After an exact match the loop goes on
  with \<open>addr++\<close>, and the stab at \<open>a + 1\<close> is then an exact match as well. This is against the comment of the function,
  by which \<open>*region_left\<close> points to the stab that contains the address.
\<close>

theorem stab_binsearch_adjacent:
  assumes "0 \<le> i" and "i + 1 < 2 ^ 30" and "n_type (stabs i) = type" and "n_type (stabs (i + 1)) = type"
    and "n_value (stabs i) = a" and "n_value (stabs (i + 1)) = a + 1" and "a < a + 1" and "a + 1 < a + 2"
  shows "stab_binsearch stabs i (i + 1) type a = (i + 1, i + 1)"
proof -
  have b: "stab_back stabs type l m = m" if "n_type (stabs m) = type" for l m using that by (subst stab_back.simps) simp
  have d: "(2 * i + 1) sdiv 2 = i" "(2 * i + 2) sdiv 2 = i + 1"
    using assms(1) by (auto simp: signed_divide_int_def sgn_if)
  note st = stab_loop.simps [of stabs type _ "i + 1"]
  have 1: "stab_loop stabs type i (i + 1) False i (i + 1) a = stab_loop stabs type i (i + 1) True i (i + 1) (a + 1)"
    by (subst st) (simp add: d b assms Let_def)
  have 2: "\<dots> = stab_loop stabs type (i + 1) (i + 1) True i (i + 1) (a + 1)"
    by (subst st) (simp add: d b assms Let_def)
  have 3: "\<dots> = stab_loop stabs type (i + 1) (i + 1) True (i + 1) (i + 1) (2 + a)"
    by (subst st) (simp add: d b assms Let_def)
  have 4: "\<dots> = stab_loop stabs type (i + 2) (i + 1) True (i + 1) (i + 1) (2 + a)"
    by (subst st) (simp add: d b assms add.commute [of 2] Let_def)
  have 5: "\<dots> = (True, i + 1, i + 1)" by (subst st) simp
  show ?thesis unfolding stab_binsearch_def 1 2 3 4 5 by (simp add: stab_back.simps)
qed

definition stabs1 :: "int \<Rightarrow> stab" where
  "stabs1 i = \<lparr>n_strx = 0, n_type = N_SLINE, n_other = 0, n_desc = 7, n_value = (if i = 4 then 16 else 17)\<rparr>"

lemma stab_binsearch_adjacent_witness: "stab_binsearch stabs1 4 5 N_SLINE 16 = (5, 5)"
  using stab_binsearch_adjacent [of 4 stabs1 N_SLINE 16] by (simp add: stabs1_def)

end
