(* ===== verification/Jos_Monitor.thy ===== *)
theory Jos_Monitor
  imports Jos_Kdebug Jos_Console
begin

text \<open>
  The kernel monitor of JOS (\<open>kern/monitor.c\<close>): it reads lines, splits them into words and runs the command they
  name. The addresses the linker gives to the symbols of the kernel, the stack and the symbol table are
  arguments. The output is the list of characters that go to the console; \<open>None\<close> is a panic, a loop that does not end or
  a wait for input.
\<close>

section \<open>What the commands know\<close>

record jenv =
  e_start :: u32
  e_entry :: u32
  e_etext :: u32
  e_edata :: u32
  e_end :: u32
  e_mem :: mem
  e_ebp :: u32
  e_eip :: u32
  e_stabs :: "int \<Rightarrow> stab"
  e_nstab :: int
  e_stabstr :: u32
  e_stabstr_end :: u32

definition jos_KERNBASE :: u32 where "jos_KERNBASE = 0xF0000000"

text \<open>One \<open>cprintf\<close> after another.\<close>

definition then_print :: "u32 list option \<Rightarrow> u8 list \<Rightarrow> varg list \<Rightarrow> u32 list option" where
  "then_print r fmt ap =
     (case r of None \<Rightarrow> None | Some out \<Rightarrow> map_option (\<lambda>(out', _). out @ out') (jos_cprintf fmt ap))"

definition ROUNDUP :: "u32 \<Rightarrow> u32 \<Rightarrow> u32" where
  "ROUNDUP a n = (let b = a + n - 1 in b - b mod n)"

text \<open>The string at an address.\<close>

partial_function (option) strz :: "mem \<Rightarrow> u32 \<Rightarrow> u8 list \<Rightarrow> u8 list option" where
  "strz m a acc = (if m a = 0 then Some acc else strz m (a + 1) (acc @ [m a]))"

section \<open>Commands\<close>

definition commands :: "(string \<times> string) list" where
  "commands = [(''help'', ''Display this list of commands''), (''kerninfo'', ''Display information about the kernel''),
     (''backtrace'', ''Perform a backtrace'')]"

definition mon_help :: "u32 list option" where
  "mon_help = foldl (\<lambda>r (name, desc). then_print r (str ''%s - %s'' @ [10]) [VStr (Some (str name)), VStr (Some (str desc))])
     (Some []) commands"

definition mon_kerninfo :: "jenv \<Rightarrow> u32 list option" where
  "mon_kerninfo e =
     (let sym = (\<lambda>r fmt a. then_print r (str fmt @ [10]) [VInt a, VInt (a - jos_KERNBASE)]);
          r = then_print (Some []) (str ''Special kernel symbols:'' @ [10]) [];
          r = then_print r (str ''  _start                  %08x (phys)'' @ [10]) [VInt (e_start e)];
          r = sym r ''  entry  %08x (virt)  %08x (phys)'' (e_entry e);
          r = sym r ''  etext  %08x (virt)  %08x (phys)'' (e_etext e);
          r = sym r ''  edata  %08x (virt)  %08x (phys)'' (e_edata e);
          r = sym r ''  end    %08x (virt)  %08x (phys)'' (e_end e)
      in then_print r (str ''Kernel executable memory footprint: %dKB'' @ [10]) [VInt (ROUNDUP (e_end e - e_entry e) 1024 div 1024)])"

text \<open>The line that \<open>mon_backtrace\<close> prints for an instruction; it ignores the result of \<open>debuginfo_eip\<close>.\<close>

definition print_eip :: "jenv \<Rightarrow> u32 list option \<Rightarrow> u32 \<Rightarrow> u32 list option" where
  "print_eip e r eip =
     (case debuginfo_eip (e_mem e) (e_stabs e) (e_nstab e) (e_stabstr e) (e_stabstr_end e) eip of
        Inl _ \<Rightarrow> None
      | Inr (_, x) \<Rightarrow>
          (let name = (\<lambda>p. case p of None \<Rightarrow> Some (str ''<unknown>'') | Some a \<Rightarrow> strz (e_mem e) a [])
           in case (name (eip_file x), name (eip_fn_name x)) of
                (Some file, Some fn) \<Rightarrow>
                  then_print r ([9] @ str ''%s:%d: %.*s+%d'' @ [10])
                    [VStr (Some file), VInt (eip_line x), VInt (eip_fn_namelen x), VStr (Some fn), VInt (eip - eip_fn_addr x)]
              | _ \<Rightarrow> None))"

text \<open>The chain of saved frame pointers.\<close>

partial_function (option) backtrace_loop :: "jenv \<Rightarrow> u32 \<Rightarrow> u32 list \<Rightarrow> u32 list option" where
  "backtrace_loop e ebp out =
     (if ebp = 0 then Some out
      else
        let w = (\<lambda>k. ld32 (e_mem e) (ebp + k));
            r = then_print (Some out) (str ''  ebp %08x  eip %08x  args %08x %08x %08x %08x %08x'' @ [10])
                  (map VInt [ebp, w 4, w 8, w 12, w 16, w 20, w 24])
        in case print_eip e r (w 4) of None \<Rightarrow> None | Some out \<Rightarrow> backtrace_loop e (w 0) out)"

definition mon_backtrace :: "jenv \<Rightarrow> u32 list option" where
  "mon_backtrace e =
     (let r = then_print (Some []) (str ''Stack backtrace:'' @ [10]) [];
          r = then_print r (str ''  current eip=%08x'' @ [10]) [VInt (e_eip e)]
      in case print_eip e r (e_eip e) of None \<Rightarrow> None | Some out \<Rightarrow> backtrace_loop e (e_ebp e) out)"

section \<open>The interpreter\<close>

definition WHITESPACE :: "u8 list" where "WHITESPACE = [9, 13, 10, 32]"

definition mon_MAXARGS :: nat where "mon_MAXARGS = 16"

text \<open>The words of a line; \<open>None\<close> when there are too many.\<close>

function mon_args :: "u8 list \<Rightarrow> u8 list list \<Rightarrow> u8 list list option" where
  "mon_args buf argv =
     (let buf = dropWhile (\<lambda>c. c \<in> set WHITESPACE) buf
      in if buf = [] then Some argv
         else if length argv = mon_MAXARGS - 1 then None
         else mon_args (dropWhile (\<lambda>c. c \<notin> set WHITESPACE) buf) (argv @ [takeWhile (\<lambda>c. c \<notin> set WHITESPACE) buf]))"
  by pat_completeness auto
termination
proof (relation "measure (\<lambda>(buf, argv). length buf)", goal_cases)
  case (2 buf argv x)
  have "x \<noteq> [] \<Longrightarrow> hd x \<notin> set WHITESPACE" using 2(1) by (metis hd_dropWhile)
  then have "length (dropWhile (\<lambda>c. c \<notin> set WHITESPACE) x) < length x"
    using 2(2) by (cases x) (auto simp: le_imp_less_Suc length_dropWhile_le)
  moreover have "length x \<le> length buf" using 2(1) by (simp add: length_dropWhile_le)
  ultimately show ?case by simp
qed simp

declare mon_args.simps [simp del]

definition mon_runcmd :: "jenv \<Rightarrow> u8 list \<Rightarrow> u32 list option" where
  "mon_runcmd e buf =
     (case mon_args buf [] of
        None \<Rightarrow> map_option fst (jos_cprintf (str ''Too many arguments (max %d)'' @ [10]) [VInt (of_nat mon_MAXARGS)])
      | Some [] \<Rightarrow> Some []
      | Some (cmd # _) \<Rightarrow>
          if cmd = str ''help'' then mon_help
          else if cmd = str ''kerninfo'' then mon_kerninfo e
          else if cmd = str ''backtrace'' then mon_backtrace e
          else map_option fst (jos_cprintf (str ''Unknown command '' @ [39] @ str ''%s'' @ [39, 10]) [VStr (Some cmd)]))"

text \<open>
  \<open>monitor\<close>, as far as the input goes. No command returns a negative number, so the loop has no end of its own.
\<close>

fun monitor_loop :: "nat \<Rightarrow> jenv \<Rightarrow> int list \<Rightarrow> u32 list \<Rightarrow> u32 list option" where
  "monitor_loop 0 e inp out = Some out"
| "monitor_loop (Suc lines) e inp out =
     (case readline (Some (str ''K> '')) (iscons 0 \<noteq> 0) inp of None \<Rightarrow> None
      | Some (Inl _, out', inp) \<Rightarrow> monitor_loop lines e inp (out @ out')
      | Some (Inr buf, out', inp) \<Rightarrow>
          (case mon_runcmd e buf of None \<Rightarrow> None
           | Some out'' \<Rightarrow> monitor_loop lines e inp (out @ out' @ out'')))"

definition monitor :: "nat \<Rightarrow> jenv \<Rightarrow> int list \<Rightarrow> u32 list option" where
  "monitor lines e inp =
     (case then_print (then_print (Some []) (str ''Welcome to the JOS kernel monitor!'' @ [10]) [])
             (str ''Type '' @ [39] @ str ''help'' @ [39] @ str '' for a list of commands.'' @ [10]) [] of
        None \<Rightarrow> None
      | Some out \<Rightarrow> monitor_loop lines e inp out)"

section \<open>Words\<close>

text \<open>Words between blanks are what the line is split into, as long as there are fewer than 16.\<close>

lemma mon_args_words:
  assumes "\<forall>w \<in> set ws. w \<noteq> [] \<and> set w \<inter> set WHITESPACE = {}" and "length argv + length ws < mon_MAXARGS"
  shows "mon_args (concat (map (\<lambda>w. w @ [32]) ws)) argv = Some (argv @ ws)"
  using assms
proof (induction ws arbitrary: argv)
  case Nil
  then show ?case by (simp add: mon_args.simps)
next
  case (Cons w ws)
  let ?P = "\<lambda>c. c \<notin> set WHITESPACE"
  let ?rest = "concat (map (\<lambda>w. w @ [32]) ws)"
  have w: "w \<noteq> []" "\<And>c. c \<in> set w \<Longrightarrow> ?P c" using Cons.prems(1) by auto
  have b: "\<not> ?P 32" by (simp add: WHITESPACE_def)
  have d: "dropWhile (\<lambda>c. c \<in> set WHITESPACE) (w @ 32 # ?rest) = w @ 32 # ?rest" using w by (cases w) auto
  have "dropWhile ?P (w @ 32 # ?rest) = 32 # ?rest" "takeWhile ?P (w @ 32 # ?rest) = w"
    using w b by (simp_all add: dropWhile_append takeWhile_append dropWhile_eq_Nil_conv takeWhile_eq_all_conv)
  then have "mon_args (w @ 32 # ?rest) argv = mon_args (32 # ?rest) (argv @ [w])"
    using Cons.prems(2) w(1) by (auto simp: mon_args.simps [of "w @ 32 # ?rest"] d Let_def)
  also have "\<dots> = mon_args ?rest (argv @ [w])"
    using b by (simp add: mon_args.simps [of "32 # ?rest"] mon_args.simps [of ?rest])
  finally show ?case using Cons by simp
qed

end
