(* ===== verification/Spec2Isabelle.thy ===== *)
theory Spec2Isabelle
  imports Prelude Spinlock Strings Kalloc Sched Bytes Bio Bio_Cache Log Log_Crash Log_Recovery Log_Trans Bio_Props Log_Props Sleep_Props Printf Fs Console Inode Pipe File Vm Proc Syscall Exec Sysfile Trap Ulib Ulib_Props Ring Sample Pipe_Props Console_Props Tx Fs_Blocks Fs_Files Fs_Rw Shell Shell_Props Kbd Jos_String Jos_Printf Jos_Props Jos_Console Jos_Kdebug Jos_Monitor
begin

text \<open>
  This library verifies the two teaching operating systems of the repository: the kernel, the shell and some user
  programs of xv6 (\<open>src/COL331/HW1/xv6\<close>) and the library, console, symbol lookup and monitor of JOS
  (\<open>src/COL331_A1\<close>).

  \<^bold>\<open>The parts and how they interact.\<close> A system call of xv6 enters through \<open>trap\<close> and \<open>syscall\<close>, takes its arguments from user
  memory and calls the open files, which are pipes, the console or inodes. Inodes are stored in blocks; a
  change of blocks is collected in a transaction of the log, and the log and the file system read and write blocks through the
  buffer cache, below which is the disk. Processes wait for each other with \<open>sleep\<close> and \<open>wakeup\<close>, and all shared
  tables are protected by spin locks. The shell runs on top of the system calls. JOS is a separate, smaller
  kernel: its monitor reads lines with \<open>readline\<close> from its console, prints with \<open>cprintf\<close> and looks up addresses with
  \<open>debuginfo_eip\<close>.

  \<^bold>\<open>How code is modelled.\<close> A kernel routine is a function of the state monad of Prelude: from a state to either the reason it
  stopped (\<open>Panic\<close> with its message, \<open>Swtch\<close> where it gives up the CPU, \<open>Spins\<close> on a taken lock, \<open>Diverges\<close> in a loop that does
  not end, \<open>Undefined\<close> where C leaves the behaviour undefined), with the state, or a result with a new state.
  \<open>ok c s Q\<close> says that the routine returns and that \<open>Q\<close> holds of result and state, so all properties with \<open>ok\<close> are statements
  of total correctness. The global variables of the kernel are fields of one record, which each component extends:
  locks and CPU (Spinlock), page memory (Kalloc), process table (Sched), buffers and disk (Bio), log (Log), inodes (Fs),
  console (Console), pipes (Pipe), files (File), address spaces (Vm), and the rest (Proc, Trap). Pointers to table
  entries are indices. Integers are words of their width; structures in disk blocks and in page memory are bytes at the
  offsets the C structures have. A routine that calls \<open>swtch\<close> ends there with \<open>Swtch\<close>, and the
  code after the switch is a definition of its own (\<open>sleep_resume\<close>, \<open>scheduler_resume\<close>, ...).

  \<^bold>\<open>Theories of xv6.\<close>
  \<^item> Prelude, Bytes, Strings, Ring: the monad, fields in byte lists, byte memory with the routines of \<open>string.c\<close>, ring
    buffers. \<open>memmove\<close> is the simultaneous copy; the contract \<open>block_move\<close> is shared with the routine of JOS.
  \<^item> Spinlock (\<open>spinlock.c\<close>): the routines on one CPU, and all interleavings of \<open>acquire\<close> and \<open>release\<close> on any number of
    CPUs with \<open>xchg\<close> as the atomic step; mutual exclusion, \<open>holding\<close>, nesting of \<open>pushcli\<close>. The nesting depth \<open>ncli\<close> is an
    integer, and the property on it asks for a depth below \<open>2^31\<close>.
  \<^item> Kalloc (\<open>kalloc.c\<close>): the free list threads through free pages; it implements a stack of pages (locale
    \<open>page_allocator\<close>).
  \<^item> Sched, Sleep_Props (\<open>sleep\<close>, \<open>wakeup\<close>, \<open>sched\<close>, \<open>yield\<close>, \<open>kill\<close> of \<open>proc.c\<close>): \<open>sleep\<close> and \<open>wakeup\<close> are lists of
    statements; Sleep_Props interleaves the statements of a sleeping process, of a CPU that wakes it, and of the
    scheduler, and shows that no wake-up is lost and nobody gets stuck.
  \<^item> Bio, Bio_Cache, Bio_Props (\<open>bio.c\<close>, \<open>memide.c\<close>): the doubly linked list of buffers, the invariant of the cache, the
    contract of \<open>bread\<close>, \<open>bwrite\<close> and \<open>brelse\<close> (locale \<open>block_cache\<close>, interpreted on the model), recycling in
    least-recently-used order. Every write to the disk is recorded in order.
  \<^item> Log, Log_Crash, Log_Recovery, Log_Trans, Log_Props (\<open>log.c\<close>): a commit that a crash cuts off after any number of block writes
    is recovered by \<open>initlog\<close> as a whole or not at all; recovery may itself be cut off; what a transaction writes; when
    \<open>log_write\<close> panics.
  \<^item> Fs, Inode, Tx, Fs_Blocks, Fs_Files, Fs_Rw (\<open>fs.c\<close>): block bitmap, inodes, block mapping, \<open>readi\<close> and \<open>writei\<close>,
    directories and paths. Tx has the proof rules for code inside a transaction. The blocks of an inode
    represent a sequence of bytes; \<open>readi\<close> and \<open>writei\<close> read and replace a part of it and leave other files alone.
  \<^item> Console, Console_Props, Kbd (\<open>console.c\<close>, \<open>kbd.c\<close>, \<open>uartputc\<close>): output stays on the screen, input is a line editor.
  \<^item> Pipe, Pipe_Props, File (\<open>pipe.c\<close>, \<open>file.c\<close>): the ring of a pipe implements a bounded queue (locale \<open>bounded_queue\<close>).
  \<^item> Vm, Proc, Syscall, Exec, Sysfile, Trap (\<open>vm.c\<close>, \<open>proc.c\<close>, \<open>syscall.c\<close>, \<open>exec.c\<close>, \<open>sysfile.c\<close>, \<open>sysproc.c\<close>, \<open>trap.c\<close>,
    the clock of \<open>lapic.c\<close>): definitions of every routine. No property is stated of them here; they are there as
    executable definitions, beside the findings made in translating them.
  \<^item> Printf, Ulib, Ulib_Props (\<open>printf.c\<close>, \<open>ulib.c\<close>, \<open>cat.c\<close>, \<open>wc.c\<close>, \<open>grep.c\<close>): decimal output, the matcher against the
    language of its patterns, \<open>grep\<close> and \<open>wc\<close> over input that arrives in pieces.
  \<^item> Shell, Shell_Props (\<open>sh.c\<close>): the parser ends on every line and reads back the text of a command tree; \<open>runcmd\<close> starts the
    programs of a command with the descriptors the command asks for.
  \<^item> Sample: a concrete kernel state on which properties are shown to apply.

  \<^bold>\<open>Theories of JOS.\<close>
  \<^item> Jos_String, Jos_Printf, Jos_Props (\<open>lib/string.c\<close>, \<open>lib/printfmt.c\<close>, \<open>kern/printf.c\<close>, \<open>lib/readline.c\<close>): \<open>snprintf\<close> stays in
    its buffer, and \<open>strtol\<close> reads back what it prints.
  \<^item> Jos_Console (\<open>kern/console.c\<close>): every operation keeps the console well-formed and writes nothing beyond the screen.
  \<^item> Jos_Kdebug (\<open>kern/kdebug.c\<close>): the binary search finds the stab that contains an address, under the conditions stated
    there, and two cases in which it does not do what its comment says.
  \<^item> Jos_Monitor (\<open>kern/monitor.c\<close>): the commands and the loop of the monitor, as definitions.

  \<^bold>\<open>Loops, bounds and fuel.\<close> Most loops are structural recursion or have a termination proof. A loop that may run forever
  is a \<open>partial_function\<close> whose value is then \<open>None\<close>, or stops with \<open>Diverges\<close>. The parser of the shell carries fuel, and
  Shell_Props shows that the fuel \<open>parsecmd\<close> gives it is enough on every line. \<open>freerange\<close> has as many rounds as there
  are pages of addresses; \<open>kfree\<close> panics earlier. The searches of \<open>bget\<close> and the killing of a line have one round for each
  buffer and each character; Bio_Cache and Console_Props show that they return. \<open>cmostime\<close> repeats until the clock is read twice alike; its number of rounds is
  an argument. A routine that waits for an event, such as \<open>consoleread\<close> or \<open>piperead\<close> on an empty buffer, stops with the
  state in which it went to sleep.

  \<^bold>\<open>Concurrency.\<close> The routines are sequential between two points where they give up the CPU. Interleavings of statements are modelled for
  spin locks (Spinlock) and for sleeping and waking (Sleep_Props). Crashes are modelled between any two block
  writes; a single block is written completely or not at all.

  \<^bold>\<open>Arguments of the model.\<close> What code outside of the sources or a device delivers is an argument of the definitions: the characters
  of keyboard and serial port, the chunks that \<open>read\<close> returns to a user program, the addresses the linker fixes, the stack
  of a backtrace, the cells of the screen and the registers \<open>cga_init\<close> reads.

  \<^bold>\<open>Not modelled.\<close> Device drivers and processor set-up that only read and write ports and registers (\<open>ide.c\<close>, \<open>lapic.c\<close> apart
  from the clock, \<open>ioapic.c\<close>, \<open>picirq.c\<close>, \<open>mp.c\<close>, \<open>uart.c\<close> apart from \<open>uartputc\<close>, \<open>seginit\<close>); assembly and boot code; \<open>main.c\<close>;
  the host program \<open>mkfs.c\<close>; \<open>umalloc.c\<close>; the test programs and the user programs that only make system
  calls; the user threads; \<open>src/COL331/HW1/sh.c\<close>, a shell for the host; the page table of JOS, which is a constant; the
  exercises of the other courses.
\<close>

end
